theory Spec2Isabelle
  imports Complex_Main "HOL-Library.Word" "HOL-Library.Monad_Syntax" "HOL-Library.Multiset"
begin

section \<open>WordCounter: a self-resizing hash table of word counts\<close>

text \<open>
  The development embeds \<^verbatim>\<open>WordCounter.cpp\<close> / \<^verbatim>\<open>WordCounter.h\<close>.

  \<^item> A C++ \<^verbatim>\<open>int\<close> has 32 bits. It is an \<^typ>\<open>int\<close> here, and every increment and
    decrement of a counter (\<^verbatim>\<open>wordCount\<close>, \<^verbatim>\<open>totalWordCount\<close>, \<^verbatim>\<open>uniqueWordCount\<close>) goes
    through \<open>int32\<close>, the two's-complement wrap-around of the compiled program: one more than
    \<open>2147483647\<close> is \<open>-2147483648\<close>. (The C++ standard leaves signed overflow
    undefined.) The one product the code forms, \<^verbatim>\<open>capacity * 2\<close>, is only evaluated when
    \<^verbatim>\<open>capacity < MAX_CAPACITY\<close>, where it fits.
  \<^item> \<^verbatim>\<open>std::hash<std::string>\<close> belongs to the standard library, not to the repository: it
    is a parameter \<open>h\<close> of every operation, a function from strings to \<^verbatim>\<open>size_t\<close>
    (64 bits).
  \<^item> A bucket's linked list of \<^verbatim>\<open>Node\<close>s is a list of records; \<^verbatim>\<open>next\<close> is the tail.
    The bucket array \<^verbatim>\<open>Node **wordTable\<close> is a list of such chains, whose length is the
    allocated size. A \<^verbatim>\<open>Node *\<close> into the table is a pair (bucket, position in the chain).
  \<^item> Every operation returns an \<open>option\<close>: \<open>None\<close> is undefined behaviour of the C++
    (an array access out of bounds, a null or dangling dereference, a remainder by zero).
  \<^item> \<^verbatim>\<open>getLoadFactor\<close> divides two \<^verbatim>\<open>int\<close>s as \<^verbatim>\<open>double\<close>s and the result is only ever
    compared with the constants \<^verbatim>\<open>0.750\<close> and \<^verbatim>\<open>0.30\<close>. It is modelled by the exact
    quotient in \<^typ>\<open>rat\<close>. For 32-bit operands with a non-zero divisor both comparisons give
    the same answer as the exact ones: \<open>0.75\<close> is a double, the double nearest to \<open>0.30\<close>
    is within \<open>2\<^sup>-\<^sup>5\<^sup>4\<close> of it, while a quotient \<open>u / c\<close> different from \<open>3/4\<close> (from
    \<open>3/10\<close>) is at least \<open>1 / (4 c)\<close> (\<open>1 / (10 c)\<close>) away, far more than a rounding error.
\<close>

subsection \<open>Data\<close>

type_synonym hash = "string \<Rightarrow> 64 word"

text \<open>The value a 32-bit \<^verbatim>\<open>int\<close> holds after an arithmetic operation whose exact result is
  \<open>x\<close>.\<close>

definition int32 :: "int \<Rightarrow> int" where
  "int32 x = sint (word_of_int x :: 32 word)"

record Node =
  word :: string
  wordCount :: int

type_synonym table = "Node list list"

type_synonym nodePtr = "int \<times> nat"

record WordCounter =
  capacity :: int
  totalWordCount :: int
  uniqueWordCount :: int
  wordTable :: table

definition MIN_CAPACITY :: int where
  "MIN_CAPACITY = 11"

definition MAX_CAPACITY :: int where
  "MAX_CAPACITY = 993815743"

definition NEW_WORD_COUNT :: int where
  "NEW_WORD_COUNT = 1"

definition MAX_LOAD_FACTOR :: rat where
  "MAX_LOAD_FACTOR = 3 / 4"

definition MIN_LOAD_FACTOR :: rat where
  "MIN_LOAD_FACTOR = 3 / 10"

definition primes :: "int list" where
  "primes = [
     11, 13, 17, 19, 23, 29, 31, 37, 43, 53, 67, 79, 97, 107,
     131, 157, 191, 223, 269, 331, 389, 461, 557, 673, 797, 967, 1151,
     1381, 1657, 1979, 2377, 2851, 3433, 4111, 4931, 5923, 7103, 8513,
     10211, 12251, 14699, 17657, 21169, 25409, 30491, 36583, 43889,
     52667, 63199, 75853, 91009, 109211, 131059, 157259, 188707,
     226451, 271753, 326087, 391331, 469583, 563489, 676171, 811411,
     973691, 1168451, 1402123, 1682531, 2019037, 2422873, 2907419,
     3488897, 4186673, 5024009, 6028807, 7234589, 8681483, 10417769,
     12501331, 15001603, 18001909, 21602311, 25922749, 31107317,
     37328761, 44794513, 53753431, 64504081, 77404907, 92885893,
     111463049, 133755659, 160506817, 192608173, 231129781, 277355759,
     332826869, 399392243, 479270713, 575124829, 690149821, 828179753,
     993815743]"

subsection \<open>Sizing\<close>

text \<open>The range-for of \<^verbatim>\<open>getValidCapacity\<close>: the first prime that the request does not
  exceed, and \<^verbatim>\<open>MAX_CAPACITY\<close> when the loop runs off the end.\<close>

fun firstPrimeAtLeast :: "int \<Rightarrow> int list \<Rightarrow> int" where
  "firstPrimeAtLeast cap [] = MAX_CAPACITY"
| "firstPrimeAtLeast cap (primeNum # rest) =
     (if cap \<le> primeNum then primeNum else firstPrimeAtLeast cap rest)"

definition getValidCapacity :: "int \<Rightarrow> int" where
  "getValidCapacity cap = firstPrimeAtLeast cap primes"

subsection \<open>Array and pointer accesses\<close>

definition bucketAt :: "table \<Rightarrow> int \<Rightarrow> Node list option" where
  "bucketAt tab b = (if 0 \<le> b \<and> b < int (length tab) then Some (tab ! nat b) else None)"

definition bucketSet :: "table \<Rightarrow> int \<Rightarrow> Node list \<Rightarrow> table option" where
  "bucketSet tab b chain =
     (if 0 \<le> b \<and> b < int (length tab) then Some (tab[nat b := chain]) else None)"

definition nodeAt :: "table \<Rightarrow> nodePtr \<Rightarrow> Node option" where
  "nodeAt tab p = do {
     chain \<leftarrow> bucketAt tab (fst p);
     if snd p < length chain then Some (chain ! snd p) else None }"

definition nodeSetCount :: "table \<Rightarrow> nodePtr \<Rightarrow> int \<Rightarrow> table option" where
  "nodeSetCount tab p c = do {
     chain \<leftarrow> bucketAt tab (fst p);
     if snd p < length chain
     then bucketSet tab (fst p) (chain[snd p := (chain ! snd p)\<lparr>wordCount := c\<rparr>])
     else None }"

subsection \<open>Construction, hashing, lookup\<close>

definition initialize :: "int \<Rightarrow> WordCounter" where
  "initialize cap =
     \<lparr>capacity = cap, totalWordCount = 0, uniqueWordCount = 0,
      wordTable = replicate (nat cap) []\<rparr>"

text \<open>\<^verbatim>\<open>h(word) % capacity\<close>: the \<^verbatim>\<open>int\<close> is converted to \<^verbatim>\<open>size_t\<close>, the remainder is
  unsigned, and the result is converted back to \<^verbatim>\<open>int\<close>.\<close>

definition getBucket :: "hash \<Rightarrow> string \<Rightarrow> int \<Rightarrow> int option" where
  "getBucket h w cap =
     (let c = (word_of_int cap :: 64 word)
      in if c = 0 then None else Some (sint (ucast (h w mod c) :: 32 word)))"

text \<open>The chain walk of \<^verbatim>\<open>getWordNode\<close>: the position of the first node holding the word.\<close>

fun findNode :: "string \<Rightarrow> Node list \<Rightarrow> nat option" where
  "findNode w [] = None"
| "findNode w (cur # rest) =
     (if word cur = w then Some 0 else map_option Suc (findNode w rest))"

definition getWordNode :: "hash \<Rightarrow> WordCounter \<Rightarrow> string \<Rightarrow> nodePtr option option" where
  "getWordNode h wc w = do {
     bucket \<leftarrow> getBucket h w (capacity wc);
     chain \<leftarrow> bucketAt (wordTable wc) bucket;
     Some (map_option (\<lambda>i. (bucket, i)) (findNode w chain)) }"

definition getWordCount :: "hash \<Rightarrow> WordCounter \<Rightarrow> string \<Rightarrow> int option" where
  "getWordCount h wc w = do {
     wordNode \<leftarrow> getWordNode h wc w;
     case wordNode of
       None \<Rightarrow> Some 0
     | Some p \<Rightarrow> map_option wordCount (nodeAt (wordTable wc) p) }"

definition getLoadFactor :: "WordCounter \<Rightarrow> rat" where
  "getLoadFactor wc = of_int (uniqueWordCount wc) / of_int (capacity wc)"

definition getUniqueWordCount :: "WordCounter \<Rightarrow> int" where
  "getUniqueWordCount wc = uniqueWordCount wc"

definition getTotalWordCount :: "WordCounter \<Rightarrow> int" where
  "getTotalWordCount wc = totalWordCount wc"

definition getCapacity :: "WordCounter \<Rightarrow> int" where
  "getCapacity wc = capacity wc"

definition WordCounter_default :: WordCounter where
  "WordCounter_default = initialize MIN_CAPACITY"

definition WordCounter_cap :: "int \<Rightarrow> WordCounter" where
  "WordCounter_cap cap = initialize (getValidCapacity cap)"

subsection \<open>Resizing\<close>

text \<open>The inner \<^verbatim>\<open>while\<close> of \<^verbatim>\<open>resize\<close>: each node of an old chain is rehashed and a copy
  of it is put in front of its new bucket.\<close>

fun rehashChain :: "hash \<Rightarrow> int \<Rightarrow> Node list \<Rightarrow> table \<Rightarrow> table option" where
  "rehashChain h newCap [] newTable = Some newTable"
| "rehashChain h newCap (originalNode # rest) newTable = do {
     newBucket \<leftarrow> getBucket h (word originalNode) newCap;
     old \<leftarrow> bucketAt newTable newBucket;
     newTable' \<leftarrow> bucketSet newTable newBucket
        (\<lparr>word = word originalNode, wordCount = wordCount originalNode\<rparr> # old);
     rehashChain h newCap rest newTable' }"

function resizeLoop :: "hash \<Rightarrow> table \<Rightarrow> int \<Rightarrow> int \<Rightarrow> int \<Rightarrow> table \<Rightarrow> table option" where
  "resizeLoop h oldTable cap newCap bucket newTable =
     (if bucket < cap then do {
        originalNode \<leftarrow> bucketAt oldTable bucket;
        newTable' \<leftarrow> rehashChain h newCap originalNode newTable;
        resizeLoop h oldTable cap newCap (bucket + 1) newTable' }
      else Some newTable)"
  by pat_completeness auto
termination
  by (relation "measure (\<lambda>(h, oldTable, cap, newCap, bucket, newTable). nat (cap - bucket))") auto

declare resizeLoop.simps [simp del]

text \<open>\<^verbatim>\<open>clear\<close> empties every bucket and releases the array.\<close>

function clearLoop :: "table \<Rightarrow> int \<Rightarrow> int \<Rightarrow> table option" where
  "clearLoop tab cap bucket =
     (if bucket < cap then do {
        chain \<leftarrow> bucketAt tab bucket;
        tab' \<leftarrow> bucketSet tab bucket [];
        clearLoop tab' cap (bucket + 1) }
      else Some tab)"
  by pat_completeness auto
termination
  by (relation "measure (\<lambda>(tab, cap, bucket). nat (cap - bucket))") auto

declare clearLoop.simps [simp del]

definition clear :: "WordCounter \<Rightarrow> WordCounter option" where
  "clear wc = do {
     tab \<leftarrow> clearLoop (wordTable wc) (capacity wc) 0;
     Some (wc\<lparr>wordTable := []\<rparr>) }"

definition resize :: "hash \<Rightarrow> WordCounter \<Rightarrow> int \<Rightarrow> WordCounter option" where
  "resize h wc newCapacity = do {
     let newCap = getValidCapacity newCapacity;
     let newWordTable = replicate (nat newCap) [];
     newWordTable' \<leftarrow> resizeLoop h (wordTable wc) (capacity wc) newCap 0 newWordTable;
     wc' \<leftarrow> clear wc;
     Some (wc'\<lparr>capacity := newCap, wordTable := newWordTable'\<rparr>) }"

subsection \<open>Adding and removing\<close>

definition addWord :: "hash \<Rightarrow> WordCounter \<Rightarrow> string \<Rightarrow> (int \<times> WordCounter) option" where
  "addWord h wc w = do {
     wordNode \<leftarrow> getWordNode h wc w;
     case wordNode of
       None \<Rightarrow> do {
         bucket \<leftarrow> getBucket h w (capacity wc);
         chain \<leftarrow> bucketAt (wordTable wc) bucket;
         tab \<leftarrow> bucketSet (wordTable wc) bucket (\<lparr>word = w, wordCount = NEW_WORD_COUNT\<rparr> # chain);
         let wc1 = wc\<lparr>wordTable := tab, uniqueWordCount := int32 (uniqueWordCount wc + 1)\<rparr>;
         head \<leftarrow> nodeAt (wordTable wc1) (bucket, 0);
         let cnt = wordCount head;
         wc2 \<leftarrow> (if getLoadFactor wc1 > MAX_LOAD_FACTOR \<and> capacity wc1 < MAX_CAPACITY
                 then resize h wc1 (capacity wc1 * 2) else Some wc1);
         Some (cnt, wc2\<lparr>totalWordCount := int32 (totalWordCount wc2 + 1)\<rparr>) }
     | Some p \<Rightarrow> do {
         node \<leftarrow> nodeAt (wordTable wc) p;
         tab \<leftarrow> nodeSetCount (wordTable wc) p (int32 (wordCount node + 1));
         node' \<leftarrow> nodeAt tab p;
         Some (wordCount node',
               wc\<lparr>wordTable := tab, totalWordCount := int32 (totalWordCount wc + 1)\<rparr>) } }"

definition updateWordCountsPostRemoval :: "WordCounter \<Rightarrow> int \<Rightarrow> WordCounter" where
  "updateWordCountsPostRemoval wc toSubtract =
     wc\<lparr>totalWordCount := int32 (totalWordCount wc - toSubtract),
        uniqueWordCount := int32 (uniqueWordCount wc - 1)\<rparr>"

text \<open>The \<^verbatim>\<open>for\<close> loop of \<^verbatim>\<open>removeWord\<close> over the nodes behind the head: at the first node
  holding the word it yields that node's count and the chain with the node unlinked; \<open>None\<close>
  when the loop ends without a match.\<close>

fun unlinkLoop :: "string \<Rightarrow> Node list \<Rightarrow> (int \<times> Node list) option" where
  "unlinkLoop w [] = None"
| "unlinkLoop w (current # rest) =
     (if word current = w then Some (wordCount current, rest)
      else map_option (\<lambda>(c, rest'). (c, current # rest')) (unlinkLoop w rest))"

text \<open>\<^verbatim>\<open>capacity / 2\<close> is only evaluated when \<^verbatim>\<open>capacity > MIN_CAPACITY\<close>, where the
  truncating division of C++ and \<open>div\<close> agree.\<close>

definition removeWord :: "hash \<Rightarrow> WordCounter \<Rightarrow> string \<Rightarrow> WordCounter option" where
  "removeWord h wc w = do {
     wordNode \<leftarrow> getWordNode h wc w;
     if wordNode = None then Some wc
     else do {
       bucket \<leftarrow> getBucket h w (capacity wc);
       chain \<leftarrow> bucketAt (wordTable wc) bucket;
       wc1 \<leftarrow> (case chain of
                 [] \<Rightarrow> None
               | head # rest \<Rightarrow>
                   if word head = w then do {
                     let wc' = updateWordCountsPostRemoval wc (wordCount head);
                     tab \<leftarrow> bucketSet (wordTable wc') bucket rest;
                     Some (wc'\<lparr>wordTable := tab\<rparr>) }
                   else (case unlinkLoop w rest of
                           None \<Rightarrow> Some wc
                         | Some (c, rest') \<Rightarrow> do {
                             let wc' = updateWordCountsPostRemoval wc c;
                             tab \<leftarrow> bucketSet (wordTable wc') bucket (head # rest');
                             Some (wc'\<lparr>wordTable := tab\<rparr>) }));
       if getLoadFactor wc1 < MIN_LOAD_FACTOR \<and> capacity wc1 > MIN_CAPACITY
       then resize h wc1 (capacity wc1 div 2) else Some wc1 } }"

subsection \<open>Copying\<close>

fun copyBucket :: "Node list \<Rightarrow> Node list" where
  "copyBucket [] = []"
| "copyBucket (current # rest) =
     \<lparr>word = word current, wordCount = wordCount current\<rparr> # copyBucket rest"

function copyLoop :: "table \<Rightarrow> int \<Rightarrow> int \<Rightarrow> table \<Rightarrow> table option" where
  "copyLoop otherTable cap bucket tab =
     (if bucket < cap then do {
        headToCopy \<leftarrow> bucketAt otherTable bucket;
        tab' \<leftarrow> bucketSet tab bucket (copyBucket headToCopy);
        copyLoop otherTable cap (bucket + 1) tab' }
      else Some tab)"
  by pat_completeness auto
termination
  by (relation "measure (\<lambda>(otherTable, cap, bucket, tab). nat (cap - bucket))") auto

declare copyLoop.simps [simp del]

definition copy :: "WordCounter \<Rightarrow> WordCounter option" where
  "copy other = do {
     tab \<leftarrow> copyLoop (wordTable other) (capacity other) 0 (replicate (nat (capacity other)) []);
     Some \<lparr>capacity = capacity other, totalWordCount = totalWordCount other,
           uniqueWordCount = uniqueWordCount other, wordTable = tab\<rparr> }"

subsection \<open>Representation invariant and abstraction\<close>

text \<open>A bucket array is in order for a capacity when the capacity is one of the primes, the
  array has that many buckets, every node sits in the bucket its word hashes to, and no word
  occurs twice.\<close>

definition tableOk :: "hash \<Rightarrow> int \<Rightarrow> table \<Rightarrow> bool" where
  "tableOk h cap tab \<longleftrightarrow>
     cap \<in> set primes \<and> length tab = nat cap \<and>
     (\<forall>b \<in> {0..<length tab}.
        \<forall>n \<in> set (tab ! b). getBucket h (word n) cap = Some (int b)) \<and>
     distinct (map word (concat tab))"

text \<open>The two counters agree with the stored entries, as 32-bit values: \<^verbatim>\<open>uniqueWordCount\<close>
  with the number of entries, \<^verbatim>\<open>totalWordCount\<close> with the sum of their counts.\<close>

definition countsOk :: "WordCounter \<Rightarrow> bool" where
  "countsOk wc \<longleftrightarrow>
     uniqueWordCount wc = int32 (int (length (concat (wordTable wc)))) \<and>
     totalWordCount wc = int32 (sum_list (map wordCount (concat (wordTable wc))))"

definition wellFormed :: "hash \<Rightarrow> WordCounter \<Rightarrow> bool" where
  "wellFormed h wc \<longleftrightarrow> tableOk h (capacity wc) (wordTable wc) \<and> countsOk wc"

text \<open>The stored entries as a finite map from words to counts.\<close>

definition entryMap :: "Node list \<Rightarrow> string \<rightharpoonup> int" where
  "entryMap es = map_of (map (\<lambda>n. (word n, wordCount n)) es)"

definition countMap :: "WordCounter \<Rightarrow> string \<rightharpoonup> int" where
  "countMap wc = map_of (map (\<lambda>n. (word n, wordCount n)) (concat (wordTable wc)))"

text \<open>Every node of bucket \<open>b\<close> hashes to \<open>b\<close>, with the bucket index written as a
  remainder of integers.\<close>

definition bucketsOk :: "hash \<Rightarrow> int \<Rightarrow> table \<Rightarrow> bool" where
  "bucketsOk h cap t \<longleftrightarrow>
     (\<forall>b < length t. \<forall>n \<in> set (t ! b). uint (h (word n)) mod cap = int b)"

subsection \<open>Sequences of calls\<close>

datatype call = Add string | Remove string

fun step :: "hash \<Rightarrow> WordCounter \<Rightarrow> call \<Rightarrow> WordCounter option" where
  "step h wc (Add w) = map_option snd (addWord h wc w)"
| "step h wc (Remove w) = removeWord h wc w"

fun run :: "hash \<Rightarrow> WordCounter \<Rightarrow> call list \<Rightarrow> WordCounter option" where
  "run h wc [] = Some wc"
| "run h wc (c # cs) = do { wc' \<leftarrow> step h wc c; run h wc' cs }"

text \<open>The number of times a key was added since its most recent removal, reading the calls
  in order with the count so far.\<close>

fun addsSinceRemove :: "string \<Rightarrow> int \<Rightarrow> call list \<Rightarrow> int" where
  "addsSinceRemove key k [] = k"
| "addsSinceRemove key k (Add w # cs) = addsSinceRemove key (if w = key then k + 1 else k) cs"
| "addsSinceRemove key k (Remove w # cs) = addsSinceRemove key (if w = key then 0 else k) cs"

text \<open>The same number, as the claim words it: the calls after the most recent removal of
  the key (all of them when it was never removed), and the additions of the key among them.\<close>

definition afterLastRemove :: "string \<Rightarrow> call list \<Rightarrow> call list" where
  "afterLastRemove key cs = rev (takeWhile (\<lambda>c. c \<noteq> Remove key) (rev cs))"

definition addsSinceLastRemove :: "string \<Rightarrow> call list \<Rightarrow> int" where
  "addsSinceLastRemove key cs =
     int (length (filter (\<lambda>c. c = Add key) (afterLastRemove key cs)))"

text \<open>The states a client can reach: the two constructors, then any calls of the public
  mutators and copies.\<close>

inductive reachable :: "hash \<Rightarrow> WordCounter \<Rightarrow> bool" for h :: hash where
  r_default: "reachable h WordCounter_default"
| r_cap: "reachable h (WordCounter_cap c)"
| r_add: "reachable h wc \<Longrightarrow> addWord h wc w = Some (r, wc') \<Longrightarrow> reachable h wc'"
| r_remove: "reachable h wc \<Longrightarrow> removeWord h wc w = Some wc' \<Longrightarrow> reachable h wc'"
| r_copy: "reachable h wc \<Longrightarrow> copy wc = Some wc' \<Longrightarrow> reachable h wc'"

text \<open>A sample hash function, to run the operations on concrete inputs, and the table it
  gives after adding \<open>cat\<close>, \<open>dog\<close>, \<open>cat\<close> to a default-constructed one.\<close>

definition sampleHash :: hash where
  "sampleHash w = foldl (\<lambda>a c. a * 31 + of_char c) 0 w"

definition catDogCat :: WordCounter where
  "catDogCat =
     \<lparr>capacity = 11, totalWordCount = 3, uniqueWordCount = 2,
      wordTable = [[], [], [], [], [], [], [\<lparr>word = ''dog'', wordCount = 1\<rparr>], [], [], [],
                   [\<lparr>word = ''cat'', wordCount = 2\<rparr>]]\<rparr>"

text \<open>The table a default-constructed one becomes when \<open>a\<close> is added again and again,
  at the moment its count is \<open>k\<close>.\<close>

definition onlyA :: "int \<Rightarrow> WordCounter" where
  "onlyA k =
     \<lparr>capacity = 11, totalWordCount = k, uniqueWordCount = 1,
      wordTable = [[], [], [], [], [], [], [], [], [], [\<lparr>word = ''a'', wordCount = k\<rparr>], []]\<rparr>"

text \<open>The table after adding the words \<open>a\<close> to \<open>h\<close> to a default-constructed one: one
  more new word takes it past the maximal load factor.\<close>

definition eightWords :: WordCounter where
  "eightWords =
     \<lparr>capacity = 11, totalWordCount = 8, uniqueWordCount = 8,
      wordTable =
        [[\<lparr>word = ''c'', wordCount = 1\<rparr>], [\<lparr>word = ''d'', wordCount = 1\<rparr>],
         [\<lparr>word = ''e'', wordCount = 1\<rparr>], [\<lparr>word = ''f'', wordCount = 1\<rparr>],
         [\<lparr>word = ''g'', wordCount = 1\<rparr>], [\<lparr>word = ''h'', wordCount = 1\<rparr>],
         [], [], [], [\<lparr>word = ''a'', wordCount = 1\<rparr>],
         [\<lparr>word = ''b'', wordCount = 1\<rparr>]]\<rparr>"

text \<open>The table after adding \<open>a\<close> to \<open>i\<close> and removing \<open>a\<close> and \<open>b\<close>: one more removal
  takes it below the minimal load factor.\<close>

definition sevenWords :: WordCounter where
  "sevenWords =
     \<lparr>capacity = 23, totalWordCount = 7, uniqueWordCount = 7,
      wordTable =
        [[], [], [], [], [], [], [], [\<lparr>word = ''c'', wordCount = 1\<rparr>],
         [\<lparr>word = ''d'', wordCount = 1\<rparr>], [\<lparr>word = ''e'', wordCount = 1\<rparr>],
         [\<lparr>word = ''f'', wordCount = 1\<rparr>], [\<lparr>word = ''g'', wordCount = 1\<rparr>],
         [\<lparr>word = ''h'', wordCount = 1\<rparr>], [\<lparr>word = ''i'', wordCount = 1\<rparr>],
         [], [], [], [], [], [], [], [], []]\<rparr>"

text \<open>The table after adding \<open>a\<close> to one constructed with capacity 29.\<close>

definition oneWordAt29 :: WordCounter where
  "oneWordAt29 =
     \<lparr>capacity = 29, totalWordCount = 1, uniqueWordCount = 1,
      wordTable =
        [[], [], [], [], [], [], [], [], [], [],
         [\<lparr>word = ''a'', wordCount = 1\<rparr>], [], [], [], [], [], [], [], [], [],
         [], [], [], [], [], [], [], [], []]\<rparr>"

subsection \<open>Load factor bounds\<close>

definition loadFactorInBounds :: "WordCounter \<Rightarrow> bool" where
  "loadFactorInBounds wc \<longleftrightarrow>
     MIN_LOAD_FACTOR \<le> getLoadFactor wc \<and> getLoadFactor wc \<le> MAX_LOAD_FACTOR"

text \<open>Four-character words, one for each number below \<open>2\<^sup>3\<^sup>2\<close>: the four bytes of the
  number, most significant first.\<close>

definition key4 :: "nat \<Rightarrow> string" where
  "key4 i = [char_of (i div 16777216), char_of (i div 65536), char_of (i div 256), char_of i]"

section \<open>The same code over an explicit store\<close>

text \<open>
  Copies are about ownership: whether two tables share nodes or the bucket array. Lists of
  records cannot share, so for this the code is embedded a second time, over a store. A
  \<^verbatim>\<open>Node\<close> lives at an address and holds the address of its successor; a bucket array lives
  at an address and holds the addresses of the heads; \<^verbatim>\<open>new\<close> takes the next unused address;
  \<^verbatim>\<open>delete\<close> makes an address dangling, and no address is handed out twice. A
  \<^verbatim>\<open>WordCounter\<close> object holds its three counters and the address of its bucket array; a
  member function gets the fields of its object as a record and returns the record updated,
  so that the only way from one object to the storage of another is through the store.
  Reading a dangling or null address, writing outside an array and deleting twice are
  undefined behaviour, \<open>None\<close>; so is a chain walk that never ends.
\<close>

record NodeH =
  wordH :: string
  wordCountH :: int
  nextH :: "nat option"

record Heap =
  nodes :: "nat \<Rightarrow> NodeH option"
  arrays :: "nat \<Rightarrow> nat option list option"
  fresh :: nat

record WordCounterH =
  capacityH :: int
  totalWordCountH :: int
  uniqueWordCountH :: int
  wordTableH :: "nat option"

definition emptyHeap :: Heap where
  "emptyHeap = \<lparr>nodes = (\<lambda>a. None), arrays = (\<lambda>a. None), fresh = 0\<rparr>"

text \<open>\<^verbatim>\<open>new Node(word, wordCount, next)\<close>: the new node is at address \<open>fresh s\<close>.\<close>

definition allocNode :: "Heap \<Rightarrow> string \<Rightarrow> int \<Rightarrow> nat option \<Rightarrow> Heap" where
  "allocNode s w c nx =
     s\<lparr>nodes := (nodes s)(fresh s \<mapsto> \<lparr>wordH = w, wordCountH = c, nextH = nx\<rparr>),
       fresh := Suc (fresh s)\<rparr>"

text \<open>\<^verbatim>\<open>new Node*[n]\<close> with every slot set to \<^verbatim>\<open>nullptr\<close>: the array is at address
  \<open>fresh s\<close>. (\<^verbatim>\<open>initialize\<close> and \<^verbatim>\<open>resize\<close> set the slots in a loop of their own;
  \<^verbatim>\<open>copy\<close> leaves them as they come and writes each one before anything reads it.)\<close>

definition allocArray :: "Heap \<Rightarrow> nat \<Rightarrow> Heap" where
  "allocArray s n =
     s\<lparr>arrays := (arrays s)(fresh s \<mapsto> replicate n None), fresh := Suc (fresh s)\<rparr>"

definition deleteNode :: "Heap \<Rightarrow> nat \<Rightarrow> Heap option" where
  "deleteNode s a = (case nodes s a of None \<Rightarrow> None
                     | Some n \<Rightarrow> Some (s\<lparr>nodes := (nodes s)(a := None)\<rparr>))"

definition deleteArray :: "Heap \<Rightarrow> nat \<Rightarrow> Heap option" where
  "deleteArray s t = (case arrays s t of None \<Rightarrow> None
                      | Some arr \<Rightarrow> Some (s\<lparr>arrays := (arrays s)(t := None)\<rparr>))"

definition readSlot :: "Heap \<Rightarrow> nat \<Rightarrow> int \<Rightarrow> nat option option" where
  "readSlot s t b = do {
     arr \<leftarrow> arrays s t;
     if 0 \<le> b \<and> b < int (length arr) then Some (arr ! nat b) else None }"

definition writeSlot :: "Heap \<Rightarrow> nat \<Rightarrow> int \<Rightarrow> nat option \<Rightarrow> Heap option" where
  "writeSlot s t b v = do {
     arr \<leftarrow> arrays s t;
     if 0 \<le> b \<and> b < int (length arr)
     then Some (s\<lparr>arrays := (arrays s)(t \<mapsto> arr[nat b := v])\<rparr>) else None }"

definition setNext :: "Heap \<Rightarrow> nat \<Rightarrow> nat option \<Rightarrow> Heap option" where
  "setNext s a nx = do {
     n \<leftarrow> nodes s a;
     Some (s\<lparr>nodes := (nodes s)(a \<mapsto> n\<lparr>nextH := nx\<rparr>)\<rparr>) }"

definition setCount :: "Heap \<Rightarrow> nat \<Rightarrow> int \<Rightarrow> Heap option" where
  "setCount s a c = do {
     n \<leftarrow> nodes s a;
     Some (s\<lparr>nodes := (nodes s)(a \<mapsto> n\<lparr>wordCountH := c\<rparr>)\<rparr>) }"

definition initializeH :: "Heap \<Rightarrow> int \<Rightarrow> Heap \<times> WordCounterH" where
  "initializeH s cap =
     (allocArray s (nat cap),
      \<lparr>capacityH = cap, totalWordCountH = 0, uniqueWordCountH = 0,
       wordTableH = Some (fresh s)\<rparr>)"

partial_function (option) findNodeH :: "Heap \<Rightarrow> string \<Rightarrow> nat option \<Rightarrow> nat option option" where
  "findNodeH s w cur =
     (case cur of
        None \<Rightarrow> Some None
      | Some a \<Rightarrow> do {
          n \<leftarrow> nodes s a;
          if wordH n = w then Some (Some a) else findNodeH s w (nextH n) })"

declare findNodeH.simps [code]

definition getWordNodeH :: "hash \<Rightarrow> Heap \<Rightarrow> WordCounterH \<Rightarrow> string \<Rightarrow> nat option option" where
  "getWordNodeH h s obj w = do {
     bucket \<leftarrow> getBucket h w (capacityH obj);
     t \<leftarrow> wordTableH obj;
     cur \<leftarrow> readSlot s t bucket;
     findNodeH s w cur }"

definition getWordCountH :: "hash \<Rightarrow> Heap \<Rightarrow> WordCounterH \<Rightarrow> string \<Rightarrow> int option" where
  "getWordCountH h s obj w = do {
     wordNode \<leftarrow> getWordNodeH h s obj w;
     case wordNode of
       None \<Rightarrow> Some 0
     | Some a \<Rightarrow> map_option wordCountH (nodes s a) }"

definition getLoadFactorH :: "WordCounterH \<Rightarrow> rat" where
  "getLoadFactorH obj = of_int (uniqueWordCountH obj) / of_int (capacityH obj)"

partial_function (option) rehashChainH ::
    "hash \<Rightarrow> int \<Rightarrow> nat \<Rightarrow> nat option \<Rightarrow> Heap \<Rightarrow> Heap option" where
  "rehashChainH h newCap newTable originalNode s =
     (case originalNode of
        None \<Rightarrow> Some s
      | Some a \<Rightarrow> do {
          n \<leftarrow> nodes s a;
          newBucket \<leftarrow> getBucket h (wordH n) newCap;
          old \<leftarrow> readSlot s newTable newBucket;
          s2 \<leftarrow> writeSlot (allocNode s (wordH n) (wordCountH n) old) newTable newBucket
                  (Some (fresh s));
          rehashChainH h newCap newTable (nextH n) s2 })"

declare rehashChainH.simps [code]

function resizeLoopH ::
    "hash \<Rightarrow> nat \<Rightarrow> int \<Rightarrow> int \<Rightarrow> nat \<Rightarrow> int \<Rightarrow> Heap \<Rightarrow> Heap option" where
  "resizeLoopH h oldTable cap newCap newTable bucket s =
     (if bucket < cap then do {
        originalNode \<leftarrow> readSlot s oldTable bucket;
        s' \<leftarrow> rehashChainH h newCap newTable originalNode s;
        resizeLoopH h oldTable cap newCap newTable (bucket + 1) s' }
      else Some s)"
  by pat_completeness auto
termination
  by (relation "measure (\<lambda>(h, oldTable, cap, newCap, newTable, bucket, s). nat (cap - bucket))")
     auto

declare resizeLoopH.simps [simp del]

partial_function (option) clearChainH :: "nat \<Rightarrow> int \<Rightarrow> Heap \<Rightarrow> Heap option" where
  "clearChainH t bucket s = do {
     head \<leftarrow> readSlot s t bucket;
     case head of
       None \<Rightarrow> Some s
     | Some toDelete \<Rightarrow> do {
         n \<leftarrow> nodes s toDelete;
         s1 \<leftarrow> writeSlot s t bucket (nextH n);
         s2 \<leftarrow> deleteNode s1 toDelete;
         clearChainH t bucket s2 } }"

declare clearChainH.simps [code]

function clearLoopH :: "nat \<Rightarrow> int \<Rightarrow> int \<Rightarrow> Heap \<Rightarrow> Heap option" where
  "clearLoopH t cap bucket s =
     (if bucket < cap then do {
        s' \<leftarrow> clearChainH t bucket s;
        clearLoopH t cap (bucket + 1) s' }
      else Some s)"
  by pat_completeness auto
termination
  by (relation "measure (\<lambda>(t, cap, bucket, s). nat (cap - bucket))") auto

declare clearLoopH.simps [simp del]

definition clearH :: "Heap \<Rightarrow> WordCounterH \<Rightarrow> (Heap \<times> WordCounterH) option" where
  "clearH s obj = do {
     t \<leftarrow> wordTableH obj;
     s1 \<leftarrow> clearLoopH t (capacityH obj) 0 s;
     s2 \<leftarrow> deleteArray s1 t;
     Some (s2, obj\<lparr>wordTableH := None\<rparr>) }"

definition resizeH :: "hash \<Rightarrow> Heap \<Rightarrow> WordCounterH \<Rightarrow> int \<Rightarrow> (Heap \<times> WordCounterH) option" where
  "resizeH h s obj newCapacity = do {
     let newCap = getValidCapacity newCapacity;
     let newWordTable = fresh s;
     let s1 = allocArray s (nat newCap);
     t \<leftarrow> wordTableH obj;
     s2 \<leftarrow> resizeLoopH h t (capacityH obj) newCap newWordTable 0 s1;
     r \<leftarrow> clearH s2 obj;
     Some (fst r, (snd r)\<lparr>capacityH := newCap, wordTableH := Some newWordTable\<rparr>) }"

definition addWordH ::
    "hash \<Rightarrow> Heap \<Rightarrow> WordCounterH \<Rightarrow> string \<Rightarrow> (int \<times> Heap \<times> WordCounterH) option" where
  "addWordH h s obj w = do {
     wordNode \<leftarrow> getWordNodeH h s obj w;
     case wordNode of
       None \<Rightarrow> do {
         bucket \<leftarrow> getBucket h w (capacityH obj);
         t \<leftarrow> wordTableH obj;
         head \<leftarrow> readSlot s t bucket;
         s1 \<leftarrow> writeSlot (allocNode s w NEW_WORD_COUNT head) t bucket (Some (fresh s));
         let obj1 = obj\<lparr>uniqueWordCountH := int32 (uniqueWordCountH obj + 1)\<rparr>;
         head' \<leftarrow> readSlot s1 t bucket;
         n \<leftarrow> (case head' of None \<Rightarrow> None | Some a \<Rightarrow> nodes s1 a);
         let cnt = wordCountH n;
         r \<leftarrow> (if getLoadFactorH obj1 > MAX_LOAD_FACTOR \<and> capacityH obj1 < MAX_CAPACITY
                then resizeH h s1 obj1 (capacityH obj1 * 2) else Some (s1, obj1));
         Some (cnt, fst r, (snd r)\<lparr>totalWordCountH := int32 (totalWordCountH (snd r) + 1)\<rparr>) }
     | Some a \<Rightarrow> do {
         n \<leftarrow> nodes s a;
         s1 \<leftarrow> setCount s a (int32 (wordCountH n + 1));
         n' \<leftarrow> nodes s1 a;
         Some (wordCountH n', s1, obj\<lparr>totalWordCountH := int32 (totalWordCountH obj + 1)\<rparr>) } }"

definition updateWordCountsPostRemovalH :: "WordCounterH \<Rightarrow> int \<Rightarrow> WordCounterH" where
  "updateWordCountsPostRemovalH obj toSubtract =
     obj\<lparr>totalWordCountH := int32 (totalWordCountH obj - toSubtract),
         uniqueWordCountH := int32 (uniqueWordCountH obj - 1)\<rparr>"

text \<open>The \<^verbatim>\<open>for\<close> loop of \<^verbatim>\<open>removeWord\<close> with its two pointers. It yields the count of the
  node it unlinked and deleted, if any, and the store.\<close>

partial_function (option) unlinkLoopH ::
    "string \<Rightarrow> nat option \<Rightarrow> nat option \<Rightarrow> Heap \<Rightarrow> (int option \<times> Heap) option" where
  "unlinkLoopH w prev current s =
     (case current of
        None \<Rightarrow> Some (None, s)
      | Some ca \<Rightarrow> do {
          cn \<leftarrow> nodes s ca;
          if wordH cn = w then do {
            pa \<leftarrow> prev;
            s1 \<leftarrow> setNext s pa (nextH cn);
            s2 \<leftarrow> deleteNode s1 ca;
            Some (Some (wordCountH cn), s2) }
          else do {
            pa \<leftarrow> prev;
            pn \<leftarrow> nodes s pa;
            unlinkLoopH w (nextH pn) (nextH cn) s } })"

declare unlinkLoopH.simps [code]

definition removeWordH ::
    "hash \<Rightarrow> Heap \<Rightarrow> WordCounterH \<Rightarrow> string \<Rightarrow> (Heap \<times> WordCounterH) option" where
  "removeWordH h s obj w = do {
     wordNode \<leftarrow> getWordNodeH h s obj w;
     if wordNode = None then Some (s, obj)
     else do {
       bucket \<leftarrow> getBucket h w (capacityH obj);
       t \<leftarrow> wordTableH obj;
       head \<leftarrow> readSlot s t bucket;
       r1 \<leftarrow> (case head of
                 None \<Rightarrow> None
               | Some toDelete \<Rightarrow> do {
                   hn \<leftarrow> nodes s toDelete;
                   if wordH hn = w then do {
                     let obj' = updateWordCountsPostRemovalH obj (wordCountH hn);
                     s1 \<leftarrow> writeSlot s t bucket (nextH hn);
                     s2 \<leftarrow> deleteNode s1 toDelete;
                     Some (s2, obj') }
                   else do {
                     u \<leftarrow> unlinkLoopH w (Some toDelete) (nextH hn) s;
                     case fst u of
                       None \<Rightarrow> Some (snd u, obj)
                     | Some c \<Rightarrow> Some (snd u, updateWordCountsPostRemovalH obj c) } });
       if getLoadFactorH (snd r1) < MIN_LOAD_FACTOR \<and> capacityH (snd r1) > MIN_CAPACITY
       then resizeH h (fst r1) (snd r1) (capacityH (snd r1) div 2) else Some r1 } }"

text \<open>\<^verbatim>\<open>copyBucket\<close>: \<open>anchorNext\<close> is the \<^verbatim>\<open>next\<close> field of the anchor node on the stack;
  \<open>tail\<close> is \<open>None\<close> while it points to the anchor.\<close>

partial_function (option) copyBucketLoopH ::
    "nat option \<Rightarrow> nat option \<Rightarrow> nat option \<Rightarrow> Heap \<Rightarrow> (nat option \<times> Heap) option" where
  "copyBucketLoopH anchorNext tail current s =
     (case current of
        None \<Rightarrow> Some (anchorNext, s)
      | Some ca \<Rightarrow> do {
          cn \<leftarrow> nodes s ca;
          case tail of
            None \<Rightarrow>
              copyBucketLoopH (Some (fresh s)) (Some (fresh s)) (nextH cn)
                (allocNode s (wordH cn) (wordCountH cn) None)
          | Some ta \<Rightarrow> do {
              s2 \<leftarrow> setNext (allocNode s (wordH cn) (wordCountH cn) None) ta (Some (fresh s));
              copyBucketLoopH anchorNext (Some (fresh s)) (nextH cn) s2 } })"

declare copyBucketLoopH.simps [code]

definition copyBucketH :: "Heap \<Rightarrow> nat option \<Rightarrow> (nat option \<times> Heap) option" where
  "copyBucketH s headToCopy = copyBucketLoopH None None headToCopy s"

function copyLoopH :: "nat \<Rightarrow> int \<Rightarrow> nat \<Rightarrow> int \<Rightarrow> Heap \<Rightarrow> Heap option" where
  "copyLoopH otherTable cap newTable bucket s =
     (if bucket < cap then do {
        headToCopy \<leftarrow> readSlot s otherTable bucket;
        r \<leftarrow> copyBucketH s headToCopy;
        s2 \<leftarrow> writeSlot (snd r) newTable bucket (fst r);
        copyLoopH otherTable cap newTable (bucket + 1) s2 }
      else Some s)"
  by pat_completeness auto
termination
  by (relation "measure (\<lambda>(otherTable, cap, newTable, bucket, s). nat (cap - bucket))") auto

declare copyLoopH.simps [simp del]

definition copyH :: "Heap \<Rightarrow> WordCounterH \<Rightarrow> (Heap \<times> WordCounterH) option" where
  "copyH s other = do {
     t \<leftarrow> wordTableH other;
     s2 \<leftarrow> copyLoopH t (capacityH other) (fresh s) 0 (allocArray s (nat (capacityH other)));
     Some (s2, \<lparr>capacityH = capacityH other, totalWordCountH = totalWordCountH other,
                uniqueWordCountH = uniqueWordCountH other, wordTableH = Some (fresh s)\<rparr>) }"

text \<open>\<^verbatim>\<open>operator=\<close>: the two objects come with their addresses, for the test
  \<^verbatim>\<open>this != &rhs\<close>.\<close>

definition assignH ::
    "Heap \<Rightarrow> nat \<times> WordCounterH \<Rightarrow> nat \<times> WordCounterH \<Rightarrow> (Heap \<times> WordCounterH) option" where
  "assignH s this rhs =
     (if fst this \<noteq> fst rhs then do {
        r \<leftarrow> clearH s (snd this);
        copyH (fst r) (snd rhs) }
      else Some (s, snd this))"

text \<open>A sequence of mutator calls on one object.\<close>

fun stepH :: "hash \<Rightarrow> Heap \<times> WordCounterH \<Rightarrow> call \<Rightarrow> (Heap \<times> WordCounterH) option" where
  "stepH h (s, obj) (Add w) = map_option snd (addWordH h s obj w)"
| "stepH h (s, obj) (Remove w) = removeWordH h s obj w"

fun runH :: "hash \<Rightarrow> Heap \<times> WordCounterH \<Rightarrow> call list \<Rightarrow> (Heap \<times> WordCounterH) option" where
  "runH h so [] = Some so"
| "runH h so (c # cs) = do { so' \<leftarrow> stepH h so c; runH h so' cs }"

text \<open>Mutator calls on two objects in one store, in any interleaving: a call tagged
  \<open>True\<close> is made on the first object, one tagged \<open>False\<close> on the second.\<close>

fun runBoth ::
    "hash \<Rightarrow> Heap \<times> WordCounterH \<times> WordCounterH \<Rightarrow> (bool \<times> call) list \<Rightarrow>
       (Heap \<times> WordCounterH \<times> WordCounterH) option" where
  "runBoth h (s, a, b) [] = Some (s, a, b)"
| "runBoth h (s, a, b) ((first, c) # cs) =
     (if first
      then do { r \<leftarrow> stepH h (s, a) c; runBoth h (fst r, snd r, b) cs }
      else do { r \<leftarrow> stepH h (s, b) c; runBoth h (fst r, a, snd r) cs })"

definition callsOf :: "bool \<Rightarrow> (bool \<times> call) list \<Rightarrow> call list" where
  "callsOf first ics = map snd (filter (\<lambda>ic. fst ic = first) ics)"

subsection \<open>What a store represents\<close>

text \<open>\<open>pathTo s p as q\<close>: following \<^verbatim>\<open>next\<close> from \<open>p\<close> visits exactly the addresses \<open>as\<close>
  and arrives at \<open>q\<close>.\<close>

fun pathTo :: "Heap \<Rightarrow> nat option \<Rightarrow> nat list \<Rightarrow> nat option \<Rightarrow> bool" where
  "pathTo s p [] q \<longleftrightarrow> p = q"
| "pathTo s p (a # as) q \<longleftrightarrow>
     p = Some a \<and> (case nodes s a of None \<Rightarrow> False | Some n \<Rightarrow> pathTo s (nextH n) as q)"

definition absNode :: "Heap \<Rightarrow> nat \<Rightarrow> Node" where
  "absNode s a =
     (case nodes s a of
        None \<Rightarrow> \<lparr>word = [], wordCount = 0\<rparr>
      | Some n \<Rightarrow> \<lparr>word = wordH n, wordCount = wordCountH n\<rparr>)"

definition absTable :: "Heap \<Rightarrow> nat list list \<Rightarrow> table" where
  "absTable s ass = map (map (absNode s)) ass"

text \<open>The table of lists that an object stands for, given the addresses of the nodes of each
  of its buckets.\<close>

definition absWordCounter :: "Heap \<Rightarrow> WordCounterH \<Rightarrow> nat list list \<Rightarrow> WordCounter" where
  "absWordCounter s obj ass =
     \<lparr>capacity = capacityH obj, totalWordCount = totalWordCountH obj,
      uniqueWordCount = uniqueWordCountH obj, wordTable = absTable s ass\<rparr>"

definition tableRep :: "Heap \<Rightarrow> nat \<Rightarrow> nat list list \<Rightarrow> bool" where
  "tableRep s t ass \<longleftrightarrow>
     (case arrays s t of
        None \<Rightarrow> False
      | Some heads \<Rightarrow>
          length heads = length ass \<and>
          (\<forall>b \<in> {0..<length ass}. pathTo s (heads ! b) (ass ! b) None))"

text \<open>An object owns the bucket array at \<open>t\<close> and the nodes at \<open>ass\<close>: the array is live and
  its chains run through exactly these addresses, each once, all of them allocated.\<close>

definition owns :: "Heap \<Rightarrow> WordCounterH \<Rightarrow> nat \<Rightarrow> nat list list \<Rightarrow> bool" where
  "owns s obj t ass \<longleftrightarrow>
     wordTableH obj = Some t \<and> t < fresh s \<and> tableRep s t ass \<and>
     distinct (concat ass) \<and> (\<forall>a \<in> set (concat ass). a < fresh s)"

text \<open>Nothing allocated outside the nodes \<open>A\<close> and the array \<open>t\<close> has changed from \<open>s\<close> to
  \<open>s'\<close>.\<close>

definition unchangedOutside :: "Heap \<Rightarrow> Heap \<Rightarrow> nat set \<Rightarrow> nat \<Rightarrow> bool" where
  "unchangedOutside s s' A t \<longleftrightarrow>
     fresh s \<le> fresh s' \<and>
     (\<forall>a. a < fresh s \<and> a \<notin> A \<longrightarrow> nodes s' a = nodes s a) \<and>
     (\<forall>a. a < fresh s \<and> a \<noteq> t \<longrightarrow> arrays s' a = arrays s a)"

text \<open>The chains of the array at \<open>t\<close> run through the addresses \<open>ass\<close>, each once, all
  allocated.\<close>

definition chainsOk :: "Heap \<Rightarrow> nat \<Rightarrow> nat list list \<Rightarrow> bool" where
  "chainsOk s t ass \<longleftrightarrow>
     tableRep s t ass \<and> distinct (concat ass) \<and> (\<forall>a \<in> set (concat ass). a < fresh s)"

text \<open>From \<open>s\<close> to \<open>s'\<close> only new nodes were allocated and only the array at \<open>nt\<close> was
  written.\<close>

definition grownFrom :: "Heap \<Rightarrow> Heap \<Rightarrow> nat \<Rightarrow> bool" where
  "grownFrom s s' nt \<longleftrightarrow>
     fresh s \<le> fresh s' \<and> (\<forall>a. a < fresh s \<longrightarrow> nodes s' a = nodes s a) \<and>
     (\<forall>t'. t' \<noteq> nt \<longrightarrow> arrays s' t' = arrays s t')"

text \<open>The array \<open>t'\<close> and the nodes \<open>ass'\<close> that an object owns after a call are among the
  array \<open>t\<close> and the nodes \<open>ass\<close> it owned in the store \<open>s\<close> before the call, or were
  allocated during the call.\<close>

text \<open>An object in the store shows what a table of the list model shows: the same capacity,
  the same two counters, and the same lookup result for every key.\<close>

definition sameAs :: "hash \<Rightarrow> Heap \<Rightarrow> WordCounterH \<Rightarrow> WordCounter \<Rightarrow> bool" where
  "sameAs h s obj wc \<longleftrightarrow>
     capacityH obj = capacity wc \<and> uniqueWordCountH obj = uniqueWordCount wc \<and>
     totalWordCountH obj = totalWordCount wc \<and>
     (\<forall>key. getWordCountH h s obj key = getWordCount h wc key)"

text \<open>In the store \<open>s1\<close> the object \<open>cpy\<close> is a deep, independent copy of \<open>orig\<close>, which
  owns the array \<open>t\<close> and the nodes \<open>ass\<close> and stands for the table \<open>wc0\<close>: both show
  \<open>wc0\<close>; the copy owns an array and nodes of its own, none shared with the original, with
  the same words and counts in the same order in every bucket; any mutator calls on one of
  the two return and leave the other showing \<open>wc0\<close>; and after any interleaving of mutator
  calls on the two, each shows what \<open>wc0\<close> becomes under its own calls alone.\<close>

definition independentCopy ::
    "hash \<Rightarrow> WordCounter \<Rightarrow> WordCounterH \<Rightarrow> nat \<Rightarrow> nat list list \<Rightarrow> Heap \<Rightarrow> WordCounterH \<Rightarrow> bool"
    where
  "independentCopy h wc0 orig t ass s1 cpy \<longleftrightarrow>
     sameAs h s1 orig wc0 \<and> sameAs h s1 cpy wc0 \<and>
     (\<exists>t' ass'. owns s1 orig t ass \<and> owns s1 cpy t' ass' \<and> t' \<noteq> t \<and>
        set (concat ass') \<inter> set (concat ass) = {} \<and>
        absTable s1 ass' = absTable s1 ass \<and> absTable s1 ass = wordTable wc0) \<and>
     (\<forall>cs. \<exists>s2 cpy2. runH h (s1, cpy) cs = Some (s2, cpy2) \<and> sameAs h s2 orig wc0) \<and>
     (\<forall>cs. \<exists>s2 orig2. runH h (s1, orig) cs = Some (s2, orig2) \<and> sameAs h s2 cpy wc0) \<and>
     (\<forall>ics. \<exists>s2 orig2 cpy2 wo wc.
        runBoth h (s1, orig, cpy) ics = Some (s2, orig2, cpy2) \<and>
        run h wc0 (callsOf True ics) = Some wo \<and> run h wc0 (callsOf False ics) = Some wc \<and>
        sameAs h s2 orig2 wo \<and> sameAs h s2 cpy2 wc)"

definition footprintFrom :: "Heap \<Rightarrow> nat \<Rightarrow> nat list list \<Rightarrow> nat \<Rightarrow> nat list list \<Rightarrow> bool" where
  "footprintFrom s t ass t' ass' \<longleftrightarrow>
     (t' = t \<or> fresh s \<le> t') \<and> set (concat ass') \<subseteq> set (concat ass) \<union> {a. fresh s \<le> a}"

subsection \<open>32-bit arithmetic\<close>

lemma int32_eq: "int32 x = signed_take_bit 31 x"
  by (simp add: int32_def sint_sbintrunc')

lemma int32_range: "- 2147483648 \<le> int32 x" "int32 x < 2147483648"
  using signed_take_bit_int_greater_eq_minus_exp [of 31 x]
    signed_take_bit_int_less_exp [of 31 x]
  by (simp_all add: int32_eq)

lemma int32_id: "- 2147483648 \<le> x \<Longrightarrow> x < 2147483648 \<Longrightarrow> int32 x = x"
  unfolding int32_eq by (rule signed_take_bit_int_eq_self) simp_all

lemma int32_add_left: "int32 (int32 a + b) = int32 (a + b)"
  by (simp add: int32_def)

lemma int32_diff_left: "int32 (int32 a - b) = int32 (a - b)"
  by (simp add: int32_def)

lemma int32_diff_right: "int32 (a - int32 b) = int32 (a - b)"
  by (simp add: int32_def)

lemma int32_add_right: "int32 (a + int32 b) = int32 (a + b)"
  by (simp add: int32_def)

lemma int32_idem: "int32 (int32 a) = int32 a"
  by (simp add: int32_def)

lemma int32_max: "int32 2147483648 = - 2147483648"
  by code_simp

lemma int32_one: "int32 1 = 1" "int32 0 = 0"
  by (simp_all add: int32_id)


lemma primes_all: "list_all (\<lambda>p. 11 \<le> p \<and> p \<le> 993815743) primes"
  unfolding primes_def by simp

lemma primes_bounds: "p \<in> set primes \<Longrightarrow> 11 \<le> p \<and> p \<le> 993815743"
  using primes_all by (simp add: list_all_iff)

lemma primes_sorted: "sorted_wrt (<) primes"
  unfolding primes_def by (simp add: sorted_wrt2 sorted_wrt1 del: sorted_wrt.simps)

lemma primes_sorted_le: "sorted primes"
  using primes_sorted by (rule sorted_wrt_mono_rel [rotated]) simp

lemma firstPrimeAtLeast_mem: "firstPrimeAtLeast c ps \<in> insert MAX_CAPACITY (set ps)"
  by (induction ps) auto

lemma MAX_CAPACITY_mem: "MAX_CAPACITY \<in> set primes"
  by (simp add: primes_def MAX_CAPACITY_def)

lemma MIN_CAPACITY_mem: "MIN_CAPACITY \<in> set primes"
  by (simp add: primes_def MIN_CAPACITY_def)

lemma getValidCapacity_mem: "getValidCapacity c \<in> set primes"
  using firstPrimeAtLeast_mem [of c primes] MAX_CAPACITY_mem
  by (auto simp: getValidCapacity_def)

lemma firstPrimeAtLeast_ge:
  "\<exists>p \<in> set ps. c \<le> p \<Longrightarrow> c \<le> firstPrimeAtLeast c ps"
  by (induction ps) auto

lemma firstPrimeAtLeast_least:
  "sorted ps \<Longrightarrow> p \<in> set ps \<Longrightarrow> c \<le> p \<Longrightarrow> firstPrimeAtLeast c ps \<le> p"
  by (induction ps) auto

lemma firstPrimeAtLeast_none:
  "\<forall>p \<in> set ps. p < c \<Longrightarrow> firstPrimeAtLeast c ps = MAX_CAPACITY"
  by (induction ps) auto

lemma getValidCapacity_ge: "c \<le> MAX_CAPACITY \<Longrightarrow> c \<le> getValidCapacity c"
  unfolding getValidCapacity_def using MAX_CAPACITY_mem by (intro firstPrimeAtLeast_ge) blast

lemma getValidCapacity_least: "p \<in> set primes \<Longrightarrow> c \<le> p \<Longrightarrow> getValidCapacity c \<le> p"
  unfolding getValidCapacity_def using primes_sorted_le by (rule firstPrimeAtLeast_least)

lemma getValidCapacity_max: "MAX_CAPACITY < c \<Longrightarrow> getValidCapacity c = MAX_CAPACITY"
  unfolding getValidCapacity_def using primes_bounds
  by (intro firstPrimeAtLeast_none) (fastforce simp: MAX_CAPACITY_def)

lemma getValidCapacity_fix: "p \<in> set primes \<Longrightarrow> getValidCapacity p = p"
  using getValidCapacity_least [of p p] getValidCapacity_ge [of p] primes_bounds [of p]
  by (simp add: MAX_CAPACITY_def)

lemma cast_size_t_to_int:
  assumes "0 \<le> (x::int)" "x < 2 ^ 31" "uint (a :: 64 word) = x"
  shows "sint (ucast a :: 32 word) = x"
proof -
  have "uint (ucast a :: 32 word) = take_bit 32 x"
    using assms(3) by (simp add: unsigned_ucast_eq)
  also have "\<dots> = x" using assms by (simp add: take_bit_int_eq_self)
  finally have "uint (ucast a :: 32 word) = x" .
  then show ?thesis using assms
    by (simp add: sint_uint signed_take_bit_int_eq_self)
qed

lemma getBucket_pos:
  assumes "0 < cap" "cap < 2 ^ 31"
  shows "getBucket h w cap = Some (uint (h w) mod cap)"
proof -
  have u: "uint (word_of_int cap :: 64 word) = cap"
    using assms by (simp add: uint_word_of_int take_bit_int_eq_self)
  then have nz: "(word_of_int cap :: 64 word) \<noteq> 0"
    using assms by (metis less_irrefl uint_0_eq)
  have m: "uint (h w mod word_of_int cap) = uint (h w) mod cap"
    by (simp add: uint_mod u)
  have "0 \<le> uint (h w) mod cap" "uint (h w) mod cap < cap"
    using assms by simp_all
  then have "sint (ucast (h w mod word_of_int cap) :: 32 word) = uint (h w) mod cap"
    using assms(2) m by (intro cast_size_t_to_int) simp_all
  then show ?thesis using nz by (simp add: getBucket_def Let_def)
qed

lemma getBucket_primes:
  assumes "cap \<in> set primes"
  shows "getBucket h w cap = Some (uint (h w) mod cap)"
  using primes_bounds [OF assms] by (intro getBucket_pos) simp_all

lemma bucket_range:
  assumes "cap \<in> set primes"
  shows "0 \<le> uint (h w) mod cap" "uint (h w) mod cap < cap"
        "nat (uint (h w) mod cap) < nat cap"
  using primes_bounds [OF assms] by simp_all

lemma tableOk_iff:
  "tableOk h cap tab \<longleftrightarrow>
     cap \<in> set primes \<and> length tab = nat cap \<and>
     (\<forall>b < length tab. \<forall>n \<in> set (tab ! b). uint (h (word n)) mod cap = int b) \<and>
     distinct (map word (concat tab))"
  unfolding tableOk_def
  by (auto simp: getBucket_primes)

lemma concat_nth_split:
  "b < length tab \<Longrightarrow> concat tab = concat (take b tab) @ tab ! b @ concat (drop (Suc b) tab)"
  by (metis append_Cons append_Nil concat.simps(2) concat_append id_take_nth_drop)

lemma concat_update:
  "b < length tab \<Longrightarrow> concat (tab[b := c]) = concat (take b tab) @ c @ concat (drop (Suc b) tab)"
  by (simp add: upd_conv_take_nth_drop)

lemma findNode_None: "findNode w c = None \<longleftrightarrow> w \<notin> word ` set c"
  by (induction c) auto

lemma findNode_Some: "findNode w c = Some i \<Longrightarrow> i < length c \<and> word (c ! i) = w"
  by (induction c arbitrary: i) (auto split: if_splits)

lemma bucketAt_Some: "0 \<le> b \<Longrightarrow> nat b < length tab \<Longrightarrow> bucketAt tab b = Some (tab ! nat b)"
  by (simp add: bucketAt_def)

lemma bucketSet_Some: "0 \<le> b \<Longrightarrow> nat b < length tab \<Longrightarrow> bucketSet tab b c = Some (tab[nat b := c])"
  by (simp add: bucketSet_def)

lemma getWordNode_ok:
  assumes "tableOk h (capacity wc) (wordTable wc)"
  shows "getWordNode h wc w =
     Some (map_option (\<lambda>i. (uint (h w) mod capacity wc, i))
        (findNode w (wordTable wc ! nat (uint (h w) mod capacity wc))))"
proof -
  from assms have c: "capacity wc \<in> set primes" and l: "length (wordTable wc) = nat (capacity wc)"
    by (simp_all add: tableOk_iff)
  show ?thesis
    using bucket_range [OF c, of h w] l
    by (simp add: getWordNode_def getBucket_primes [OF c] bucketAt_Some)
qed

lemma bucket_subset: "b < length tab \<Longrightarrow> set (tab ! b) \<subseteq> set (concat tab)"
  by (auto intro: nth_mem)

lemma in_bucket:
  assumes "tableOk h cap tab" "n \<in> set (concat tab)"
  shows "n \<in> set (tab ! nat (uint (h (word n)) mod cap))"
proof -
  from assms(2) obtain c where "c \<in> set tab" "n \<in> set c" by auto
  then obtain b where b: "b < length tab" "n \<in> set (tab ! b)"
    by (auto simp: in_set_conv_nth)
  with assms(1) have "uint (h (word n)) mod cap = int b"
    by (simp add: tableOk_iff)
  with b show ?thesis by simp
qed

lemma countMap_eq_None: "countMap wc w = None \<longleftrightarrow> w \<notin> word ` set (concat (wordTable wc))"
  by (simp add: countMap_def map_of_eq_None_iff image_image)

lemma countMap_of_node:
  assumes "distinct (map word (concat (wordTable wc)))" "n \<in> set (concat (wordTable wc))"
  shows "countMap wc (word n) = Some (wordCount n)"
proof -
  have "distinct (map fst (map (\<lambda>n. (word n, wordCount n)) (concat (wordTable wc))))"
    using assms(1) by (simp add: comp_def)
  moreover have "(word n, wordCount n) \<in> set (map (\<lambda>n. (word n, wordCount n)) (concat (wordTable wc)))"
    using assms(2) by (simp add: image_iff) blast
  ultimately show ?thesis unfolding countMap_def by (rule map_of_is_SomeI)
qed

lemma countMap_findNode_None:
  assumes "tableOk h (capacity wc) (wordTable wc)"
  shows "findNode w (wordTable wc ! nat (uint (h w) mod capacity wc)) = None \<longleftrightarrow> countMap wc w = None"
proof -
  let ?b = "nat (uint (h w) mod capacity wc)"
  from assms have c: "capacity wc \<in> set primes" and l: "length (wordTable wc) = nat (capacity wc)"
    by (simp_all add: tableOk_iff)
  have bl: "?b < length (wordTable wc)" using bucket_range(3) [OF c] l by simp
  show ?thesis
  proof
    assume "findNode w (wordTable wc ! ?b) = None"
    then have nb: "w \<notin> word ` set (wordTable wc ! ?b)" by (simp add: findNode_None)
    have "w \<notin> word ` set (concat (wordTable wc))"
    proof
      assume "w \<in> word ` set (concat (wordTable wc))"
      then obtain n where n: "n \<in> set (concat (wordTable wc))" "word n = w" by auto
      from in_bucket [OF assms n(1)] n(2) nb show False by auto
    qed
    then show "countMap wc w = None" by (simp add: countMap_eq_None)
  next
    assume "countMap wc w = None"
    then have "w \<notin> word ` set (concat (wordTable wc))" by (simp add: countMap_eq_None)
    with bucket_subset [OF bl] have "w \<notin> word ` set (wordTable wc ! ?b)" by blast
    then show "findNode w (wordTable wc ! ?b) = None" by (simp add: findNode_None)
  qed
qed

lemma countMap_findNode_Some:
  assumes "tableOk h (capacity wc) (wordTable wc)"
    and "findNode w (wordTable wc ! nat (uint (h w) mod capacity wc)) = Some i"
  shows "countMap wc w = Some (wordCount (wordTable wc ! nat (uint (h w) mod capacity wc) ! i))"
proof -
  let ?b = "nat (uint (h w) mod capacity wc)"
  from assms have c: "capacity wc \<in> set primes" and l: "length (wordTable wc) = nat (capacity wc)"
    and d: "distinct (map word (concat (wordTable wc)))"
    by (simp_all add: tableOk_iff)
  have bl: "?b < length (wordTable wc)" using bucket_range(3) [OF c] l by simp
  from findNode_Some [OF assms(2)] have i: "i < length (wordTable wc ! ?b)"
    "word (wordTable wc ! ?b ! i) = w" by simp_all
  then have "wordTable wc ! ?b ! i \<in> set (concat (wordTable wc))"
    using bucket_subset [OF bl] nth_mem by blast
  from countMap_of_node [OF d this] i(2) show ?thesis by simp
qed

lemma getWordCount_ok:
  assumes "tableOk h (capacity wc) (wordTable wc)"
  shows "getWordCount h wc w = Some (case countMap wc w of None \<Rightarrow> 0 | Some c \<Rightarrow> c)"
proof -
  let ?b = "nat (uint (h w) mod capacity wc)"
  from assms have c: "capacity wc \<in> set primes" and l: "length (wordTable wc) = nat (capacity wc)"
    by (simp_all add: tableOk_iff)
  have bl: "?b < length (wordTable wc)" using bucket_range(3) [OF c] l by simp
  show ?thesis
  proof (cases "findNode w (wordTable wc ! ?b)")
    case None
    with countMap_findNode_None [OF assms, of w] have "countMap wc w = None" by simp
    with None show ?thesis
      by (simp add: getWordCount_def getWordNode_ok [OF assms])
  next
    case (Some i)
    from countMap_findNode_Some [OF assms Some] findNode_Some [OF Some] Some bl
      bucket_range(1) [OF c, of h w]
    show ?thesis
      by (simp add: getWordCount_def getWordNode_ok [OF assms] nodeAt_def bucketAt_Some)
  qed
qed

lemma Node_rebuild: "\<lparr>word = word n, wordCount = wordCount n\<rparr> = (n :: Node)"
  by simp

lemma mset_concat_update:
  assumes "b < length tab"
  shows "mset (concat (tab[b := n # tab ! b])) = add_mset n (mset (concat tab))"
proof -
  have "mset (concat tab) =
        mset (concat (take b tab)) + mset (tab ! b) + mset (concat (drop (Suc b) tab))"
    by (subst concat_nth_split [OF assms]) simp
  then show ?thesis by (simp add: concat_update [OF assms])
qed

lemma bucketsOk_update:
  assumes "bucketsOk h cap t" "b < length t" "\<forall>n \<in> set c. uint (h (word n)) mod cap = int b"
  shows "bucketsOk h cap (t[b := c])"
  unfolding bucketsOk_def
proof (intro allI impI ballI)
  fix b' n assume b': "b' < length (t[b := c])" and n: "n \<in> set (t[b := c] ! b')"
  show "uint (h (word n)) mod cap = int b'"
  proof (cases "b' = b")
    case True
    with n assms(2,3) show ?thesis by simp
  next
    case False
    with n b' assms(1) show ?thesis by (simp add: bucketsOk_def)
  qed
qed

lemma rehashChain_ok:
  assumes "newCap \<in> set primes" "length t = nat newCap"
  shows "\<exists>t'. rehashChain h newCap ns t = Some t' \<and> length t' = length t \<and>
           mset (concat t') = mset ns + mset (concat t) \<and>
           (bucketsOk h newCap t \<longrightarrow> bucketsOk h newCap t')"
  using assms(2)
proof (induction ns arbitrary: t)
  case Nil
  then show ?case by simp
next
  case (Cons n ns)
  let ?b = "uint (h (word n)) mod newCap"
  let ?t = "t[nat ?b := n # t ! nat ?b]"
  have r: "0 \<le> ?b" "nat ?b < length t"
    using bucket_range [OF assms(1), of h "word n"] Cons.prems by simp_all
  have step: "rehashChain h newCap (n # ns) t = rehashChain h newCap ns ?t"
    using r by (simp add: getBucket_primes [OF assms(1)] bucketAt_Some bucketSet_Some Node_rebuild)
  have "length ?t = nat newCap" using Cons.prems by simp
  from Cons.IH [OF this] obtain t' where all: "rehashChain h newCap ns ?t = Some t' \<and>
    length t' = length ?t \<and> mset (concat t') = mset ns + mset (concat ?t) \<and>
    (bucketsOk h newCap ?t \<longrightarrow> bucketsOk h newCap t')" ..
  then have t': "rehashChain h newCap ns ?t = Some t'"
    "length t' = length ?t" "mset (concat t') = mset ns + mset (concat ?t)"
    "bucketsOk h newCap ?t \<longrightarrow> bucketsOk h newCap t'"
    by (rule conjunct1, rule conjunct2 [THEN conjunct1], rule conjunct2 [THEN conjunct2, THEN conjunct1],
        rule conjunct2 [THEN conjunct2, THEN conjunct2])
  have inv: "bucketsOk h newCap ?t" if ok: "bucketsOk h newCap t"
  proof (rule bucketsOk_update [OF ok r(2)])
    show "\<forall>m \<in> set (n # t ! nat ?b). uint (h (word m)) mod newCap = int (nat ?b)"
    proof
      fix m assume "m \<in> set (n # t ! nat ?b)"
      then consider "m = n" | "m \<in> set (t ! nat ?b)" by auto
      then show "uint (h (word m)) mod newCap = int (nat ?b)"
      proof cases
        case 1
        with r(1) show ?thesis by simp
      next
        case 2
        with ok r(2) show ?thesis unfolding bucketsOk_def by blast
      qed
    qed
  qed
  have m: "mset (concat t') = mset (n # ns) + mset (concat t)"
    unfolding t'(3) mset_concat_update [OF r(2)] by simp
  have l: "length t' = length t" unfolding t'(2) by simp
  have s: "rehashChain h newCap (n # ns) t = Some t'" unfolding step by (rule t'(1))
  have "bucketsOk h newCap t \<longrightarrow> bucketsOk h newCap t'"
    using inv t'(4) by blast
  with s l m show ?case by blast
qed

lemma rehashChain_append:
  "rehashChain h c (xs @ ys) t = rehashChain h c xs t \<bind> rehashChain h c ys"
  by (induction xs arbitrary: t) (simp_all split: Option.bind_split)

lemma resizeLoop_eq:
  "length tab = nat cap \<Longrightarrow> 0 \<le> b \<Longrightarrow>
     resizeLoop h tab cap newCap b t = rehashChain h newCap (concat (drop (nat b) tab)) t"
proof (induction h tab cap newCap b t rule: resizeLoop.induct)
  case (1 h oldTable cap newCap bucket newTable)
  show ?case
  proof (cases "bucket < cap")
    case False
    with 1(2,3) show ?thesis by (simp add: resizeLoop.simps)
  next
    case True
    with 1(2,3) have l: "nat bucket < length oldTable" by simp
    have d: "concat (drop (nat bucket) oldTable) =
             oldTable ! nat bucket @ concat (drop (nat (bucket + 1)) oldTable)"
      using l 1(3) by (simp add: Cons_nth_drop_Suc [symmetric] nat_add_distrib)
    show ?thesis
    proof (cases "rehashChain h newCap (oldTable ! nat bucket) newTable")
      case None
      with True l 1(3) show ?thesis
        by (subst resizeLoop.simps) (simp add: d rehashChain_append bucketAt_Some)
    next
      case (Some t')
      have "resizeLoop h oldTable cap newCap (bucket + 1) t' =
            rehashChain h newCap (concat (drop (nat (bucket + 1)) oldTable)) t'"
        using 1(1) [OF True _ Some 1(2)] l 1(3) by (simp add: bucketAt_Some)
      with True l 1(3) Some show ?thesis
        by (subst resizeLoop.simps) (simp add: d rehashChain_append bucketAt_Some)
    qed
  qed
qed

lemma clearLoop_ok:
  "nat cap \<le> length tab \<Longrightarrow> 0 \<le> b \<Longrightarrow> \<exists>t'. clearLoop tab cap b = Some t'"
proof (induction tab cap b rule: clearLoop.induct)
  case (1 tab cap bucket)
  show ?case
  proof (cases "bucket < cap")
    case False
    then show ?thesis by (simp add: clearLoop.simps)
  next
    case True
    with 1(2,3) have l: "nat bucket < length tab" by simp
    have "\<exists>t'. clearLoop (tab[nat bucket := []]) cap (bucket + 1) = Some t'"
      using 1(1) [OF True, of "tab ! nat bucket" "tab[nat bucket := []]"] l 1(2,3)
      by (simp add: bucketAt_Some bucketSet_Some)
    with True l 1(3) show ?thesis
      by (subst clearLoop.simps) (simp add: bucketAt_Some bucketSet_Some)
  qed
qed

lemma clear_ok:
  "length (wordTable wc) = nat (capacity wc) \<Longrightarrow> clear wc = Some (wc\<lparr>wordTable := []\<rparr>)"
  using clearLoop_ok [of "capacity wc" "wordTable wc" 0]
  by (auto simp: clear_def)

lemma resize_ok:
  assumes "tableOk h (capacity wc) (wordTable wc)"
  shows "\<exists>tab. resize h wc n =
            Some (wc\<lparr>capacity := getValidCapacity n, wordTable := tab\<rparr>) \<and>
          tableOk h (getValidCapacity n) tab \<and>
          mset (concat tab) = mset (concat (wordTable wc))"
proof -
  let ?c = "getValidCapacity n"
  let ?t0 = "replicate (nat ?c) [] :: table"
  from assms have l: "length (wordTable wc) = nat (capacity wc)"
    and d: "distinct (map word (concat (wordTable wc)))"
    by (simp_all add: tableOk_iff)
  have c: "?c \<in> set primes" by (rule getValidCapacity_mem)
  have l0: "length ?t0 = nat ?c" by simp
  from rehashChain_ok [OF c l0, of h "concat (wordTable wc)"]
  obtain t' where t': "rehashChain h ?c (concat (wordTable wc)) ?t0 = Some t'"
    "length t' = length ?t0" "mset (concat t') = mset (concat (wordTable wc)) + mset (concat ?t0)"
    "bucketsOk h ?c t'"
    by (auto simp: bucketsOk_def)
  have m: "mset (concat t') = mset (concat (wordTable wc))"
    using t'(3) by simp
  then have "mset (map word (concat t')) = mset (map word (concat (wordTable wc)))"
    by (metis mset_map)
  then have "distinct (map word (concat t'))"
    using d by (metis mset_eq_imp_distinct_iff)
  with t' c have ok: "tableOk h ?c t'" by (simp add: tableOk_iff bucketsOk_def)
  have "resizeLoop h (wordTable wc) (capacity wc) ?c 0 ?t0 = Some t'"
    using resizeLoop_eq [OF l, of 0 h ?c ?t0] t'(1) by simp
  then have "resize h wc n = Some (wc\<lparr>capacity := ?c, wordTable := t'\<rparr>)"
    by (simp add: resize_def clear_ok [OF l])
  with ok m show ?thesis by blast
qed

lemma tableOk_iff2:
  "tableOk h cap tab \<longleftrightarrow>
     cap \<in> set primes \<and> length tab = nat cap \<and> bucketsOk h cap tab \<and>
     distinct (map word (concat tab))"
  by (simp add: tableOk_iff bucketsOk_def)

lemma bucketsOkD:
  "bucketsOk h cap t \<Longrightarrow> b < length t \<Longrightarrow> n \<in> set (t ! b) \<Longrightarrow> uint (h (word n)) mod cap = int b"
  unfolding bucketsOk_def by blast

lemma countMap_entryMap: "countMap wc = entryMap (concat (wordTable wc))"
  by (simp add: countMap_def entryMap_def)

lemma entryMap_None: "entryMap es w = None \<longleftrightarrow> w \<notin> word ` set es"
  by (simp add: entryMap_def map_of_eq_None_iff image_image)

lemma entryMap_insert:
  assumes "distinct (map word (X @ n # Y))"
  shows "entryMap (X @ n # Y) = (entryMap (X @ Y))(word n \<mapsto> wordCount n)"
proof
  fix k
  from assms have nX: "word n \<notin> word ` set X" by auto
  show "entryMap (X @ n # Y) k = ((entryMap (X @ Y))(word n \<mapsto> wordCount n)) k"
  proof (cases "k = word n")
    case True
    have "map_of (map (\<lambda>n. (word n, wordCount n)) X) (word n) = None"
      using nX by (simp add: map_of_eq_None_iff image_image)
    with True show ?thesis by (simp add: entryMap_def map_add_def)
  next
    case False
    then have "word n \<noteq> k" by blast
    then show ?thesis by (simp add: entryMap_def map_add_def split: option.split)
  qed
qed

lemma entryMap_absent:
  assumes "distinct (map word (X @ n # Y))"
  shows "entryMap (X @ Y) (word n) = None"
  using assms by (auto simp: entryMap_None)

lemma entryMap_mset_cong:
  assumes "distinct (map word xs)" "mset xs = mset ys"
  shows "entryMap xs = entryMap ys"
proof -
  have "mset (map word xs) = mset (map word ys)" using assms(2) by (metis mset_map)
  then have dy: "distinct (map word ys)" using assms(1) by (metis mset_eq_imp_distinct_iff)
  have s: "set xs = set ys" using assms(2) by (rule mset_eq_setD)
  have "map_of (map (\<lambda>n. (word n, wordCount n)) xs) = map_of (map (\<lambda>n. (word n, wordCount n)) ys)"
    using assms(1) dy s by (subst map_of_inject_set) (simp_all add: comp_def)
  then show ?thesis by (simp add: entryMap_def)
qed

lemma table_insert:
  assumes ok: "tableOk h cap tab" and new: "w \<notin> word ` set (concat tab)"
  defines "b \<equiv> nat (uint (h w) mod cap)"
  shows "tableOk h cap (tab[b := \<lparr>word = w, wordCount = k\<rparr> # tab ! b]) \<and>
         (\<exists>X Y. concat tab = X @ Y \<and>
                concat (tab[b := \<lparr>word = w, wordCount = k\<rparr> # tab ! b]) = X @ \<lparr>word = w, wordCount = k\<rparr> # Y)"
proof -
  let ?n = "\<lparr>word = w, wordCount = k\<rparr>"
  from ok have c: "cap \<in> set primes" and l: "length tab = nat cap" and bo: "bucketsOk h cap tab"
    and d: "distinct (map word (concat tab))"
    by (simp_all add: tableOk_iff2)
  have bl: "b < length tab" unfolding b_def using bucket_range(3) [OF c] l by simp
  have ib: "int b = uint (h w) mod cap" unfolding b_def using bucket_range(1) [OF c] by simp
  let ?X = "concat (take b tab)" and ?Y = "tab ! b @ concat (drop (Suc b) tab)"
  have e1: "concat tab = ?X @ ?Y" using concat_nth_split [OF bl] .
  have e2: "concat (tab[b := ?n # tab ! b]) = ?X @ ?n # ?Y"
    using concat_update [OF bl, of "?n # tab ! b"] by simp
  have "distinct (map word (?X @ ?Y))" using d unfolding e1 [symmetric] .
  moreover have "w \<notin> word ` set (?X @ ?Y)" using new unfolding e1 [symmetric] .
  ultimately have d': "distinct (map word (concat (tab[b := ?n # tab ! b])))"
    unfolding e2 by auto
  have "\<forall>m \<in> set (?n # tab ! b). uint (h (word m)) mod cap = int b"
  proof
    fix m assume "m \<in> set (?n # tab ! b)"
    then consider "m = ?n" | "m \<in> set (tab ! b)" by auto
    then show "uint (h (word m)) mod cap = int b"
    proof cases
      case 1 then show ?thesis using ib by simp
    next
      case 2 then show ?thesis using bucketsOkD [OF bo bl] by blast
    qed
  qed
  from bucketsOk_update [OF bo bl this] c l d' e1 e2 show ?thesis
    by (simp only: tableOk_iff2 length_list_update) blast
qed

lemma table_delete:
  assumes ok: "tableOk h cap tab" and bl: "b < length tab" and ch: "tab ! b = pre @ n # post"
  shows "tableOk h cap (tab[b := pre @ post]) \<and>
         (\<exists>X Y. concat tab = X @ n # Y \<and> concat (tab[b := pre @ post]) = X @ Y)"
proof -
  from ok have c: "cap \<in> set primes" and l: "length tab = nat cap" and bo: "bucketsOk h cap tab"
    and d: "distinct (map word (concat tab))"
    by (simp_all add: tableOk_iff2)
  let ?X = "concat (take b tab) @ pre" and ?Y = "post @ concat (drop (Suc b) tab)"
  have e1: "concat tab = ?X @ n # ?Y" using concat_nth_split [OF bl] ch by simp
  have e2: "concat (tab[b := pre @ post]) = ?X @ ?Y"
    using concat_update [OF bl, of "pre @ post"] by simp
  have "distinct (map word (?X @ n # ?Y))" using d unfolding e1 [symmetric] .
  then have d': "distinct (map word (concat (tab[b := pre @ post])))"
    unfolding e2 by auto
  have "\<forall>m \<in> set (pre @ post). uint (h (word m)) mod cap = int b"
  proof
    fix m assume "m \<in> set (pre @ post)"
    then have "m \<in> set (tab ! b)" unfolding ch by auto
    then show "uint (h (word m)) mod cap = int b" using bucketsOkD [OF bo bl] by blast
  qed
  from bucketsOk_update [OF bo bl this] c l d' e1 e2 show ?thesis
    by (simp only: tableOk_iff2 length_list_update) blast
qed

lemma table_modify:
  assumes ok: "tableOk h cap tab" and bl: "b < length tab" and ch: "tab ! b = pre @ n # post"
    and w: "word n' = word n"
  shows "tableOk h cap (tab[b := pre @ n' # post]) \<and>
         (\<exists>X Y. concat tab = X @ n # Y \<and> concat (tab[b := pre @ n' # post]) = X @ n' # Y)"
proof -
  from ok have c: "cap \<in> set primes" and l: "length tab = nat cap" and bo: "bucketsOk h cap tab"
    and d: "distinct (map word (concat tab))"
    by (simp_all add: tableOk_iff2)
  let ?X = "concat (take b tab) @ pre" and ?Y = "post @ concat (drop (Suc b) tab)"
  have e1: "concat tab = ?X @ n # ?Y" using concat_nth_split [OF bl] ch by simp
  have e2: "concat (tab[b := pre @ n' # post]) = ?X @ n' # ?Y"
    using concat_update [OF bl, of "pre @ n' # post"] by simp
  have "distinct (map word (?X @ n # ?Y))" using d unfolding e1 [symmetric] .
  then have d': "distinct (map word (concat (tab[b := pre @ n' # post])))"
    unfolding e2 using w by auto
  have "\<forall>m \<in> set (pre @ n' # post). uint (h (word m)) mod cap = int b"
  proof
    fix m assume "m \<in> set (pre @ n' # post)"
    then consider "m = n'" | "m \<in> set (tab ! b)" unfolding ch by auto
    then show "uint (h (word m)) mod cap = int b"
    proof cases
      case 1
      have "n \<in> set (tab ! b)" unfolding ch by simp
      from bucketsOkD [OF bo bl this] 1 w show ?thesis by simp
    next
      case 2 then show ?thesis using bucketsOkD [OF bo bl] by blast
    qed
  qed
  from bucketsOk_update [OF bo bl this] c l d' e1 e2 show ?thesis
    by (simp only: tableOk_iff2 length_list_update) blast
qed

lemma sum_list_mset_cong:
  fixes f :: "'a \<Rightarrow> int"
  assumes "mset xs = mset ys"
  shows "sum_list (map f xs) = sum_list (map f ys)"
proof -
  from assms have "image_mset f (mset xs) = image_mset f (mset ys)" by simp
  then have "sum_mset (mset (map f xs)) = sum_mset (mset (map f ys))" by simp
  then show ?thesis by (simp only: sum_mset_sum_list)
qed

lemma nodeAt_Some:
  "0 \<le> b \<Longrightarrow> nat b < length tab \<Longrightarrow> i < length (tab ! nat b) \<Longrightarrow>
     nodeAt tab (b, i) = Some (tab ! nat b ! i)"
  unfolding nodeAt_def by (simp add: bucketAt_Some)

lemma nodeSetCount_Some:
  "0 \<le> b \<Longrightarrow> nat b < length tab \<Longrightarrow> i < length (tab ! nat b) \<Longrightarrow>
     nodeSetCount tab (b, i) k =
       Some (tab[nat b := (tab ! nat b)[i := (tab ! nat b ! i)\<lparr>wordCount := k\<rparr>]])"
  unfolding nodeSetCount_def by (simp add: bucketAt_Some bucketSet_Some)

lemma addWord_new_unfold:
  assumes ok: "tableOk h (capacity wc) (wordTable wc)" and new: "countMap wc w = None"
  defines "b \<equiv> nat (uint (h w) mod capacity wc)"
  defines "wc1 \<equiv> wc\<lparr>wordTable := (wordTable wc)[b := \<lparr>word = w, wordCount = 1\<rparr> # wordTable wc ! b],
                     uniqueWordCount := int32 (uniqueWordCount wc + 1)\<rparr>"
  shows "addWord h wc w =
      (if getLoadFactor wc1 > MAX_LOAD_FACTOR \<and> capacity wc < MAX_CAPACITY
       then resize h wc1 (capacity wc * 2) else Some wc1) \<bind>
      (\<lambda>wc2. Some (1, wc2\<lparr>totalWordCount := int32 (totalWordCount wc2 + 1)\<rparr>))"
proof -
  from ok have c: "capacity wc \<in> set primes" and l: "length (wordTable wc) = nat (capacity wc)"
    by (simp_all add: tableOk_iff2)
  have bl: "b < length (wordTable wc)" unfolding b_def using bucket_range(3) [OF c] l by simp
  have b0: "0 \<le> uint (h w) mod capacity wc" using bucket_range(1) [OF c] .
  have fn: "findNode w (wordTable wc ! b) = None"
    unfolding b_def using countMap_findNode_None [OF ok] new by simp
  have gw: "getWordNode h wc w = Some None"
    using getWordNode_ok [OF ok, of w] fn by (simp add: b_def)
  show ?thesis
    using bl b0 unfolding wc1_def
    by (simp add: addWord_def gw getBucket_primes [OF c] bucketAt_Some bucketSet_Some
        nodeAt_Some NEW_WORD_COUNT_def b_def [symmetric] Let_def)
qed

lemma addWord_old_unfold:
  assumes ok: "tableOk h (capacity wc) (wordTable wc)" and old: "countMap wc w = Some k"
  defines "b \<equiv> nat (uint (h w) mod capacity wc)"
  shows "\<exists>pre n post. wordTable wc ! b = pre @ n # post \<and> word n = w \<and> wordCount n = k \<and>
       addWord h wc w = Some (int32 (k + 1),
          wc\<lparr>wordTable := (wordTable wc)[b := pre @ n\<lparr>wordCount := int32 (k + 1)\<rparr> # post],
             totalWordCount := int32 (totalWordCount wc + 1)\<rparr>)"
proof -
  from ok have c: "capacity wc \<in> set primes" and l: "length (wordTable wc) = nat (capacity wc)"
    by (simp_all add: tableOk_iff2)
  have bl: "b < length (wordTable wc)" unfolding b_def using bucket_range(3) [OF c] l by simp
  have b0: "0 \<le> uint (h w) mod capacity wc" using bucket_range(1) [OF c] .
  let ?chain = "wordTable wc ! b"
  obtain i where fn: "findNode w ?chain = Some i"
    using countMap_findNode_None [OF ok, of w] old unfolding b_def by (cases "findNode w ?chain") auto
  from findNode_Some [OF fn] have i: "i < length ?chain" "word (?chain ! i) = w" by simp_all
  have k: "wordCount (?chain ! i) = k"
    using countMap_findNode_Some [OF ok fn [unfolded b_def]] old by (simp add: b_def)
  let ?pre = "take i ?chain" and ?post = "drop (Suc i) ?chain" and ?n = "?chain ! i"
  have e: "?chain = ?pre @ ?n # ?post" using i(1) by (simp add: id_take_nth_drop [symmetric])
  have u: "?chain[i := ?n\<lparr>wordCount := int32 (k + 1)\<rparr>] =
      ?pre @ ?n\<lparr>wordCount := int32 (k + 1)\<rparr> # ?post"
    using i(1) by (simp add: upd_conv_take_nth_drop)
  have gw: "getWordNode h wc w = Some (Some (uint (h w) mod capacity wc, i))"
    using getWordNode_ok [OF ok, of w] fn by (simp add: b_def)
  have "addWord h wc w = Some (int32 (k + 1),
          wc\<lparr>wordTable := (wordTable wc)[b := ?chain[i := ?n\<lparr>wordCount := int32 (k + 1)\<rparr>]],
             totalWordCount := int32 (totalWordCount wc + 1)\<rparr>)"
    using bl b0 i(1) k
    by (simp add: addWord_def gw nodeAt_Some nodeSetCount_Some b_def [symmetric])
  with e i(2) k show ?thesis unfolding u by blast
qed

lemma maybe_resize:
  assumes ok: "tableOk h (capacity wc1) (wordTable wc1)"
  shows "\<exists>tab2. (if C then resize h wc1 n else Some wc1) =
            Some (wc1\<lparr>capacity := (if C then getValidCapacity n else capacity wc1),
                      wordTable := tab2\<rparr>) \<and>
          tableOk h (if C then getValidCapacity n else capacity wc1) tab2 \<and>
          mset (concat tab2) = mset (concat (wordTable wc1))"
proof (cases C)
  case True
  with resize_ok [OF ok, of n] show ?thesis by simp
next
  case False
  have "wc1\<lparr>capacity := capacity wc1, wordTable := wordTable wc1\<rparr> = wc1" by simp
  with False ok show ?thesis by (intro exI [of _ "wordTable wc1"]) simp
qed

lemma addWord_spec:
  assumes ok: "tableOk h (capacity wc) (wordTable wc)"
  shows "\<exists>wc'. addWord h wc w =
        Some (case countMap wc w of None \<Rightarrow> 1 | Some k \<Rightarrow> int32 (k + 1), wc') \<and>
      tableOk h (capacity wc') (wordTable wc') \<and>
      countMap wc' =
        (countMap wc)(w \<mapsto> (case countMap wc w of None \<Rightarrow> 1 | Some k \<Rightarrow> int32 (k + 1))) \<and>
      totalWordCount wc' = int32 (totalWordCount wc + 1) \<and>
      uniqueWordCount wc' =
        (if countMap wc w = None then int32 (uniqueWordCount wc + 1) else uniqueWordCount wc) \<and>
      capacity wc' =
        (if countMap wc w = None \<and>
            MAX_LOAD_FACTOR < of_int (int32 (uniqueWordCount wc + 1)) / of_int (capacity wc) \<and>
            capacity wc < MAX_CAPACITY
         then getValidCapacity (capacity wc * 2) else capacity wc) \<and>
      int (length (concat (wordTable wc'))) =
        int (length (concat (wordTable wc))) + (if countMap wc w = None then 1 else 0) \<and>
      int32 (sum_list (map wordCount (concat (wordTable wc')))) =
        int32 (sum_list (map wordCount (concat (wordTable wc))) + 1)"
proof (cases "countMap wc w")
  case None
  let ?b = "nat (uint (h w) mod capacity wc)"
  let ?n = "\<lparr>word = w, wordCount = 1\<rparr>"
  let ?tab1 = "(wordTable wc)[?b := ?n # wordTable wc ! ?b]"
  let ?wc1 = "wc\<lparr>wordTable := ?tab1, uniqueWordCount := int32 (uniqueWordCount wc + 1)\<rparr>"
  let ?C = "getLoadFactor ?wc1 > MAX_LOAD_FACTOR \<and> capacity wc < MAX_CAPACITY"
  let ?c2 = "if ?C then getValidCapacity (capacity wc * 2) else capacity ?wc1"
  have nw: "w \<notin> word ` set (concat (wordTable wc))"
    using None by (simp add: countMap_eq_None)
  from table_insert [OF ok nw, of 1] obtain X Y where
    ok1: "tableOk h (capacity wc) ?tab1" and
    e: "concat (wordTable wc) = X @ Y" "concat ?tab1 = X @ ?n # Y"
    by blast
  have ok1': "tableOk h (capacity ?wc1) (wordTable ?wc1)" using ok1 by simp
  from maybe_resize [OF ok1', of ?C "capacity wc * 2"] obtain tab2 where
    r: "(if ?C then resize h ?wc1 (capacity wc * 2) else Some ?wc1) =
          Some (?wc1\<lparr>capacity := ?c2, wordTable := tab2\<rparr>)"
    and ok2: "tableOk h ?c2 tab2"
    and m: "mset (concat tab2) = mset (concat ?tab1)"
    by auto
  let ?wc' = "?wc1\<lparr>capacity := ?c2, wordTable := tab2,
      totalWordCount := int32 (totalWordCount wc + 1)\<rparr>"
  have a: "addWord h wc w = Some (1, ?wc')"
    unfolding addWord_new_unfold [OF ok None] r by simp
  have d1: "distinct (map word (concat ?tab1))" using ok1 by (simp add: tableOk_iff2)
  have "entryMap (concat tab2) = entryMap (concat ?tab1)"
    using entryMap_mset_cong [OF d1 m [symmetric]] by simp
  also have "\<dots> = (entryMap (X @ Y))(w \<mapsto> 1)"
    using entryMap_insert [of X ?n Y] d1 unfolding e(2) by simp
  finally have cm: "countMap ?wc' = (countMap wc)(w \<mapsto> 1)"
    by (simp add: countMap_entryMap e(1))
  have len: "length (concat tab2) = Suc (length (concat (wordTable wc)))"
    using mset_eq_length [OF m] unfolding e by simp
  have sm: "sum_list (map wordCount (concat tab2)) = sum_list (map wordCount (concat (wordTable wc))) + 1"
    using sum_list_mset_cong [OF m, of wordCount] unfolding e by simp
  have cap: "?c2 = (if MAX_LOAD_FACTOR < of_int (int32 (uniqueWordCount wc + 1)) / of_int (capacity wc) \<and>
            capacity wc < MAX_CAPACITY
         then getValidCapacity (capacity wc * 2) else capacity wc)"
    by (simp add: getLoadFactor_def)
  show ?thesis
    apply (rule exI [of _ ?wc'])
    using None a ok2 cm len sm cap by simp
next
  case (Some k)
  let ?b = "nat (uint (h w) mod capacity wc)"
  from ok have l: "length (wordTable wc) = nat (capacity wc)" and c: "capacity wc \<in> set primes"
    by (simp_all add: tableOk_iff2)
  have bl: "?b < length (wordTable wc)" using bucket_range(3) [OF c] l by simp
  from addWord_old_unfold [OF ok Some] obtain pre n post where
    ch: "wordTable wc ! ?b = pre @ n # post" and n: "word n = w" "wordCount n = k"
    and a: "addWord h wc w = Some (int32 (k + 1),
          wc\<lparr>wordTable := (wordTable wc)[?b := pre @ n\<lparr>wordCount := int32 (k + 1)\<rparr> # post],
             totalWordCount := int32 (totalWordCount wc + 1)\<rparr>)"
    by blast
  let ?n' = "n\<lparr>wordCount := int32 (k + 1)\<rparr>"
  let ?tab' = "(wordTable wc)[?b := pre @ ?n' # post]"
  let ?wc' = "wc\<lparr>wordTable := ?tab', totalWordCount := int32 (totalWordCount wc + 1)\<rparr>"
  have wn: "word ?n' = word n" by simp
  from table_modify [OF ok bl ch wn] obtain X Y where
    ok': "tableOk h (capacity wc) ?tab'" and
    e: "concat (wordTable wc) = X @ n # Y" "concat ?tab' = X @ ?n' # Y"
    by blast
  have d: "distinct (map word (X @ n # Y))" using ok unfolding tableOk_iff2 e(1) by simp
  then have d': "distinct (map word (X @ ?n' # Y))" by simp
  have "entryMap (concat ?tab') = (entryMap (X @ Y))(w \<mapsto> int32 (k + 1))"
    unfolding e(2) entryMap_insert [OF d'] using n by simp
  moreover have "entryMap (concat (wordTable wc)) = (entryMap (X @ Y))(w \<mapsto> k)"
    unfolding e(1) entryMap_insert [OF d] using n by simp
  ultimately have cm: "countMap ?wc' = (countMap wc)(w \<mapsto> int32 (k + 1))"
    by (simp add: countMap_entryMap)
  have len: "length (concat ?tab') = length (concat (wordTable wc))" unfolding e by simp
  have "int32 (sum_list (map wordCount X) + int32 (k + 1) + sum_list (map wordCount Y)) =
      int32 (sum_list (map wordCount X) + k + sum_list (map wordCount Y) + 1)"
    by (simp add: int32_def ac_simps)
  then have sm: "int32 (sum_list (map wordCount (concat ?tab'))) =
      int32 (sum_list (map wordCount (concat (wordTable wc))) + 1)"
    unfolding e using n by (simp add: add.assoc)
  show ?thesis
    apply (rule exI [of _ ?wc'])
    using Some a ok' cm len sm by simp
qed

lemma unlinkLoop_Some:
  "w \<in> word ` set rest \<Longrightarrow>
     \<exists>pre n post. rest = pre @ n # post \<and> word n = w \<and>
        unlinkLoop w rest = Some (wordCount n, pre @ post)"
proof (induction rest)
  case Nil
  then show ?case by simp
next
  case (Cons x xs)
  show ?case
  proof (cases "word x = w")
    case True
    then have "x # xs = [] @ x # xs \<and> word x = w \<and> unlinkLoop w (x # xs) = Some (wordCount x, [] @ xs)"
      by simp
    then show ?thesis by blast
  next
    case False
    with Cons.prems have "w \<in> word ` set xs" by auto
    from Cons.IH [OF this] obtain pre n post where
      "xs = pre @ n # post" "word n = w" "unlinkLoop w xs = Some (wordCount n, pre @ post)"
      by blast
    with False have "x # xs = (x # pre) @ n # post \<and> word n = w \<and>
        unlinkLoop w (x # xs) = Some (wordCount n, (x # pre) @ post)"
      by simp
    then show ?thesis by blast
  qed
qed

lemma removeWord_absent:
  assumes ok: "tableOk h (capacity wc) (wordTable wc)" and new: "countMap wc w = None"
  shows "removeWord h wc w = Some wc"
proof -
  have "findNode w (wordTable wc ! nat (uint (h w) mod capacity wc)) = None"
    using countMap_findNode_None [OF ok] new by simp
  then have "getWordNode h wc w = Some None"
    using getWordNode_ok [OF ok, of w] by simp
  then show ?thesis by (simp add: removeWord_def)
qed

lemma removeWord_present_unfold:
  assumes ok: "tableOk h (capacity wc) (wordTable wc)" and old: "countMap wc w = Some k"
  defines "b \<equiv> nat (uint (h w) mod capacity wc)"
  shows "\<exists>pre n post. wordTable wc ! b = pre @ n # post \<and> word n = w \<and> wordCount n = k \<and>
     removeWord h wc w =
       (if getLoadFactor (wc\<lparr>uniqueWordCount := int32 (uniqueWordCount wc - 1)\<rparr>) < MIN_LOAD_FACTOR \<and>
           capacity wc > MIN_CAPACITY
        then resize h (wc\<lparr>totalWordCount := int32 (totalWordCount wc - k),
                 uniqueWordCount := int32 (uniqueWordCount wc - 1),
                 wordTable := (wordTable wc)[b := pre @ post]\<rparr>) (capacity wc div 2)
        else Some (wc\<lparr>totalWordCount := int32 (totalWordCount wc - k),
                 uniqueWordCount := int32 (uniqueWordCount wc - 1),
                 wordTable := (wordTable wc)[b := pre @ post]\<rparr>))"
proof -
  from ok have c: "capacity wc \<in> set primes" and l: "length (wordTable wc) = nat (capacity wc)"
    and d: "distinct (map word (concat (wordTable wc)))"
    by (simp_all add: tableOk_iff2)
  have bl: "b < length (wordTable wc)" unfolding b_def using bucket_range(3) [OF c] l by simp
  have b0: "0 \<le> uint (h w) mod capacity wc" using bucket_range(1) [OF c] .
  let ?chain = "wordTable wc ! b"
  obtain i where fn: "findNode w ?chain = Some i"
    using countMap_findNode_None [OF ok, of w] old unfolding b_def by (cases "findNode w ?chain") auto
  have gw: "getWordNode h wc w = Some (Some (uint (h w) mod capacity wc, i))"
    using getWordNode_ok [OF ok, of w] fn by (simp add: b_def)
  from findNode_Some [OF fn] have i: "i < length ?chain" "word (?chain ! i) = w" by simp_all
  then have wch: "w \<in> word ` set ?chain" by (metis imageI nth_mem)
  from i(1) obtain hd rest where ch: "?chain = hd # rest" by (cases ?chain) auto
  have cnt: "wordCount n = k" if "n \<in> set ?chain" "word n = w" for n
  proof -
    from that(1) bucket_subset [OF bl] have "n \<in> set (concat (wordTable wc))" by blast
    from countMap_of_node [OF d this] that(2) old show ?thesis by simp
  qed
  have lf: "getLoadFactor (wc\<lparr>totalWordCount := t, uniqueWordCount := u, wordTable := tb\<rparr>) =
            getLoadFactor (wc\<lparr>uniqueWordCount := u\<rparr>)" for t u tb
    by (simp add: getLoadFactor_def)
  show ?thesis
  proof (cases "word hd = w")
    case True
    have k: "wordCount hd = k" using cnt [of hd] ch True by simp
    have "removeWord h wc w =
       (if getLoadFactor (wc\<lparr>uniqueWordCount := int32 (uniqueWordCount wc - 1)\<rparr>) < MIN_LOAD_FACTOR \<and>
           capacity wc > MIN_CAPACITY
        then resize h (wc\<lparr>totalWordCount := int32 (totalWordCount wc - k),
                 uniqueWordCount := int32 (uniqueWordCount wc - 1),
                 wordTable := (wordTable wc)[b := [] @ rest]\<rparr>) (capacity wc div 2)
        else Some (wc\<lparr>totalWordCount := int32 (totalWordCount wc - k),
                 uniqueWordCount := int32 (uniqueWordCount wc - 1),
                 wordTable := (wordTable wc)[b := [] @ rest]\<rparr>))"
      using bl b0 True k ch
      by (simp add: removeWord_def gw getBucket_primes [OF c] bucketAt_Some bucketSet_Some
          b_def [symmetric] updateWordCountsPostRemoval_def Let_def lf)
    moreover have "?chain = [] @ hd # rest" using ch by simp
    ultimately show ?thesis using True k by blast
  next
    case False
    with wch ch have "w \<in> word ` set rest" by auto
    from unlinkLoop_Some [OF this] obtain pre n post where
      r: "rest = pre @ n # post" "word n = w" "unlinkLoop w rest = Some (wordCount n, pre @ post)"
      by blast
    have k: "wordCount n = k" using cnt [of n] ch r(1,2) by simp
    have "removeWord h wc w =
       (if getLoadFactor (wc\<lparr>uniqueWordCount := int32 (uniqueWordCount wc - 1)\<rparr>) < MIN_LOAD_FACTOR \<and>
           capacity wc > MIN_CAPACITY
        then resize h (wc\<lparr>totalWordCount := int32 (totalWordCount wc - k),
                 uniqueWordCount := int32 (uniqueWordCount wc - 1),
                 wordTable := (wordTable wc)[b := (hd # pre) @ post]\<rparr>) (capacity wc div 2)
        else Some (wc\<lparr>totalWordCount := int32 (totalWordCount wc - k),
                 uniqueWordCount := int32 (uniqueWordCount wc - 1),
                 wordTable := (wordTable wc)[b := (hd # pre) @ post]\<rparr>))"
      using bl b0 False k ch r(3)
      by (simp add: removeWord_def gw getBucket_primes [OF c] bucketAt_Some bucketSet_Some
          b_def [symmetric] updateWordCountsPostRemoval_def Let_def lf)
    moreover have "?chain = (hd # pre) @ n # post" using ch r(1) by simp
    ultimately show ?thesis using r(2) k by blast
  qed
qed

lemma removeWord_spec:
  assumes ok: "tableOk h (capacity wc) (wordTable wc)"
  shows "\<exists>wc'. removeWord h wc w = Some wc' \<and>
      tableOk h (capacity wc') (wordTable wc') \<and>
      countMap wc' = (countMap wc)(w := None) \<and>
      totalWordCount wc' =
        (case countMap wc w of None \<Rightarrow> totalWordCount wc | Some k \<Rightarrow> int32 (totalWordCount wc - k)) \<and>
      uniqueWordCount wc' =
        (if countMap wc w = None then uniqueWordCount wc else int32 (uniqueWordCount wc - 1)) \<and>
      capacity wc' =
        (if countMap wc w \<noteq> None \<and>
            of_int (int32 (uniqueWordCount wc - 1)) / of_int (capacity wc) < MIN_LOAD_FACTOR \<and>
            MIN_CAPACITY < capacity wc
         then getValidCapacity (capacity wc div 2) else capacity wc) \<and>
      int (length (concat (wordTable wc'))) =
        int (length (concat (wordTable wc))) - (if countMap wc w = None then 0 else 1) \<and>
      sum_list (map wordCount (concat (wordTable wc'))) =
        sum_list (map wordCount (concat (wordTable wc))) -
          (case countMap wc w of None \<Rightarrow> 0 | Some k \<Rightarrow> k) \<and>
      (countMap wc w = None \<longrightarrow> wc' = wc)"
proof (cases "countMap wc w")
  case None
  have "(countMap wc)(w := None) = countMap wc" using None by (rule fun_upd_idem)
  with removeWord_absent [OF ok None] None ok show ?thesis by simp
next
  case (Some k)
  let ?b = "nat (uint (h w) mod capacity wc)"
  from ok have l: "length (wordTable wc) = nat (capacity wc)" and c: "capacity wc \<in> set primes"
    by (simp_all add: tableOk_iff2)
  have bl: "?b < length (wordTable wc)" using bucket_range(3) [OF c] l by simp
  let ?C = "getLoadFactor (wc\<lparr>uniqueWordCount := int32 (uniqueWordCount wc - 1)\<rparr>) < MIN_LOAD_FACTOR \<and>
           capacity wc > MIN_CAPACITY"
  from removeWord_present_unfold [OF ok Some] obtain pre n post where
    ch: "wordTable wc ! ?b = pre @ n # post" and n: "word n = w" "wordCount n = k"
    and a: "removeWord h wc w =
       (if ?C
        then resize h (wc\<lparr>totalWordCount := int32 (totalWordCount wc - k),
                 uniqueWordCount := int32 (uniqueWordCount wc - 1),
                 wordTable := (wordTable wc)[?b := pre @ post]\<rparr>) (capacity wc div 2)
        else Some (wc\<lparr>totalWordCount := int32 (totalWordCount wc - k),
                 uniqueWordCount := int32 (uniqueWordCount wc - 1),
                 wordTable := (wordTable wc)[?b := pre @ post]\<rparr>))"
    by blast
  let ?tab1 = "(wordTable wc)[?b := pre @ post]"
  let ?wc1 = "wc\<lparr>totalWordCount := int32 (totalWordCount wc - k),
                 uniqueWordCount := int32 (uniqueWordCount wc - 1), wordTable := ?tab1\<rparr>"
  let ?c2 = "if ?C then getValidCapacity (capacity wc div 2) else capacity ?wc1"
  from table_delete [OF ok bl ch] obtain X Y where
    ok1: "tableOk h (capacity wc) ?tab1" and
    e: "concat (wordTable wc) = X @ n # Y" "concat ?tab1 = X @ Y"
    by blast
  have ok1': "tableOk h (capacity ?wc1) (wordTable ?wc1)" using ok1 by simp
  from maybe_resize [OF ok1', of ?C "capacity wc div 2"] obtain tab2 where
    r: "(if ?C then resize h ?wc1 (capacity wc div 2) else Some ?wc1) =
          Some (?wc1\<lparr>capacity := ?c2, wordTable := tab2\<rparr>)"
    and ok2: "tableOk h ?c2 tab2"
    and m: "mset (concat tab2) = mset (concat ?tab1)"
    by auto
  let ?wc' = "?wc1\<lparr>capacity := ?c2, wordTable := tab2\<rparr>"
  have a': "removeWord h wc w = Some ?wc'" unfolding a r ..
  have d: "distinct (map word (X @ n # Y))" using ok unfolding tableOk_iff2 e(1) by simp
  have d1: "distinct (map word (concat ?tab1))" using ok1 by (simp add: tableOk_iff2)
  have "entryMap (concat tab2) = entryMap (X @ Y)"
    using entryMap_mset_cong [OF d1 m [symmetric]] e(2) by simp
  moreover have "entryMap (concat (wordTable wc)) = (entryMap (X @ Y))(w \<mapsto> k)"
    unfolding e(1) entryMap_insert [OF d] using n by simp
  moreover have "entryMap (X @ Y) w = None" using entryMap_absent [OF d] n by simp
  ultimately have cm: "countMap ?wc' = (countMap wc)(w := None)"
    by (simp add: countMap_entryMap fun_upd_idem)
  have len: "int (length (concat tab2)) = int (length (concat (wordTable wc))) - 1"
    using mset_eq_length [OF m] unfolding e by simp
  have sm: "sum_list (map wordCount (concat tab2)) = sum_list (map wordCount (concat (wordTable wc))) - k"
    using sum_list_mset_cong [OF m, of wordCount] unfolding e using n by simp
  have cap: "?c2 = (if of_int (int32 (uniqueWordCount wc - 1)) / of_int (capacity wc) < MIN_LOAD_FACTOR \<and>
            MIN_CAPACITY < capacity wc
         then getValidCapacity (capacity wc div 2) else capacity wc)"
    by (simp add: getLoadFactor_def)
  show ?thesis
    apply (rule exI [of _ ?wc'])
    using Some a' ok2 cm len sm cap by simp
qed

lemma wellFormed_initialize:
  assumes "c \<in> set primes"
  shows "wellFormed h (initialize c)"
proof -
  have "concat (replicate (nat c) ([] :: Node list)) = []" by (induction "nat c") simp_all
  then show ?thesis
    using assms
    by (simp add: wellFormed_def tableOk_iff2 countsOk_def initialize_def bucketsOk_def int32_one)
qed

lemma wellFormed_default: "wellFormed h WordCounter_default"
  unfolding WordCounter_default_def by (rule wellFormed_initialize) (rule MIN_CAPACITY_mem)

lemma wellFormed_cap: "wellFormed h (WordCounter_cap c)"
  unfolding WordCounter_cap_def by (rule wellFormed_initialize) (rule getValidCapacity_mem)

lemma wellFormed_addWord:
  assumes "wellFormed h wc" "addWord h wc w = Some (r, wc')"
  shows "wellFormed h wc'"
proof -
  from assms(1) have ok: "tableOk h (capacity wc) (wordTable wc)"
    and u: "uniqueWordCount wc = int32 (int (length (concat (wordTable wc))))"
    and t: "totalWordCount wc = int32 (sum_list (map wordCount (concat (wordTable wc))))"
    by (simp_all add: wellFormed_def countsOk_def)
  from addWord_spec [OF ok, of w] assms(2) have
    ok': "tableOk h (capacity wc') (wordTable wc')"
    and t': "totalWordCount wc' = int32 (totalWordCount wc + 1)"
    and u': "uniqueWordCount wc' =
        (if countMap wc w = None then int32 (uniqueWordCount wc + 1) else uniqueWordCount wc)"
    and l': "int (length (concat (wordTable wc'))) =
        int (length (concat (wordTable wc))) + (if countMap wc w = None then 1 else 0)"
    and s': "int32 (sum_list (map wordCount (concat (wordTable wc')))) =
        int32 (sum_list (map wordCount (concat (wordTable wc))) + 1)"
    by auto
  have "uniqueWordCount wc' = int32 (int (length (concat (wordTable wc'))))"
    unfolding u' l' u by (simp add: int32_add_left)
  moreover have "totalWordCount wc' = int32 (sum_list (map wordCount (concat (wordTable wc'))))"
    unfolding t' s' t by (simp add: int32_add_left)
  ultimately show ?thesis using ok' by (simp add: wellFormed_def countsOk_def)
qed

lemma wellFormed_removeWord:
  assumes "wellFormed h wc" "removeWord h wc w = Some wc'"
  shows "wellFormed h wc'"
proof -
  from assms(1) have ok: "tableOk h (capacity wc) (wordTable wc)"
    and u: "uniqueWordCount wc = int32 (int (length (concat (wordTable wc))))"
    and t: "totalWordCount wc = int32 (sum_list (map wordCount (concat (wordTable wc))))"
    by (simp_all add: wellFormed_def countsOk_def)
  from removeWord_spec [OF ok, of w] assms(2) have
    ok': "tableOk h (capacity wc') (wordTable wc')"
    and t': "totalWordCount wc' =
        (case countMap wc w of None \<Rightarrow> totalWordCount wc | Some k \<Rightarrow> int32 (totalWordCount wc - k))"
    and u': "uniqueWordCount wc' =
        (if countMap wc w = None then uniqueWordCount wc else int32 (uniqueWordCount wc - 1))"
    and l': "int (length (concat (wordTable wc'))) =
        int (length (concat (wordTable wc))) - (if countMap wc w = None then 0 else 1)"
    and s': "sum_list (map wordCount (concat (wordTable wc'))) =
        sum_list (map wordCount (concat (wordTable wc))) -
          (case countMap wc w of None \<Rightarrow> 0 | Some k \<Rightarrow> k)"
    by auto
  have "uniqueWordCount wc' = int32 (int (length (concat (wordTable wc'))))"
    unfolding u' l' u by (simp add: int32_diff_left)
  moreover have "totalWordCount wc' = int32 (sum_list (map wordCount (concat (wordTable wc'))))"
    unfolding t' s' t by (simp add: int32_diff_left split: option.split)
  ultimately show ?thesis using ok' by (simp add: wellFormed_def countsOk_def)
qed

lemma copyBucket_id: "copyBucket c = c"
  by (induction c) simp_all

lemma copyLoop_eq:
  "length other = nat cap \<Longrightarrow> length t = nat cap \<Longrightarrow> 0 \<le> b \<Longrightarrow>
     copyLoop other cap b t = Some (take (nat b) t @ drop (nat b) other)"
proof (induction other cap b t rule: copyLoop.induct)
  case (1 otherTable cap bucket tab)
  show ?case
  proof (cases "bucket < cap")
    case False
    with 1(2-4) show ?thesis by (simp add: copyLoop.simps)
  next
    case True
    with 1(2-4) have l: "nat bucket < length otherTable" "nat bucket < length tab" by simp_all
    let ?t = "tab[nat bucket := otherTable ! nat bucket]"
    have "copyLoop otherTable cap (bucket + 1) ?t =
          Some (take (nat (bucket + 1)) ?t @ drop (nat (bucket + 1)) otherTable)"
      using 1(1) [OF True, of "otherTable ! nat bucket" ?t] l 1(2-4)
      by (simp add: bucketAt_Some bucketSet_Some copyBucket_id)
    also have "nat (bucket + 1) = Suc (nat bucket)" using 1(4) by simp
    also have "take (Suc (nat bucket)) ?t = take (nat bucket) tab @ [otherTable ! nat bucket]"
      using l by (simp add: take_Suc_conv_app_nth)
    also have "(take (nat bucket) tab @ [otherTable ! nat bucket]) @ drop (Suc (nat bucket)) otherTable
               = take (nat bucket) tab @ drop (nat bucket) otherTable"
      using l by (simp add: Cons_nth_drop_Suc)
    finally show ?thesis
      using True l 1(4)
      by (subst copyLoop.simps) (simp add: bucketAt_Some bucketSet_Some copyBucket_id)
  qed
qed

lemma copy_ok:
  assumes "length (wordTable wc) = nat (capacity wc)"
  shows "copy wc = Some wc"
  using copyLoop_eq [OF assms, of "replicate (nat (capacity wc)) []" 0]
  by (simp add: copy_def)

lemma reachable_wellFormed: "reachable h wc \<Longrightarrow> wellFormed h wc"
proof (induction rule: reachable.induct)
  case r_default
  show ?case by (rule wellFormed_default)
next
  case (r_cap c)
  show ?case by (rule wellFormed_cap)
next
  case (r_add wc w r wc')
  then show ?case by (blast intro: wellFormed_addWord)
next
  case (r_remove wc w wc')
  then show ?case by (blast intro: wellFormed_removeWord)
next
  case (r_copy wc wc')
  then have "length (wordTable wc) = nat (capacity wc)"
    by (simp add: wellFormed_def tableOk_iff2)
  from copy_ok [OF this] r_copy show ?case by simp
qed

subsection \<open>Adding one word until its counter wraps\<close>

lemma run_append: "run h wc (xs @ ys) = run h wc xs \<bind> (\<lambda>wc'. run h wc' ys)"
  by (induction xs arbitrary: wc) (simp_all split: Option.bind_split)

lemma getBucket_a: "getBucket sampleHash ''a'' 11 = Some 9"
  by code_simp

lemma addWord_onlyA:
  "addWord sampleHash (onlyA k) ''a'' = Some (int32 (k + 1), onlyA (int32 (k + 1)))"
  by (simp add: addWord_def getWordNode_def getBucket_a onlyA_def bucketAt_def bucketSet_def
      nodeAt_def nodeSetCount_def)

lemma getWordCount_onlyA: "getWordCount sampleHash (onlyA k) ''a'' = Some k"
  by (simp add: getWordCount_def getWordNode_def getBucket_a onlyA_def bucketAt_def nodeAt_def)

lemma run_onlyA:
  "run sampleHash (onlyA k) (replicate n (Add ''a'')) =
     Some (onlyA (if n = 0 then k else int32 (k + int n)))"
proof (induction n arbitrary: k)
  case 0
  show ?case by simp
next
  case (Suc n)
  have e: "int32 (int32 (k + 1) + int n) = int32 (k + int (Suc n))"
    unfolding int32_add_left by (simp add: ac_simps)
  have "run sampleHash (onlyA k) (replicate (Suc n) (Add ''a'')) =
      run sampleHash (onlyA (int32 (k + 1))) (replicate n (Add ''a''))"
    by (simp add: addWord_onlyA)
  also have "\<dots> = Some (onlyA (if n = 0 then int32 (k + 1) else int32 (int32 (k + 1) + int n)))"
    by (rule Suc.IH)
  also have "(if n = 0 then int32 (k + 1) else int32 (int32 (k + 1) + int n)) =
      int32 (k + int (Suc n))"
    unfolding e by simp
  finally show ?case by simp
qed

lemma addWord_default_a: "addWord sampleHash WordCounter_default ''a'' = Some (1, onlyA 1)"
  by code_simp

lemma run_default_a:
  "run sampleHash WordCounter_default (replicate (Suc n) (Add ''a'')) =
     Some (onlyA (int32 (1 + int n)))"
proof -
  have "run sampleHash WordCounter_default (replicate (Suc n) (Add ''a'')) =
      run sampleHash (onlyA 1) (replicate n (Add ''a''))"
    by (simp add: addWord_default_a)
  also have "\<dots> = Some (onlyA (if n = 0 then 1 else int32 (1 + int n)))"
    by (rule run_onlyA)
  also have "(if n = 0 then 1 else int32 (1 + int n)) = int32 (1 + int n)"
    by (simp add: int32_one)
  finally show ?thesis .
qed

lemma tableOk_onlyA: "tableOk sampleHash 11 (wordTable (onlyA k))"
proof -
  have c: "(11 :: int) \<in> set primes" using MIN_CAPACITY_mem by (simp add: MIN_CAPACITY_def)
  have "uint (sampleHash ''a'') mod 11 = 9"
    using getBucket_primes [OF c, of sampleHash "''a''"] getBucket_a by simp
  then have "bucketsOk sampleHash 11 (wordTable (onlyA k))"
    unfolding bucketsOk_def onlyA_def
    by (simp add: nth_Cons' less_Suc_eq all_conj_distrib)
  then show ?thesis using c by (simp add: tableOk_iff2 onlyA_def)
qed

lemma wellFormed_onlyA: "wellFormed sampleHash (onlyA (int32 k))"
  using tableOk_onlyA [of "int32 k"]
  by (simp add: wellFormed_def countsOk_def onlyA_def int32_one int32_idem)

lemma afterLastRemove_Cons:
  "afterLastRemove key (c # cs) =
     (if Remove key \<in> set cs then afterLastRemove key cs
      else if c = Remove key then cs else c # cs)"
proof (cases "Remove key \<in> set cs")
  case True
  then have "Remove key \<in> set (rev cs)" by simp
  then have "takeWhile (\<lambda>c. c \<noteq> Remove key) (rev cs @ [c]) = takeWhile (\<lambda>c. c \<noteq> Remove key) (rev cs)"
    by (rule takeWhile_append1) simp
  with True show ?thesis by (simp add: afterLastRemove_def)
next
  case False
  then have a: "\<And>x. x \<in> set (rev cs) \<Longrightarrow> x \<noteq> Remove key" by auto
  have "takeWhile (\<lambda>c. c \<noteq> Remove key) (rev cs @ [c]) =
        rev cs @ takeWhile (\<lambda>c. c \<noteq> Remove key) [c]"
    by (rule takeWhile_append2) (rule a)
  with False show ?thesis by (simp add: afterLastRemove_def)
qed

lemma afterLastRemove_none:
  assumes "Remove key \<notin> set cs"
  shows "afterLastRemove key cs = cs"
proof -
  have "\<forall>x \<in> set (rev cs). x \<noteq> Remove key" using assms by auto
  then have "takeWhile (\<lambda>c. c \<noteq> Remove key) (rev cs) = rev cs"
    by (simp only: takeWhile_eq_all_conv)
  then show ?thesis unfolding afterLastRemove_def by (simp only: rev_rev_ident)
qed

lemma addsSince_Add:
  "addsSinceLastRemove key (Add w # cs) =
     (if Remove key \<in> set cs then 0 else if w = key then 1 else 0) + addsSinceLastRemove key cs"
  by (simp add: addsSinceLastRemove_def afterLastRemove_Cons afterLastRemove_none)

lemma addsSince_Remove:
  "addsSinceLastRemove key (Remove w # cs) = addsSinceLastRemove key cs"
  by (simp add: addsSinceLastRemove_def afterLastRemove_Cons afterLastRemove_none)

lemma addsSinceRemove_eq:
  "addsSinceRemove key k cs =
     (if Remove key \<in> set cs then 0 else k) + addsSinceLastRemove key cs"
proof (induction cs arbitrary: k)
  case Nil
  then show ?case by (simp add: addsSinceLastRemove_def afterLastRemove_def)
next
  case (Cons c cs)
  show ?case
  proof (cases c)
    case (Add w)
    then show ?thesis
      by (simp add: Cons.IH addsSince_Add)
  next
    case (Remove w)
    then show ?thesis
      by (simp add: Cons.IH addsSince_Remove)
  qed
qed

lemma run_lookup:
  assumes "wellFormed h wc0"
    and "(case countMap wc0 key of None \<Rightarrow> 0 | Some k \<Rightarrow> k) = int32 n"
  shows "\<exists>wc. run h wc0 calls = Some wc \<and> wellFormed h wc \<and>
     getWordCount h wc key = Some (int32 (addsSinceRemove key n calls))"
  using assms
proof (induction calls arbitrary: wc0 n)
  case Nil
  then have "tableOk h (capacity wc0) (wordTable wc0)" by (simp add: wellFormed_def)
  from getWordCount_ok [OF this] Nil show ?case by simp
next
  case (Cons c cs)
  from Cons.prems have ok: "tableOk h (capacity wc0) (wordTable wc0)" by (simp add: wellFormed_def)
  let ?cnt = "\<lambda>wc. case countMap wc key of None \<Rightarrow> 0 | Some k \<Rightarrow> k"
  show ?case
  proof (cases c)
    case (Add w)
    from addWord_spec [OF ok, of w] obtain wc1 where
      a: "addWord h wc0 w = Some (case countMap wc0 w of None \<Rightarrow> 1 | Some k \<Rightarrow> int32 (k + 1), wc1)"
      and cm: "countMap wc1 =
         (countMap wc0)(w \<mapsto> (case countMap wc0 w of None \<Rightarrow> 1 | Some k \<Rightarrow> int32 (k + 1)))"
      by blast
    from wellFormed_addWord [OF Cons.prems(1) a] have wf1: "wellFormed h wc1" .
    have "?cnt wc1 = int32 (if w = key then n + 1 else n)"
    proof (cases "w = key")
      case False
      then show ?thesis unfolding cm using Cons.prems(2) by simp
    next
      case True
      show ?thesis
      proof (cases "countMap wc0 key")
        case None
        with Cons.prems(2) have "int32 n = 0" by simp
        then have "int32 (n + 1) = 1" using int32_add_left [of n 1] by (simp add: int32_one)
        with True None show ?thesis unfolding cm by simp
      next
        case (Some k)
        with Cons.prems(2) have "k = int32 n" by simp
        then have "int32 (k + 1) = int32 (n + 1)" by (simp add: int32_add_left)
        with True Some show ?thesis unfolding cm by simp
      qed
    qed
    from Cons.IH [OF wf1 this] a Add show ?thesis by simp
  next
    case (Remove w)
    from removeWord_spec [OF ok, of w] obtain wc1 where
      a: "removeWord h wc0 w = Some wc1" and cm: "countMap wc1 = (countMap wc0)(w := None)"
      by blast
    from wellFormed_removeWord [OF Cons.prems(1) a] have wf1: "wellFormed h wc1" .
    have "?cnt wc1 = int32 (if w = key then 0 else n)"
      unfolding cm using Cons.prems(2) by (simp add: int32_one)
    from Cons.IH [OF wf1 this] a Remove show ?thesis by simp
  qed
qed

lemma countMap_initialize: "countMap (initialize c) = Map.empty"
proof -
  have "concat (replicate (nat c) ([] :: Node list)) = []" by (induction "nat c") simp_all
  then show ?thesis by (simp add: countMap_def initialize_def)
qed

lemma addsSinceLastRemove_nonneg: "0 \<le> addsSinceLastRemove key calls"
  by (simp add: addsSinceLastRemove_def)

lemma run_fresh:
  assumes "c \<in> set primes"
  shows "\<exists>wc. run h (initialize c) calls = Some wc \<and>
     getWordCount h wc key = Some (int32 (addsSinceLastRemove key calls)) \<and>
     (addsSinceLastRemove key calls < 2147483648 \<longrightarrow>
        getWordCount h wc key = Some (addsSinceLastRemove key calls))"
proof -
  have "(case countMap (initialize c) key of None \<Rightarrow> 0 | Some k \<Rightarrow> k) = int32 0"
    by (simp add: countMap_initialize int32_one)
  from run_lookup [OF wellFormed_initialize [OF assms] this, of h calls] obtain wc where
    r: "run h (initialize c) calls = Some wc"
    "getWordCount h wc key = Some (int32 (addsSinceRemove key 0 calls))"
    by blast
  have e: "addsSinceRemove key 0 calls = addsSinceLastRemove key calls"
    by (simp add: addsSinceRemove_eq)
  have "int32 (addsSinceLastRemove key calls) = addsSinceLastRemove key calls"
    if "addsSinceLastRemove key calls < 2147483648"
    using that addsSinceLastRemove_nonneg [of key calls] by (intro int32_id) simp_all
  with r e show ?thesis by simp
qed

lemma addsSinceLastRemove_replicate:
  "addsSinceLastRemove key (replicate n (Add key)) = int n"
proof -
  have "Remove key \<notin> set (replicate n (Add key))" by auto
  from afterLastRemove_none [OF this] show ?thesis
    by (simp add: addsSinceLastRemove_def)
qed

subsection \<open>Lookup after a sequence of calls\<close>

text \<open>
  Claim C1, as the code has it. Start from a fresh table (default-constructed, or constructed
  with any requested capacity) and make any sequence of \<^verbatim>\<open>addWord\<close> and \<^verbatim>\<open>removeWord\<close>
  calls. The sequence runs to the end without undefined behaviour, and for every key
  \<^verbatim>\<open>getWordCount\<close> then returns the number of times the key was added since its most recent
  removal, as the 32-bit \<^verbatim>\<open>int\<close> that has counted them: exactly that number while it is
  below \<open>2\<^sup>3\<^sup>1\<close>, so 0 when the key was never added, or was removed and not added again.
\<close>

theorem lookup_counts_adds_as_int32:
  "(\<exists>wc. run h WordCounter_default calls = Some wc \<and>
         getWordCount h wc key = Some (int32 (addsSinceLastRemove key calls)) \<and>
         (addsSinceLastRemove key calls < 2147483648 \<longrightarrow>
            getWordCount h wc key = Some (addsSinceLastRemove key calls))) \<and>
   (\<exists>wc. run h (WordCounter_cap c) calls = Some wc \<and>
         getWordCount h wc key = Some (int32 (addsSinceLastRemove key calls)) \<and>
         (addsSinceLastRemove key calls < 2147483648 \<longrightarrow>
            getWordCount h wc key = Some (addsSinceLastRemove key calls)))"
  unfolding WordCounter_default_def WordCounter_cap_def
  using run_fresh [OF MIN_CAPACITY_mem] run_fresh [OF getValidCapacity_mem] by blast

theorem lookup_counts_adds_as_int32_witness:
  "addsSinceLastRemove ''cat''
      [Add ''cat'', Add ''cat'', Remove ''cat'', Add ''dog'', Add ''cat''] < 2147483648 \<and>
   (\<exists>wc. run sampleHash WordCounter_default
           [Add ''cat'', Add ''cat'', Remove ''cat'', Add ''dog'', Add ''cat''] = Some wc \<and>
         getWordCount sampleHash wc ''cat'' = Some 1) \<and>
   (\<exists>wc. run sampleHash (WordCounter_cap 100)
           [Add ''cat'', Add ''cat'', Remove ''cat'', Add ''dog'', Add ''cat''] = Some wc \<and>
         getWordCount sampleHash wc ''cat'' = Some 1)"
proof -
  have e: "addsSinceLastRemove ''cat''
      [Add ''cat'', Add ''cat'', Remove ''cat'', Add ''dog'', Add ''cat''] = 1"
    by (simp add: addsSinceLastRemove_def afterLastRemove_def)
  have l: "(1 :: int) < 2147483648" by simp
  from lookup_counts_adds_as_int32 [of sampleHash
     "[Add ''cat'', Add ''cat'', Remove ''cat'', Add ''dog'', Add ''cat'']" "''cat''" 100] l
  show ?thesis unfolding e by blast
qed

text \<open>
  The claim as the specification words it, the number of additions itself, fails once a
  count passes \<open>2\<^sup>3\<^sup>1 - 1\<close>: after 2147483648 additions of \<open>a\<close> to a default-constructed
  table, with no removal, \<^verbatim>\<open>getWordCount\<close> returns -2147483648.
\<close>

theorem lookup_counts_adds_counterexample:
  "run sampleHash WordCounter_default (replicate 2147483648 (Add ''a'')) =
     Some (onlyA (- 2147483648)) \<and>
   getWordCount sampleHash (onlyA (- 2147483648)) ''a'' = Some (- 2147483648) \<and>
   addsSinceLastRemove ''a'' (replicate 2147483648 (Add ''a'')) = 2147483648"
proof -
  have n: "(2147483648 :: nat) = Suc 2147483647" by simp
  have "run sampleHash WordCounter_default (replicate 2147483648 (Add ''a'')) =
      Some (onlyA (int32 (1 + int 2147483647)))"
    unfolding n by (rule run_default_a)
  moreover have "int32 (1 + int 2147483647) = - 2147483648" using int32_max by simp
  moreover have "addsSinceLastRemove ''a'' (replicate 2147483648 (Add ''a'')) = int 2147483648"
    by (rule addsSinceLastRemove_replicate)
  ultimately show ?thesis by (simp add: getWordCount_onlyA)
qed

lemma getWordNode_None_iff:
  assumes "tableOk h (capacity wc) (wordTable wc)"
  shows "getWordNode h wc w = Some None \<longleftrightarrow> countMap wc w = None"
  using countMap_findNode_None [OF assms, of w]
  by (simp add: getWordNode_ok [OF assms])

lemma run_catDogCat: "run sampleHash WordCounter_default [Add ''cat'', Add ''dog'', Add ''cat''] = Some catDogCat"
  by code_simp

lemma reachable_run:
  "reachable h wc \<Longrightarrow> run h wc calls = Some wc' \<Longrightarrow> reachable h wc'"
proof (induction calls arbitrary: wc)
  case Nil
  then show ?case by simp
next
  case (Cons c cs)
  from Cons.prems(2) obtain wc1 where s: "step h wc c = Some wc1" and r: "run h wc1 cs = Some wc'"
    by (auto split: bind_splits)
  have "reachable h wc1"
  proof (cases c)
    case (Add w)
    with s obtain r where "addWord h wc w = Some (r, wc1)" by auto
    with Cons.prems(1) show ?thesis by (rule r_add)
  next
    case (Remove w)
    with s have "removeWord h wc w = Some wc1" by simp
    with Cons.prems(1) show ?thesis by (rule r_remove)
  qed
  from Cons.IH [OF this r] show ?case .
qed

lemma reachable_catDogCat: "reachable sampleHash catDogCat"
  using reachable_run [OF r_default run_catDogCat] .

lemma wellFormed_catDogCat: "wellFormed sampleHash catDogCat"
  using reachable_catDogCat by (rule reachable_wellFormed)

subsection \<open>One call of addWord\<close>

lemma int32_succ:
  "- 2147483648 \<le> x \<Longrightarrow> x < 2147483647 \<Longrightarrow> int32 (x + 1) = x + 1"
  by (rule int32_id) simp_all

text \<open>
  Claim C2, as the code has it. In every well-formed table state and for every key,
  \<^verbatim>\<open>addWord\<close> returns the key's new count, which \<^verbatim>\<open>getWordCount\<close> then reports, and
  increments \<^verbatim>\<open>totalWordCount\<close>. When the key is absent (\<^verbatim>\<open>getWordNode\<close> finds no node) it
  creates an entry with count 1 and increments \<^verbatim>\<open>uniqueWordCount\<close>; when the key is present
  with count \<open>k\<close> the entry's count is incremented and \<^verbatim>\<open>uniqueWordCount\<close> stays. No other
  entry changes. Each increment is that of a 32-bit \<^verbatim>\<open>int\<close>: exactly one more while the
  counter is below \<open>2147483647\<close>. In particular, for any hash function, adding \<open>cat\<close>,
  \<open>dog\<close>, \<open>cat\<close> to a fresh table gives count 2 for \<open>cat\<close>, count 1 for \<open>dog\<close>, 2 unique
  words and 3 words in total.
\<close>

theorem addWord_creates_or_increments_int32:
  "(wellFormed h wc \<longrightarrow> (\<exists>r wc'. addWord h wc key = Some (r, wc') \<and>
      getWordCount h wc' key = Some r \<and>
      totalWordCount wc' = int32 (totalWordCount wc + 1) \<and>
      (totalWordCount wc < 2147483647 \<longrightarrow> totalWordCount wc' = totalWordCount wc + 1) \<and>
      (getWordNode h wc key = Some None \<longrightarrow>
         r = 1 \<and> countMap wc key = None \<and> countMap wc' = (countMap wc)(key \<mapsto> 1) \<and>
         uniqueWordCount wc' = int32 (uniqueWordCount wc + 1) \<and>
         (uniqueWordCount wc < 2147483647 \<longrightarrow>
            uniqueWordCount wc' = uniqueWordCount wc + 1)) \<and>
      (getWordNode h wc key \<noteq> Some None \<longrightarrow>
         (\<exists>k. getWordCount h wc key = Some k \<and> countMap wc key = Some k \<and>
              r = int32 (k + 1) \<and>
              (- 2147483648 \<le> k \<and> k < 2147483647 \<longrightarrow> r = k + 1) \<and>
              countMap wc' = (countMap wc)(key \<mapsto> r)) \<and>
         uniqueWordCount wc' = uniqueWordCount wc))) \<and>
    (\<exists>wc. run h WordCounter_default [Add ''cat'', Add ''dog'', Add ''cat''] = Some wc \<and>
       getWordCount h wc ''cat'' = Some 2 \<and> getWordCount h wc ''dog'' = Some 1 \<and>
       getUniqueWordCount wc = 2 \<and> getTotalWordCount wc = 3)"
proof (intro conjI impI)
  assume wf: "wellFormed h wc"
  then have ok: "tableOk h (capacity wc) (wordTable wc)" by (simp add: wellFormed_def)
  from wf have lo: "- 2147483648 \<le> totalWordCount wc" "- 2147483648 \<le> uniqueWordCount wc"
    using int32_range(1) by (simp_all add: wellFormed_def countsOk_def)
  let ?r = "case countMap wc key of None \<Rightarrow> 1 | Some k \<Rightarrow> int32 (k + 1)"
  from addWord_spec [OF ok, of key] obtain wc' where
    a: "addWord h wc key = Some (?r, wc')" and ok': "tableOk h (capacity wc') (wordTable wc')"
    and cm: "countMap wc' = (countMap wc)(key \<mapsto> ?r)"
    and t: "totalWordCount wc' = int32 (totalWordCount wc + 1)"
    and u: "uniqueWordCount wc' =
        (if countMap wc key = None then int32 (uniqueWordCount wc + 1) else uniqueWordCount wc)"
    by blast
  have l: "getWordCount h wc' key = Some ?r"
    unfolding getWordCount_ok [OF ok'] cm by simp
  have t1: "totalWordCount wc' = totalWordCount wc + 1" if "totalWordCount wc < 2147483647"
    unfolding t using lo(1) that by (rule int32_succ)
  have new: "?r = 1 \<and> countMap wc key = None \<and> countMap wc' = (countMap wc)(key \<mapsto> 1) \<and>
         uniqueWordCount wc' = int32 (uniqueWordCount wc + 1) \<and>
         (uniqueWordCount wc < 2147483647 \<longrightarrow>
            uniqueWordCount wc' = uniqueWordCount wc + 1)"
    if "getWordNode h wc key = Some None"
  proof -
    from that have n: "countMap wc key = None" unfolding getWordNode_None_iff [OF ok] .
    then have u': "uniqueWordCount wc' = int32 (uniqueWordCount wc + 1)" using u by simp
    have "uniqueWordCount wc' = uniqueWordCount wc + 1" if "uniqueWordCount wc < 2147483647"
      unfolding u' using lo(2) that by (rule int32_succ)
    with n cm u' show ?thesis by simp
  qed
  have old: "(\<exists>k. getWordCount h wc key = Some k \<and> countMap wc key = Some k \<and>
              ?r = int32 (k + 1) \<and>
              (- 2147483648 \<le> k \<and> k < 2147483647 \<longrightarrow> ?r = k + 1) \<and>
              countMap wc' = (countMap wc)(key \<mapsto> ?r)) \<and>
         uniqueWordCount wc' = uniqueWordCount wc" if "getWordNode h wc key \<noteq> Some None"
  proof -
    from that obtain k where k: "countMap wc key = Some k"
      unfolding getWordNode_None_iff [OF ok] by blast
    then have g: "getWordCount h wc key = Some k" unfolding getWordCount_ok [OF ok] by simp
    have r: "?r = int32 (k + 1)" using k by simp
    have "?r = k + 1" if "- 2147483648 \<le> k \<and> k < 2147483647"
      unfolding r using that by (intro int32_succ) simp_all
    with k g r cm u show ?thesis by simp
  qed
  from a l t t1 new old
  show "\<exists>r wc'. addWord h wc key = Some (r, wc') \<and>
      getWordCount h wc' key = Some r \<and>
      totalWordCount wc' = int32 (totalWordCount wc + 1) \<and>
      (totalWordCount wc < 2147483647 \<longrightarrow> totalWordCount wc' = totalWordCount wc + 1) \<and>
      (getWordNode h wc key = Some None \<longrightarrow>
         r = 1 \<and> countMap wc key = None \<and> countMap wc' = (countMap wc)(key \<mapsto> 1) \<and>
         uniqueWordCount wc' = int32 (uniqueWordCount wc + 1) \<and>
         (uniqueWordCount wc < 2147483647 \<longrightarrow>
            uniqueWordCount wc' = uniqueWordCount wc + 1)) \<and>
      (getWordNode h wc key \<noteq> Some None \<longrightarrow>
         (\<exists>k. getWordCount h wc key = Some k \<and> countMap wc key = Some k \<and>
              r = int32 (k + 1) \<and>
              (- 2147483648 \<le> k \<and> k < 2147483647 \<longrightarrow> r = k + 1) \<and>
              countMap wc' = (countMap wc)(key \<mapsto> r)) \<and>
         uniqueWordCount wc' = uniqueWordCount wc)"
    by blast
next
  let ?w0 = "WordCounter_default"
  have wf0: "wellFormed h ?w0" by (rule wellFormed_default)
  then have ok0: "tableOk h (capacity ?w0) (wordTable ?w0)" by (simp add: wellFormed_def)
  have cm0: "countMap ?w0 = Map.empty"
    by (simp add: WordCounter_default_def countMap_initialize)
  have c0: "totalWordCount ?w0 = 0" "uniqueWordCount ?w0 = 0"
    by (simp_all add: WordCounter_default_def initialize_def)
  have i: "int32 1 = 1" "int32 2 = 2" "int32 3 = 3" by (simp_all add: int32_id)
  from addWord_spec [OF ok0, of "''cat''"] obtain w1 where
    a1: "addWord h ?w0 ''cat'' = Some (1, w1)" and ok1: "tableOk h (capacity w1) (wordTable w1)"
    and cm1: "countMap w1 = [''cat'' \<mapsto> 1]"
    and c1: "totalWordCount w1 = 1" "uniqueWordCount w1 = 1"
    unfolding cm0 c0 by (auto simp: i)
  from addWord_spec [OF ok1, of "''dog''"] obtain w2 where
    a2: "addWord h w1 ''dog'' = Some (1, w2)" and ok2: "tableOk h (capacity w2) (wordTable w2)"
    and cm2: "countMap w2 = [''cat'' \<mapsto> 1, ''dog'' \<mapsto> 1]"
    and c2: "totalWordCount w2 = 2" "uniqueWordCount w2 = 2"
    unfolding cm1 c1 by (auto simp: i)
  from addWord_spec [OF ok2, of "''cat''"] obtain w3 where
    a3: "addWord h w2 ''cat'' = Some (2, w3)" and ok3: "tableOk h (capacity w3) (wordTable w3)"
    and cm3: "countMap w3 = [''cat'' \<mapsto> 1, ''dog'' \<mapsto> 1, ''cat'' \<mapsto> 2]"
    and c3: "totalWordCount w3 = 3" "uniqueWordCount w3 = 2"
    unfolding cm2 c2 by (auto simp: i)
  have "run h ?w0 [Add ''cat'', Add ''dog'', Add ''cat''] = Some w3"
    using a1 a2 a3 by simp
  moreover have "getWordCount h w3 ''cat'' = Some 2" "getWordCount h w3 ''dog'' = Some 1"
    unfolding getWordCount_ok [OF ok3] cm3 by simp_all
  ultimately show "\<exists>wc. run h ?w0 [Add ''cat'', Add ''dog'', Add ''cat''] = Some wc \<and>
       getWordCount h wc ''cat'' = Some 2 \<and> getWordCount h wc ''dog'' = Some 1 \<and>
       getUniqueWordCount wc = 2 \<and> getTotalWordCount wc = 3"
    using c3 by (simp add: getUniqueWordCount_def getTotalWordCount_def)
qed

theorem addWord_creates_or_increments_int32_witness:
  "wellFormed sampleHash catDogCat \<and>
   addWord sampleHash catDogCat ''cat'' =
     Some (3, catDogCat\<lparr>totalWordCount := 4,
        wordTable := (wordTable catDogCat)[10 := [\<lparr>word = ''cat'', wordCount = 3\<rparr>]]\<rparr>) \<and>
   totalWordCount catDogCat < 2147483647 \<and>
   getWordNode sampleHash catDogCat ''cat'' = Some (Some (10, 0)) \<and>
   getWordCount sampleHash catDogCat ''cat'' = Some 2 \<and>
   - 2147483648 \<le> (2 :: int) \<and> (2 :: int) < 2147483647 \<and>
   getWordCount sampleHash
     (catDogCat\<lparr>totalWordCount := 4,
        wordTable := (wordTable catDogCat)[10 := [\<lparr>word = ''cat'', wordCount = 3\<rparr>]]\<rparr>)
     ''cat'' = Some 3"
proof -
  let ?X = "catDogCat\<lparr>totalWordCount := 4,
        wordTable := (wordTable catDogCat)[10 := [\<lparr>word = ''cat'', wordCount = 3\<rparr>]]\<rparr>"
  have a: "addWord sampleHash catDogCat ''cat'' = Some (3, ?X)" by code_simp
  have g: "getWordNode sampleHash catDogCat ''cat'' = Some (Some (10, 0))"
    "getWordCount sampleHash catDogCat ''cat'' = Some 2"
    by code_simp+
  have t: "totalWordCount catDogCat < 2147483647" by (simp add: catDogCat_def)
  from addWord_creates_or_increments_int32 [of sampleHash catDogCat "''cat''"]
    wellFormed_catDogCat
  obtain r wc' where "addWord sampleHash catDogCat ''cat'' = Some (r, wc')"
    "getWordCount sampleHash wc' ''cat'' = Some r"
    by blast
  with a have "getWordCount sampleHash ?X ''cat'' = Some 3" by simp
  with wellFormed_catDogCat a g t show ?thesis by simp
qed

text \<open>
  The claim as the specification words it, one more each time, fails at the top of the
  \<^verbatim>\<open>int\<close> range. After 2147483647 additions of \<open>a\<close> to a default-constructed table the
  count of \<open>a\<close> and \<^verbatim>\<open>totalWordCount\<close> are both 2147483647; one more \<^verbatim>\<open>addWord\<close> of \<open>a\<close>
  returns -2147483648 and leaves both at -2147483648.
\<close>

theorem addWord_increments_counterexample:
  "run sampleHash WordCounter_default (replicate 2147483647 (Add ''a'')) =
     Some (onlyA 2147483647) \<and>
   wellFormed sampleHash (onlyA 2147483647) \<and>
   getWordCount sampleHash (onlyA 2147483647) ''a'' = Some 2147483647 \<and>
   totalWordCount (onlyA 2147483647) = 2147483647 \<and>
   addWord sampleHash (onlyA 2147483647) ''a'' = Some (- 2147483648, onlyA (- 2147483648)) \<and>
   getWordCount sampleHash (onlyA (- 2147483648)) ''a'' = Some (- 2147483648) \<and>
   totalWordCount (onlyA (- 2147483648)) = - 2147483648"
proof -
  have n: "(2147483647 :: nat) = Suc 2147483646" by simp
  have i: "int32 (1 + int 2147483646) = 2147483647" by (simp add: int32_id)
  have r: "run sampleHash WordCounter_default (replicate 2147483647 (Add ''a'')) =
      Some (onlyA 2147483647)"
    unfolding n using run_default_a [of 2147483646] unfolding i .
  have w: "wellFormed sampleHash (onlyA 2147483647)"
    using wellFormed_onlyA [of 2147483647] by (simp add: int32_id)
  have a: "addWord sampleHash (onlyA 2147483647) ''a'' =
      Some (- 2147483648, onlyA (- 2147483648))"
    using addWord_onlyA [of 2147483647] int32_max by simp
  have t: "totalWordCount (onlyA k) = k" for k by (simp add: onlyA_def)
  from r w a getWordCount_onlyA [of 2147483647] getWordCount_onlyA [of "- 2147483648"]
    t [of 2147483647] t [of "- 2147483648"]
  show ?thesis by blast
qed

subsection \<open>The counters\<close>

lemma map_option_run_append:
  "map_option f (run h wc (xs @ [Add w])) =
     run h wc xs \<bind> (\<lambda>wc'. map_option (f \<circ> snd) (addWord h wc' w))"
  unfolding run_append
  by (cases "run h wc xs") (simp_all add: option.map_comp bind_map_option split: bind_split)

text \<open>
  Claim C3, as the code has it. In every table state reachable from a fresh table,
  \<^verbatim>\<open>totalWordCount\<close> is the sum of the counts of the entries stored in the bucket chains and
  \<^verbatim>\<open>uniqueWordCount\<close> is the number of those entries, both as 32-bit \<^verbatim>\<open>int\<close>s: exactly the
  sum and the number whenever these fit in 32 bits. From such a state \<^verbatim>\<open>addWord\<close> increments
  \<^verbatim>\<open>totalWordCount\<close>, and \<^verbatim>\<open>removeWord\<close> subtracts the whole count of the entry it removes
  (the count \<^verbatim>\<open>getWordCount\<close> reported for the word, 0 when the word is absent), in 32-bit
  arithmetic as well: exactly \<open>+ 1\<close> and \<open>- k\<close> whenever the result fits.
\<close>

theorem counters_match_entries_int32:
  assumes "reachable h wc"
  shows "totalWordCount wc = int32 (sum_list (map wordCount (concat (wordTable wc)))) \<and>
         uniqueWordCount wc = int32 (int (length (concat (wordTable wc)))) \<and>
         (- 2147483648 \<le> sum_list (map wordCount (concat (wordTable wc))) \<and>
          sum_list (map wordCount (concat (wordTable wc))) < 2147483648 \<longrightarrow>
            totalWordCount wc = sum_list (map wordCount (concat (wordTable wc)))) \<and>
         (length (concat (wordTable wc)) < 2147483648 \<longrightarrow>
            uniqueWordCount wc = int (length (concat (wordTable wc)))) \<and>
         (\<exists>r wc'. addWord h wc w = Some (r, wc') \<and>
                  totalWordCount wc' = int32 (totalWordCount wc + 1) \<and>
                  (totalWordCount wc < 2147483647 \<longrightarrow>
                     totalWordCount wc' = totalWordCount wc + 1)) \<and>
         (\<exists>k wc'. getWordCount h wc w = Some k \<and> removeWord h wc w = Some wc' \<and>
                  totalWordCount wc' = int32 (totalWordCount wc - k) \<and>
                  (- 2147483648 \<le> totalWordCount wc - k \<and>
                   totalWordCount wc - k < 2147483648 \<longrightarrow>
                     totalWordCount wc' = totalWordCount wc - k))"
proof -
  let ?s = "sum_list (map wordCount (concat (wordTable wc)))"
  let ?l = "length (concat (wordTable wc))"
  from reachable_wellFormed [OF assms]
  have ok: "tableOk h (capacity wc) (wordTable wc)"
    and t: "totalWordCount wc = int32 ?s" and u: "uniqueWordCount wc = int32 (int ?l)"
    by (simp_all add: wellFormed_def countsOk_def)
  have te: "totalWordCount wc = ?s" if "- 2147483648 \<le> ?s \<and> ?s < 2147483648"
    unfolding t using that by (intro int32_id) simp_all
  have ue: "uniqueWordCount wc = int ?l" if "?l < 2147483648"
    unfolding u using that by (intro int32_id) simp_all
  have lo: "- 2147483648 \<le> totalWordCount wc" unfolding t by (rule int32_range)
  from addWord_spec [OF ok, of w] obtain r wc1 where
    a1: "addWord h wc w = Some (r, wc1)"
    and a2: "totalWordCount wc1 = int32 (totalWordCount wc + 1)"
    by blast
  have "totalWordCount wc1 = totalWordCount wc + 1" if "totalWordCount wc < 2147483647"
    unfolding a2 using lo that by (rule int32_succ)
  with a1 a2 have a: "\<exists>r wc'. addWord h wc w = Some (r, wc') \<and>
                  totalWordCount wc' = int32 (totalWordCount wc + 1) \<and>
                  (totalWordCount wc < 2147483647 \<longrightarrow>
                     totalWordCount wc' = totalWordCount wc + 1)"
    by blast
  let ?k = "case countMap wc w of None \<Rightarrow> 0 | Some k \<Rightarrow> k"
  from removeWord_spec [OF ok, of w] obtain wc2 where
    r1: "removeWord h wc w = Some wc2"
    and r2: "totalWordCount wc2 =
      (case countMap wc w of None \<Rightarrow> totalWordCount wc | Some k \<Rightarrow> int32 (totalWordCount wc - k))"
    by blast
  have g: "getWordCount h wc w = Some ?k" by (rule getWordCount_ok [OF ok])
  have "int32 (totalWordCount wc) = totalWordCount wc" unfolding t by (rule int32_idem)
  with r2 have r3: "totalWordCount wc2 = int32 (totalWordCount wc - ?k)"
    by (simp split: option.split)
  have "totalWordCount wc2 = totalWordCount wc - ?k"
    if "- 2147483648 \<le> totalWordCount wc - ?k \<and> totalWordCount wc - ?k < 2147483648"
    unfolding r3 using that by (intro int32_id) simp_all
  with g r1 r3 have r: "\<exists>k wc'. getWordCount h wc w = Some k \<and> removeWord h wc w = Some wc' \<and>
                  totalWordCount wc' = int32 (totalWordCount wc - k) \<and>
                  (- 2147483648 \<le> totalWordCount wc - k \<and>
                   totalWordCount wc - k < 2147483648 \<longrightarrow>
                     totalWordCount wc' = totalWordCount wc - k)"
    by blast
  from t u te ue a r show ?thesis by blast
qed

theorem counters_match_entries_int32_witness:
  "reachable sampleHash catDogCat \<and>
   - 2147483648 \<le> sum_list (map wordCount (concat (wordTable catDogCat))) \<and>
   sum_list (map wordCount (concat (wordTable catDogCat))) < 2147483648 \<and>
   length (concat (wordTable catDogCat)) < 2147483648 \<and>
   totalWordCount catDogCat = sum_list (map wordCount (concat (wordTable catDogCat))) \<and>
   uniqueWordCount catDogCat = int (length (concat (wordTable catDogCat))) \<and>
   (\<exists>k wc'. getWordCount sampleHash catDogCat ''cat'' = Some k \<and>
        removeWord sampleHash catDogCat ''cat'' = Some wc' \<and>
        totalWordCount wc' = int32 (totalWordCount catDogCat - k))"
proof -
  have b: "- 2147483648 \<le> sum_list (map wordCount (concat (wordTable catDogCat)))"
    "sum_list (map wordCount (concat (wordTable catDogCat))) < 2147483648"
    "length (concat (wordTable catDogCat)) < 2147483648"
    by (simp_all add: catDogCat_def)
  from counters_match_entries_int32 [OF reachable_catDogCat, of "''cat''"] b reachable_catDogCat
  show ?thesis by blast
qed

text \<open>
  The claim as the specification words it, the sum itself, fails once the sum passes
  \<open>2\<^sup>3\<^sup>1 - 1\<close>: after 2147483647 additions of \<open>a\<close> and one of \<open>b\<close> to a default-constructed
  table the two stored counts add up to 2147483648, and \<^verbatim>\<open>totalWordCount\<close> is -2147483648.
\<close>

theorem counters_match_entries_counterexample:
  "map_option totalWordCount
     (run sampleHash WordCounter_default (replicate 2147483647 (Add ''a'') @ [Add ''b'']))
     = Some (- 2147483648) \<and>
   map_option (sum_list \<circ> map wordCount \<circ> concat \<circ> wordTable)
     (run sampleHash WordCounter_default (replicate 2147483647 (Add ''a'') @ [Add ''b'']))
     = Some 2147483648"
proof -
  have n: "(2147483647 :: nat) = Suc 2147483646" by simp
  have i: "int32 (1 + int 2147483646) = 2147483647" by (simp add: int32_id)
  have r: "run sampleHash WordCounter_default (replicate 2147483647 (Add ''a'')) =
      Some (onlyA 2147483647)"
    unfolding n using run_default_a [of 2147483646] unfolding i .
  have a: "addWord sampleHash (onlyA 2147483647) ''b'' =
      Some (1, \<lparr>capacity = 11, totalWordCount = - 2147483648, uniqueWordCount = 2,
         wordTable = [[], [], [], [], [], [], [], [], [],
            [\<lparr>word = ''a'', wordCount = 2147483647\<rparr>], [\<lparr>word = ''b'', wordCount = 1\<rparr>]]\<rparr>)"
    by code_simp
  show ?thesis unfolding map_option_run_append r by (simp add: a)
qed

subsection \<open>Capacities\<close>

lemma resize_capacity: "resize h wc n = Some wc' \<Longrightarrow> capacity wc' = getValidCapacity n"
  by (auto simp: resize_def clear_def Let_def split: bind_splits)

text \<open>
  Claim C7. In every reachable table state the capacity is a member of the fixed, strictly
  ascending size sequence. Construction with a requested capacity sets the capacity to
  \<^verbatim>\<open>getValidCapacity\<close> of the request, which is the smallest member of the sequence that is at
  least the request, and the maximum of the sequence when the request exceeds it. Every
  \<^verbatim>\<open>resize\<close> leaves the capacity at \<^verbatim>\<open>getValidCapacity\<close> of its target.
\<close>

theorem capacity_in_size_sequence:
  "(reachable h wc \<longrightarrow> capacity wc \<in> set primes) \<and>
   sorted_wrt (<) primes \<and>
   (\<forall>p \<in> set primes. MIN_CAPACITY \<le> p \<and> p \<le> MAX_CAPACITY) \<and>
   MIN_CAPACITY \<in> set primes \<and> MAX_CAPACITY \<in> set primes \<and>
   capacity WordCounter_default = MIN_CAPACITY \<and>
   capacity (WordCounter_cap c) = getValidCapacity c \<and>
   getValidCapacity c \<in> set primes \<and>
   (c \<le> MAX_CAPACITY \<longrightarrow>
      c \<le> getValidCapacity c \<and> (\<forall>p \<in> set primes. c \<le> p \<longrightarrow> getValidCapacity c \<le> p)) \<and>
   (MAX_CAPACITY < c \<longrightarrow> getValidCapacity c = MAX_CAPACITY) \<and>
   (\<forall>wc'. resize h wc n = Some wc' \<longrightarrow> capacity wc' = getValidCapacity n)"
proof -
  have "capacity wc \<in> set primes" if "reachable h wc"
    using reachable_wellFormed [OF that] by (simp add: wellFormed_def tableOk_iff2)
  moreover have "\<forall>p \<in> set primes. MIN_CAPACITY \<le> p \<and> p \<le> MAX_CAPACITY"
    using primes_bounds by (simp add: MIN_CAPACITY_def MAX_CAPACITY_def)
  moreover have "c \<le> getValidCapacity c \<and> (\<forall>p \<in> set primes. c \<le> p \<longrightarrow> getValidCapacity c \<le> p)"
    if "c \<le> MAX_CAPACITY"
    using getValidCapacity_ge [OF that] getValidCapacity_least by blast
  moreover have "capacity WordCounter_default = MIN_CAPACITY"
    "capacity (WordCounter_cap c) = getValidCapacity c"
    by (simp_all add: WordCounter_default_def WordCounter_cap_def initialize_def)
  ultimately show ?thesis
    using primes_sorted MIN_CAPACITY_mem MAX_CAPACITY_mem getValidCapacity_mem [of c]
      getValidCapacity_max [of c] resize_capacity [of h wc n]
    by blast
qed

theorem capacity_in_size_sequence_witness:
  "reachable sampleHash catDogCat \<and> capacity catDogCat \<in> set primes \<and>
   capacity (WordCounter_cap 100) = 107 \<and> (100 :: int) \<le> MAX_CAPACITY \<and> 107 \<in> set primes \<and>
   getValidCapacity 1000000000 = MAX_CAPACITY \<and>
   (\<exists>wc'. resize sampleHash catDogCat 22 = Some wc' \<and> capacity wc' = 23)"
proof -
  have g: "getValidCapacity 100 = 107" "getValidCapacity 22 = 23" by code_simp+
  have m: "(100 :: int) \<le> MAX_CAPACITY" "MAX_CAPACITY < 1000000000"
    by (simp_all add: MAX_CAPACITY_def)
  obtain wc' where r: "resize sampleHash catDogCat 22 = Some wc'"
    using resize_ok [of sampleHash catDogCat 22] wellFormed_catDogCat
    by (auto simp: wellFormed_def)
  from capacity_in_size_sequence [of sampleHash catDogCat 100 22] g reachable_catDogCat
  have "capacity catDogCat \<in> set primes" "capacity (WordCounter_cap 100) = 107"
    "107 \<in> set primes"
    by auto
  moreover from capacity_in_size_sequence [of sampleHash catDogCat 1000000000 22] m r g
  have "getValidCapacity 1000000000 = MAX_CAPACITY" "capacity wc' = 23"
    by auto
  ultimately show ?thesis using reachable_catDogCat m r by blast
qed

subsection \<open>Removing twice\<close>

text \<open>
  Claim C9. In every well-formed table state and for every key, \<^verbatim>\<open>removeWord\<close> of a key
  that is not present returns with the whole table state unchanged; and the state after one
  \<^verbatim>\<open>removeWord\<close> of a key is left unchanged by a second \<^verbatim>\<open>removeWord\<close> of that key.
\<close>

theorem removeWord_idempotent:
  assumes "wellFormed h wc"
  shows "(getWordNode h wc w = Some None \<longrightarrow> removeWord h wc w = Some wc) \<and>
         (\<exists>wc'. removeWord h wc w = Some wc' \<and> removeWord h wc' w = Some wc')"
proof
  show "getWordNode h wc w = Some None \<longrightarrow> removeWord h wc w = Some wc"
    by (simp add: removeWord_def)
next
  from assms have ok: "tableOk h (capacity wc) (wordTable wc)" by (simp add: wellFormed_def)
  from removeWord_spec [OF ok, of w] obtain wc' where
    r: "removeWord h wc w = Some wc'" and ok': "tableOk h (capacity wc') (wordTable wc')"
    and cm: "countMap wc' = (countMap wc)(w := None)"
    by blast
  from cm have "countMap wc' w = None" by simp
  from removeWord_absent [OF ok' this] r
  show "\<exists>wc'. removeWord h wc w = Some wc' \<and> removeWord h wc' w = Some wc'" by blast
qed

theorem removeWord_idempotent_witness:
  "wellFormed sampleHash catDogCat \<and>
   getWordNode sampleHash catDogCat ''bird'' = Some None \<and>
   removeWord sampleHash catDogCat ''bird'' = Some catDogCat \<and>
   (\<exists>wc'. removeWord sampleHash catDogCat ''cat'' = Some wc' \<and>
          removeWord sampleHash wc' ''cat'' = Some wc')"
proof -
  have "getWordNode sampleHash catDogCat ''bird'' = Some None" by code_simp
  with removeWord_idempotent [OF wellFormed_catDogCat, of "''bird''"]
    removeWord_idempotent [OF wellFormed_catDogCat, of "''cat''"] wellFormed_catDogCat
  show ?thesis by blast
qed

subsection \<open>Array bounds\<close>

text \<open>
  Claim C10. In every reachable table state the capacity is positive and is the length of
  the bucket array, and the bucket index \<^verbatim>\<open>getBucket\<close> computes for any word, the hash
  reduced modulo the capacity, lies in \<open>[0, capacity)\<close>, so that the access to that
  bucket is inside the array. \<^verbatim>\<open>addWord\<close>, \<^verbatim>\<open>removeWord\<close>, \<^verbatim>\<open>getWordCount\<close> and \<^verbatim>\<open>resize\<close>
  all return normally: none of their array accesses is out of bounds.
\<close>

theorem bucket_accesses_in_bounds:
  assumes "reachable h wc"
  shows "0 < capacity wc \<and> int (length (wordTable wc)) = capacity wc \<and>
         (\<exists>b chain. getBucket h w (capacity wc) = Some b \<and> 0 \<le> b \<and> b < capacity wc \<and>
              b = uint (h w) mod capacity wc \<and> bucketAt (wordTable wc) b = Some chain) \<and>
         (\<exists>r. addWord h wc w = Some r) \<and>
         (\<exists>wc'. removeWord h wc w = Some wc') \<and>
         (\<exists>k. getWordCount h wc w = Some k) \<and>
         (\<exists>wc'. resize h wc n = Some wc')"
proof -
  from reachable_wellFormed [OF assms]
  have ok: "tableOk h (capacity wc) (wordTable wc)" by (simp add: wellFormed_def)
  then have c: "capacity wc \<in> set primes" and l: "length (wordTable wc) = nat (capacity wc)"
    by (simp_all add: tableOk_iff2)
  from primes_bounds [OF c] have p: "0 < capacity wc" by simp
  let ?b = "uint (h w) mod capacity wc"
  have "bucketAt (wordTable wc) ?b = Some (wordTable wc ! nat ?b)"
    using bucket_range [OF c, of h w] l by (intro bucketAt_Some) simp_all
  with getBucket_primes [OF c, of h w] bucket_range(1,2) [OF c, of h w]
  have b: "\<exists>b chain. getBucket h w (capacity wc) = Some b \<and> 0 \<le> b \<and> b < capacity wc \<and>
              b = uint (h w) mod capacity wc \<and> bucketAt (wordTable wc) b = Some chain"
    by blast
  from addWord_spec [OF ok, of w] have a: "\<exists>r. addWord h wc w = Some r" by blast
  from removeWord_spec [OF ok, of w] have r: "\<exists>wc'. removeWord h wc w = Some wc'" by blast
  from getWordCount_ok [OF ok, of w] have g: "\<exists>k. getWordCount h wc w = Some k" by blast
  from resize_ok [OF ok, of n] have z: "\<exists>wc'. resize h wc n = Some wc'" by blast
  from p l b a r g z show ?thesis by simp
qed

theorem bucket_accesses_in_bounds_witness:
  "reachable sampleHash catDogCat \<and>
   getBucket sampleHash ''cat'' (capacity catDogCat) = Some 10 \<and>
   bucketAt (wordTable catDogCat) 10 = Some [\<lparr>word = ''cat'', wordCount = 2\<rparr>] \<and>
   (\<exists>wc'. resize sampleHash catDogCat 5 = Some wc')"
proof -
  have "getBucket sampleHash ''cat'' (capacity catDogCat) = Some 10"
    "bucketAt (wordTable catDogCat) 10 = Some [\<lparr>word = ''cat'', wordCount = 2\<rparr>]"
    by code_simp+
  with bucket_accesses_in_bounds [OF reachable_catDogCat, of "''cat''" 5] reachable_catDogCat
  show ?thesis by blast
qed

subsection \<open>Load factor\<close>

lemma lf_le_max:
  assumes "0 < c"
  shows "(of_int a / of_int c \<le> MAX_LOAD_FACTOR) = (4 * a \<le> 3 * c)"
proof -
  have "(of_int a / of_int c \<le> (3 / 4 :: rat)) = ((of_int (4 * a) :: rat) \<le> of_int (3 * c))"
    using assms by (simp add: field_simps)
  then show ?thesis unfolding MAX_LOAD_FACTOR_def by (simp only: of_int_le_iff)
qed

lemma lf_gt_max:
  assumes "0 < c"
  shows "(MAX_LOAD_FACTOR < of_int a / of_int c) = (3 * c < 4 * a)"
  using lf_le_max [OF assms, of a] by (simp add: not_le [symmetric])

lemma lf_lt_min:
  assumes "0 < c"
  shows "(of_int a / of_int c < MIN_LOAD_FACTOR) = (10 * a < 3 * c)"
proof -
  have "(of_int a / of_int c < (3 / 10 :: rat)) = ((of_int (10 * a) :: rat) < of_int (3 * c))"
    using assms by (simp add: field_simps)
  then show ?thesis unfolding MIN_LOAD_FACTOR_def by (simp only: of_int_less_iff)
qed

lemma lf_ge_min:
  assumes "0 < c"
  shows "(MIN_LOAD_FACTOR \<le> of_int a / of_int c) = (3 * c \<le> 10 * a)"
  using lf_lt_min [OF assms, of a] by (simp add: not_less [symmetric])

lemma grow_table:
  "list_all (\<lambda>c. c < MAX_CAPACITY \<longrightarrow>
      3 * getValidCapacity (c * 2) \<le> 10 * (3 * c div 4 + 1) \<and>
      4 * (3 * c div 4 + 1) \<le> 3 * getValidCapacity (c * 2) \<and>
      c < getValidCapacity (c * 2)) primes"
  by code_simp

lemma shrink_table:
  "list_all (\<lambda>c. MIN_CAPACITY < c \<longrightarrow>
      (getValidCapacity (c div 2) = MIN_CAPACITY \<or>
         3 * getValidCapacity (c div 2) \<le> 10 * ((3 * c - 1) div 10)) \<and>
      4 * ((3 * c - 1) div 10) \<le> 3 * getValidCapacity (c div 2) \<and>
      getValidCapacity (c div 2) < c) primes"
  by code_simp

lemma grow_bounds:
  assumes "c \<in> set primes" "c < MAX_CAPACITY" "4 * u \<le> 3 * c" "3 * c < 4 * (u + 1)"
  shows "3 * getValidCapacity (c * 2) \<le> 10 * (u + 1)" "4 * (u + 1) \<le> 3 * getValidCapacity (c * 2)"
proof -
  from assms(3,4) have u: "u = 3 * c div 4" by presburger
  from grow_table assms(1,2)
  have "3 * getValidCapacity (c * 2) \<le> 10 * (3 * c div 4 + 1) \<and>
      4 * (3 * c div 4 + 1) \<le> 3 * getValidCapacity (c * 2)"
    unfolding list_all_iff by blast
  then show "3 * getValidCapacity (c * 2) \<le> 10 * (u + 1)"
    "4 * (u + 1) \<le> 3 * getValidCapacity (c * 2)"
    unfolding u by simp_all
qed

lemma shrink_bounds:
  assumes "c \<in> set primes" "MIN_CAPACITY < c" "3 * c \<le> 10 * u" "10 * (u - 1) < 3 * c"
  shows "getValidCapacity (c div 2) = MIN_CAPACITY \<or> 3 * getValidCapacity (c div 2) \<le> 10 * (u - 1)"
    "4 * (u - 1) \<le> 3 * getValidCapacity (c div 2)"
proof -
  from assms(3,4) have u: "u - 1 = (3 * c - 1) div 10" by presburger
  from shrink_table assms(1,2)
  have "(getValidCapacity (c div 2) = MIN_CAPACITY \<or>
         3 * getValidCapacity (c div 2) \<le> 10 * ((3 * c - 1) div 10)) \<and>
      4 * ((3 * c - 1) div 10) \<le> 3 * getValidCapacity (c div 2)"
    unfolding list_all_iff by blast
  then show "getValidCapacity (c div 2) = MIN_CAPACITY \<or> 3 * getValidCapacity (c div 2) \<le> 10 * (u - 1)"
    "4 * (u - 1) \<le> 3 * getValidCapacity (c div 2)"
    unfolding u by simp_all
qed

lemma push_up_range:
  fixes u c :: int
  assumes "4 * u \<le> 3 * c" "3 * c < 4 * (u + 1)" "0 < c" "c \<le> 993815743"
  shows "int32 (u + 1) = u + 1"
proof (rule int32_id)
  from assms(2,3) have "0 < 4 * (u + 1)" by (rule_tac less_trans [of _ "3 * c"]) simp_all
  then show "- 2147483648 \<le> u + 1" by simp
  from assms(4) have "3 * c \<le> 3 * 993815743" by (simp only: mult_le_cancel_left_pos)
  with assms(1) have "4 * u \<le> 3 * 993815743" by (rule order_trans)
  then show "u + 1 < 2147483648" by simp
qed

lemma push_down_range:
  fixes u c :: int
  assumes "3 * c \<le> 10 * u" "10 * (u - 1) < 3 * c" "0 < c" "c \<le> 993815743"
  shows "int32 (u - 1) = u - 1"
proof (rule int32_id)
  from assms(3) have "0 < 3 * c" by simp
  from this assms(1) have "0 < 10 * u" by (rule less_le_trans)
  then show "- 2147483648 \<le> u - 1" by simp
  from assms(4) have "3 * c \<le> 3 * 993815743" by (simp only: mult_le_cancel_left_pos)
  with assms(2) have "10 * (u - 1) < 3 * 993815743" by (rule less_le_trans)
  then show "u - 1 < 2147483648" by simp
qed

lemma below_max_range:
  fixes u c :: int
  assumes "- 2147483648 \<le> u" "4 * (u + 1) \<le> 3 * c" "c \<le> 993815743"
  shows "int32 (u + 1) = u + 1"
proof (rule int32_id)
  from assms(1) show "- 2147483648 \<le> u + 1" by simp
  from assms(3) have "3 * c \<le> 3 * 993815743" by (simp only: mult_le_cancel_left_pos)
  with assms(2) have "4 * (u + 1) \<le> 3 * 993815743" by (rule order_trans)
  then show "u + 1 < 2147483648" by simp
qed

lemma wellFormed_unique_range:
  assumes "wellFormed h wc"
  shows "- 2147483648 \<le> uniqueWordCount wc" "uniqueWordCount wc < 2147483648"
  using assms int32_range by (simp_all add: wellFormed_def countsOk_def)

lemma run_eightWords:
  "run sampleHash WordCounter_default
     [Add ''a'', Add ''b'', Add ''c'', Add ''d'', Add ''e'', Add ''f'', Add ''g'', Add ''h'']
   = Some eightWords"
  by code_simp

lemma run_sevenWords:
  "run sampleHash eightWords [Add ''i'', Remove ''a'', Remove ''b''] = Some sevenWords"
  by code_simp

lemma reachable_eightWords: "reachable sampleHash eightWords"
  using reachable_run [OF r_default run_eightWords] .

lemma reachable_sevenWords: "reachable sampleHash sevenWords"
  using reachable_run [OF reachable_eightWords run_sevenWords] .

lemma wellFormed_eightWords: "wellFormed sampleHash eightWords"
  using reachable_eightWords by (rule reachable_wellFormed)

lemma wellFormed_sevenWords: "wellFormed sampleHash sevenWords"
  using reachable_sevenWords by (rule reachable_wellFormed)

text \<open>
  Claim C4. Take a well-formed table state. If \<^verbatim>\<open>addWord\<close> of an absent word pushes the load
  factor from at most \<^verbatim>\<open>MAX_LOAD_FACTOR\<close> to above it, then when the call returns the table
  has been resized to \<^verbatim>\<open>getValidCapacity\<close> of twice the capacity and the load factor is
  within \<open>[MIN_LOAD_FACTOR, MAX_LOAD_FACTOR]\<close> again, except when the capacity already is
  the maximum of the size sequence. If \<^verbatim>\<open>removeWord\<close> of a present word pushes the load factor
  from at least \<^verbatim>\<open>MIN_LOAD_FACTOR\<close> to below it, then when the call returns the table has been
  resized (when above the minimal capacity) and the load factor is within the bounds again,
  except when the capacity on return is the minimum of the size sequence, so that only a
  capacity below the minimum could restore the bound. In both cases the state on return is
  well-formed for the capacity it reports: the bucket array has that many buckets, every entry
  sits in the bucket its word hashes to under that capacity, and the entries are those from
  before the call with the word added, with count 1, or removed.
\<close>

theorem load_factor_restored_after_push:
  assumes "wellFormed h wc"
  shows
   "(getWordNode h wc w = Some None \<and> getLoadFactor wc \<le> MAX_LOAD_FACTOR \<and>
     MAX_LOAD_FACTOR < of_int (uniqueWordCount wc + 1) / of_int (capacity wc) \<longrightarrow>
       (\<exists>r wc'. addWord h wc w = Some (r, wc') \<and>
          wellFormed h wc' \<and> int (length (wordTable wc')) = capacity wc' \<and>
          countMap wc' = (countMap wc)(w \<mapsto> 1) \<and>
          uniqueWordCount wc' = uniqueWordCount wc + 1 \<and>
          (capacity wc < MAX_CAPACITY \<longrightarrow>
             capacity wc' = getValidCapacity (capacity wc * 2) \<and> loadFactorInBounds wc') \<and>
          (\<not> capacity wc < MAX_CAPACITY \<longrightarrow>
             capacity wc' = MAX_CAPACITY \<and> MAX_LOAD_FACTOR < getLoadFactor wc'))) \<and>
    (getWordNode h wc w \<noteq> Some None \<and> MIN_LOAD_FACTOR \<le> getLoadFactor wc \<and>
     of_int (uniqueWordCount wc - 1) / of_int (capacity wc) < MIN_LOAD_FACTOR \<longrightarrow>
       (\<exists>wc'. removeWord h wc w = Some wc' \<and>
          wellFormed h wc' \<and> int (length (wordTable wc')) = capacity wc' \<and>
          countMap wc' = (countMap wc)(w := None) \<and>
          uniqueWordCount wc' = uniqueWordCount wc - 1 \<and>
          (MIN_CAPACITY < capacity wc \<longrightarrow> capacity wc' = getValidCapacity (capacity wc div 2)) \<and>
          (loadFactorInBounds wc' \<or>
           capacity wc' = MIN_CAPACITY \<and> getLoadFactor wc' < MIN_LOAD_FACTOR)))"
proof (intro conjI impI)
  from assms have ok: "tableOk h (capacity wc) (wordTable wc)" by (simp add: wellFormed_def)
  then have c: "capacity wc \<in> set primes" by (simp add: tableOk_iff2)
  from primes_bounds [OF c] have cp: "0 < capacity wc" "capacity wc \<le> MAX_CAPACITY"
    by (simp_all add: MAX_CAPACITY_def)
  let ?u = "uniqueWordCount wc" and ?c = "capacity wc"
  {
    assume a: "getWordNode h wc w = Some None \<and> getLoadFactor wc \<le> MAX_LOAD_FACTOR \<and>
       MAX_LOAD_FACTOR < of_int (?u + 1) / of_int ?c"
    then have new: "countMap wc w = None" using getWordNode_None_iff [OF ok] by simp
    from a have i: "4 * ?u \<le> 3 * ?c" "3 * ?c < 4 * (?u + 1)"
      using lf_le_max [OF cp(1), of ?u] lf_gt_max [OF cp(1), of "?u + 1"]
      by (simp_all add: getLoadFactor_def)
    have e32: "int32 (?u + 1) = ?u + 1"
      using i cp unfolding MAX_CAPACITY_def by (rule push_up_range)
    from addWord_spec [OF ok, of w, unfolded e32] a new obtain wc' where
      r: "addWord h wc w = Some (1, wc')" and u': "uniqueWordCount wc' = ?u + 1"
      and c': "capacity wc' = (if ?c < MAX_CAPACITY then getValidCapacity (?c * 2) else ?c)"
      and ok': "tableOk h (capacity wc') (wordTable wc')"
      and cm': "countMap wc' = (countMap wc)(w \<mapsto> 1)"
      by auto
    from wellFormed_addWord [OF assms r] have wf': "wellFormed h wc'" .
    from ok' have "capacity wc' \<in> set primes" and ln: "length (wordTable wc') = nat (capacity wc')"
      by (simp_all add: tableOk_iff2)
    from primes_bounds [OF this(1)] have cp': "0 < capacity wc'" by simp
    from ln cp' have ln': "int (length (wordTable wc')) = capacity wc'" by simp
    have grow: "capacity wc' = getValidCapacity (?c * 2) \<and> loadFactorInBounds wc'"
      if lt: "?c < MAX_CAPACITY"
    proof -
      from c' lt have e: "capacity wc' = getValidCapacity (?c * 2)" by simp
      from grow_bounds [OF c lt i] e
      have "3 * capacity wc' \<le> 10 * (?u + 1)" "4 * (?u + 1) \<le> 3 * capacity wc'" by simp_all
      then have "loadFactorInBounds wc'"
        unfolding loadFactorInBounds_def getLoadFactor_def u'
        using lf_ge_min [OF cp', of "?u + 1"] lf_le_max [OF cp', of "?u + 1"] by simp
      with e show ?thesis by simp
    qed
    have stay: "capacity wc' = MAX_CAPACITY \<and> MAX_LOAD_FACTOR < getLoadFactor wc'"
      if "\<not> ?c < MAX_CAPACITY"
    proof -
      from that cp(2) c' have e: "capacity wc' = ?c" "?c = MAX_CAPACITY" by simp_all
      with a u' show ?thesis by (simp add: getLoadFactor_def)
    qed
    from r wf' ln' cm' u' grow stay
    show "\<exists>r wc'. addWord h wc w = Some (r, wc') \<and>
          wellFormed h wc' \<and> int (length (wordTable wc')) = capacity wc' \<and>
          countMap wc' = (countMap wc)(w \<mapsto> 1) \<and>
          uniqueWordCount wc' = ?u + 1 \<and>
          (?c < MAX_CAPACITY \<longrightarrow>
             capacity wc' = getValidCapacity (?c * 2) \<and> loadFactorInBounds wc') \<and>
          (\<not> ?c < MAX_CAPACITY \<longrightarrow>
             capacity wc' = MAX_CAPACITY \<and> MAX_LOAD_FACTOR < getLoadFactor wc')"
      by blast
  }
  {
    assume a: "getWordNode h wc w \<noteq> Some None \<and> MIN_LOAD_FACTOR \<le> getLoadFactor wc \<and>
       of_int (?u - 1) / of_int ?c < MIN_LOAD_FACTOR"
    then have old: "countMap wc w \<noteq> None" using getWordNode_None_iff [OF ok] by simp
    from a have i: "3 * ?c \<le> 10 * ?u" "10 * (?u - 1) < 3 * ?c"
      using lf_ge_min [OF cp(1), of ?u] lf_lt_min [OF cp(1), of "?u - 1"]
      by (simp_all add: getLoadFactor_def)
    have e32: "int32 (?u - 1) = ?u - 1"
      using i cp unfolding MAX_CAPACITY_def by (rule push_down_range)
    from removeWord_spec [OF ok, of w, unfolded e32] a old obtain wc' where
      r: "removeWord h wc w = Some wc'" and u': "uniqueWordCount wc' = ?u - 1"
      and c': "capacity wc' = (if MIN_CAPACITY < ?c then getValidCapacity (?c div 2) else ?c)"
      and ok': "tableOk h (capacity wc') (wordTable wc')"
      and cm': "countMap wc' = (countMap wc)(w := None)"
      by auto
    from wellFormed_removeWord [OF assms r] have wf': "wellFormed h wc'" .
    from ok' have "capacity wc' \<in> set primes" and ln: "length (wordTable wc') = nat (capacity wc')"
      by (simp_all add: tableOk_iff2)
    from primes_bounds [OF this(1)] have cp': "0 < capacity wc'" by simp
    from ln cp' have ln': "int (length (wordTable wc')) = capacity wc'" by simp
    have fin: "loadFactorInBounds wc' \<or>
           capacity wc' = MIN_CAPACITY \<and> getLoadFactor wc' < MIN_LOAD_FACTOR"
    proof (cases "MIN_CAPACITY < ?c")
      case True
      with c' have e: "capacity wc' = getValidCapacity (?c div 2)" by simp
      from shrink_bounds [OF c True i] e
      have s: "capacity wc' = MIN_CAPACITY \<or> 3 * capacity wc' \<le> 10 * (?u - 1)"
        "4 * (?u - 1) \<le> 3 * capacity wc'" by simp_all
      have up: "getLoadFactor wc' \<le> MAX_LOAD_FACTOR"
        unfolding getLoadFactor_def u' using lf_le_max [OF cp', of "?u - 1"] s(2) by simp
      show ?thesis
      proof (cases "MIN_LOAD_FACTOR \<le> getLoadFactor wc'")
        case True
        with up show ?thesis by (simp add: loadFactorInBounds_def)
      next
        case False
        then have "\<not> 3 * capacity wc' \<le> 10 * (?u - 1)"
          unfolding getLoadFactor_def u' using lf_ge_min [OF cp', of "?u - 1"] by simp
        with s(1) False show ?thesis by simp
      qed
    next
      case False
      with c' primes_bounds [OF c] have e: "capacity wc' = ?c" "?c = MIN_CAPACITY"
        by (simp_all add: MIN_CAPACITY_def)
      with a u' show ?thesis by (simp add: getLoadFactor_def)
    qed
    from r wf' ln' cm' u' c' fin
    show "\<exists>wc'. removeWord h wc w = Some wc' \<and>
          wellFormed h wc' \<and> int (length (wordTable wc')) = capacity wc' \<and>
          countMap wc' = (countMap wc)(w := None) \<and>
          uniqueWordCount wc' = ?u - 1 \<and>
          (MIN_CAPACITY < ?c \<longrightarrow> capacity wc' = getValidCapacity (?c div 2)) \<and>
          (loadFactorInBounds wc' \<or>
           capacity wc' = MIN_CAPACITY \<and> getLoadFactor wc' < MIN_LOAD_FACTOR)"
      by auto
  }
qed

theorem load_factor_restored_after_push_witness:
  "wellFormed sampleHash eightWords \<and> wellFormed sampleHash sevenWords \<and>
   getWordNode sampleHash eightWords ''i'' = Some None \<and>
   getLoadFactor eightWords \<le> MAX_LOAD_FACTOR \<and>
   MAX_LOAD_FACTOR < of_int (uniqueWordCount eightWords + 1) / of_int (capacity eightWords) \<and>
   capacity eightWords < MAX_CAPACITY \<and>
   (\<exists>r wc'. addWord sampleHash eightWords ''i'' = Some (r, wc') \<and> capacity wc' = 23 \<and>
       int (length (wordTable wc')) = 23 \<and> wellFormed sampleHash wc' \<and>
       loadFactorInBounds wc') \<and>
   getWordNode sampleHash sevenWords ''c'' = Some (Some (7, 0)) \<and>
   MIN_LOAD_FACTOR \<le> getLoadFactor sevenWords \<and>
   of_int (uniqueWordCount sevenWords - 1) / of_int (capacity sevenWords) < MIN_LOAD_FACTOR \<and>
   (\<exists>wc'. removeWord sampleHash sevenWords ''c'' = Some wc' \<and> capacity wc' = 11 \<and>
       getLoadFactor wc' = 6 / 11)"
proof -
  have e: "getWordNode sampleHash eightWords ''i'' = Some None"
    "getWordNode sampleHash sevenWords ''c'' = Some (Some (7, 0))"
    by code_simp+
  have l: "getLoadFactor eightWords \<le> MAX_LOAD_FACTOR"
    "MAX_LOAD_FACTOR < of_int (uniqueWordCount eightWords + 1) / of_int (capacity eightWords)"
    "capacity eightWords < MAX_CAPACITY"
    "MIN_LOAD_FACTOR \<le> getLoadFactor sevenWords"
    "of_int (uniqueWordCount sevenWords - 1) / of_int (capacity sevenWords) < MIN_LOAD_FACTOR"
    "MIN_CAPACITY < capacity sevenWords"
    by (simp_all add: getLoadFactor_def eightWords_def sevenWords_def MAX_LOAD_FACTOR_def
        MIN_LOAD_FACTOR_def MAX_CAPACITY_def MIN_CAPACITY_def)
  have g: "getValidCapacity (capacity eightWords * 2) = 23"
    "getValidCapacity (capacity sevenWords div 2) = 11"
    by code_simp+
  from load_factor_restored_after_push [OF wellFormed_eightWords, of "''i''"] e l g
  have a: "\<exists>r wc'. addWord sampleHash eightWords ''i'' = Some (r, wc') \<and> capacity wc' = 23 \<and>
       int (length (wordTable wc')) = 23 \<and> wellFormed sampleHash wc' \<and>
       loadFactorInBounds wc'"
    by auto
  from load_factor_restored_after_push [OF wellFormed_sevenWords, of "''c''"] e l g
  obtain wc' where r: "removeWord sampleHash sevenWords ''c'' = Some wc'" "capacity wc' = 11"
    "uniqueWordCount wc' = uniqueWordCount sevenWords - 1"
    by auto
  then have "getLoadFactor wc' = 6 / 11" by (simp add: getLoadFactor_def sevenWords_def)
  with r have b: "\<exists>wc'. removeWord sampleHash sevenWords ''c'' = Some wc' \<and> capacity wc' = 11 \<and>
       getLoadFactor wc' = 6 / 11" by blast
  from wellFormed_eightWords wellFormed_sevenWords e l a b show ?thesis by blast
qed

subsection \<open>Shrinking\<close>

lemma run_oneWordAt29: "run sampleHash (WordCounter_cap 29) [Add ''a''] = Some oneWordAt29"
  by code_simp

lemma reachable_oneWordAt29: "reachable sampleHash oneWordAt29"
  using reachable_run [OF r_cap run_oneWordAt29] .

lemma wellFormed_oneWordAt29: "wellFormed sampleHash oneWordAt29"
  using reachable_oneWordAt29 by (rule reachable_wellFormed)

lemma getWordCount_other:
  assumes "tableOk h (capacity wc) (wordTable wc)" "tableOk h (capacity wc') (wordTable wc')"
    and "countMap wc' key = countMap wc key"
  shows "getWordCount h wc' key = getWordCount h wc key"
  unfolding getWordCount_ok [OF assms(1)] getWordCount_ok [OF assms(2)] assms(3) ..

text \<open>
  Claim C5, as the code has it. In a well-formed table state, when \<^verbatim>\<open>removeWord\<close> removes a
  present word, the load factor after the removal (of the decremented 32-bit
  \<^verbatim>\<open>uniqueWordCount\<close>) is below \<^verbatim>\<open>MIN_LOAD_FACTOR\<close> and the
  capacity is above the minimum of the size sequence, the table shrinks to
  \<^verbatim>\<open>getValidCapacity (capacity / 2)\<close>: the smallest size of the sequence that is at least half
  the capacity (the half rounded down), which is never below the minimum and always below the
  capacity. Every remaining entry is rehashed into the bucket of its word under the new
  capacity, with its count unchanged.
\<close>

theorem shrink_to_first_size_at_least_half:
  assumes "wellFormed h wc" and "getWordNode h wc w \<noteq> Some None"
    and "of_int (int32 (uniqueWordCount wc - 1)) / of_int (capacity wc) < MIN_LOAD_FACTOR"
    and "MIN_CAPACITY < capacity wc"
  shows "\<exists>wc'. removeWord h wc w = Some wc' \<and>
     capacity wc' = getValidCapacity (capacity wc div 2) \<and>
     capacity wc' \<in> set primes \<and> capacity wc div 2 \<le> capacity wc' \<and>
     (\<forall>p \<in> set primes. capacity wc div 2 \<le> p \<longrightarrow> capacity wc' \<le> p) \<and>
     MIN_CAPACITY \<le> capacity wc' \<and> capacity wc' < capacity wc \<and>
     wellFormed h wc' \<and> countMap wc' = (countMap wc)(w := None) \<and>
     getWordCount h wc' w = Some 0 \<and>
     (\<forall>key. key \<noteq> w \<longrightarrow> getWordCount h wc' key = getWordCount h wc key)"
proof -
  from assms(1) have ok: "tableOk h (capacity wc) (wordTable wc)" by (simp add: wellFormed_def)
  then have c: "capacity wc \<in> set primes" by (simp add: tableOk_iff2)
  from assms(2) have old: "countMap wc w \<noteq> None" using getWordNode_None_iff [OF ok] by simp
  from removeWord_spec [OF ok, of w] old assms(3,4) obtain wc' where
    r: "removeWord h wc w = Some wc'"
    and c': "capacity wc' = getValidCapacity (capacity wc div 2)"
    and ok': "tableOk h (capacity wc') (wordTable wc')"
    and cm: "countMap wc' = (countMap wc)(w := None)"
    by auto
  from wellFormed_removeWord [OF assms(1) r] have wf': "wellFormed h wc'" .
  have mem: "capacity wc' \<in> set primes" unfolding c' by (rule getValidCapacity_mem)
  have "capacity wc div 2 \<le> MAX_CAPACITY"
    using primes_bounds [OF c] unfolding MAX_CAPACITY_def by linarith
  from getValidCapacity_ge [OF this] have ge: "capacity wc div 2 \<le> capacity wc'"
    unfolding c' .
  have least: "\<forall>p \<in> set primes. capacity wc div 2 \<le> p \<longrightarrow> capacity wc' \<le> p"
    unfolding c' using getValidCapacity_least by blast
  have mn: "MIN_CAPACITY \<le> capacity wc'"
    using primes_bounds [OF mem] by (simp add: MIN_CAPACITY_def)
  have lt: "capacity wc' < capacity wc"
    unfolding c' using shrink_table c assms(4) unfolding list_all_iff by blast
  have z: "getWordCount h wc' w = Some 0"
    unfolding getWordCount_ok [OF ok'] cm by simp
  have oth: "\<forall>key. key \<noteq> w \<longrightarrow> getWordCount h wc' key = getWordCount h wc key"
    using getWordCount_other [OF ok ok'] cm by simp
  from r c' mem ge least mn lt wf' cm z oth show ?thesis by blast
qed

theorem shrink_to_first_size_at_least_half_witness:
  "wellFormed sampleHash sevenWords \<and>
   getWordNode sampleHash sevenWords ''c'' = Some (Some (7, 0)) \<and>
   of_int (int32 (uniqueWordCount sevenWords - 1)) / of_int (capacity sevenWords)
     < MIN_LOAD_FACTOR \<and>
   MIN_CAPACITY < capacity sevenWords \<and>
   (\<exists>wc'. removeWord sampleHash sevenWords ''c'' = Some wc' \<and> capacity wc' = 11 \<and>
      getWordCount sampleHash wc' ''c'' = Some 0 \<and>
      getWordCount sampleHash wc' ''d'' = Some 1)"
proof -
  have e: "getWordNode sampleHash sevenWords ''c'' = Some (Some (7, 0))"
    "getWordCount sampleHash sevenWords ''d'' = Some 1"
    "getValidCapacity (capacity sevenWords div 2) = 11"
    by code_simp+
  have l: "of_int (int32 (uniqueWordCount sevenWords - 1)) / of_int (capacity sevenWords)
      < MIN_LOAD_FACTOR"
    "MIN_CAPACITY < capacity sevenWords"
    by (simp_all add: sevenWords_def MIN_LOAD_FACTOR_def MIN_CAPACITY_def int32_id)
  have ne: "getWordNode sampleHash sevenWords ''c'' \<noteq> Some None" unfolding e(1) by simp
  from shrink_to_first_size_at_least_half [OF wellFormed_sevenWords ne l] e
  have "\<exists>wc'. removeWord sampleHash sevenWords ''c'' = Some wc' \<and> capacity wc' = 11 \<and>
      getWordCount sampleHash wc' ''c'' = Some 0 \<and>
      getWordCount sampleHash wc' ''d'' = Some 1"
    by auto
  with wellFormed_sevenWords e(1) l show ?thesis by blast
qed

text \<open>
  The claim as the specification words it, a shrink to a size that is at most half the
  current capacity, fails: the table of capacity 29 holding the one word \<open>a\<close> shrinks, when
  \<open>a\<close> is removed, to capacity 17, which is more than half of 29.
\<close>

theorem shrink_at_most_half_counterexample:
  "wellFormed sampleHash oneWordAt29 \<and> capacity oneWordAt29 = 29 \<and>
   MIN_CAPACITY < capacity oneWordAt29 \<and>
   getWordCount sampleHash oneWordAt29 ''a'' = Some 1 \<and>
   map_option getLoadFactor (removeWord sampleHash oneWordAt29 ''a'') = Some 0 \<and>
   0 < MIN_LOAD_FACTOR \<and>
   map_option capacity (removeWord sampleHash oneWordAt29 ''a'') = Some 17 \<and>
   \<not> (17 :: int) * 2 \<le> 29"
proof -
  have "getWordCount sampleHash oneWordAt29 ''a'' = Some 1"
    "map_option capacity (removeWord sampleHash oneWordAt29 ''a'') = Some 17"
    "map_option uniqueWordCount (removeWord sampleHash oneWordAt29 ''a'') = Some 0"
    by code_simp+
  moreover from this(3)
  have "map_option getLoadFactor (removeWord sampleHash oneWordAt29 ''a'') = Some 0"
    by (auto simp: getLoadFactor_def)
  moreover have "capacity oneWordAt29 = 29" "MIN_CAPACITY < capacity oneWordAt29"
    "0 < MIN_LOAD_FACTOR"
    by (simp_all add: oneWordAt29_def MIN_CAPACITY_def MIN_LOAD_FACTOR_def)
  ultimately show ?thesis using wellFormed_oneWordAt29 by simp
qed

subsection \<open>Growing\<close>


lemma run_adds_below_max:
  assumes "wellFormed h wc" "distinct ws" "\<forall>k \<in> set ws. countMap wc k = None"
    and "4 * (uniqueWordCount wc + int (length ws)) \<le> 3 * capacity wc"
  shows "\<exists>wc'. run h wc (map Add ws) = Some wc' \<and> wellFormed h wc' \<and>
     capacity wc' = capacity wc \<and>
     uniqueWordCount wc' = uniqueWordCount wc + int (length ws) \<and>
     (\<forall>k. countMap wc' k = (if k \<in> set ws then Some 1 else countMap wc k))"
  using assms
proof (induction ws arbitrary: wc)
  case Nil
  then show ?case by simp
next
  case (Cons w ws)
  from Cons.prems(1) have ok: "tableOk h (capacity wc) (wordTable wc)" by (simp add: wellFormed_def)
  then have c: "capacity wc \<in> set primes" by (simp add: tableOk_iff2)
  from primes_bounds [OF c] have cp: "0 < capacity wc" "capacity wc \<le> 993815743" by simp_all
  from Cons.prems(3) have new: "countMap wc w = None" by simp
  from Cons.prems(4) have le: "4 * (uniqueWordCount wc + 1) \<le> 3 * capacity wc" by simp
  then have nogrow: "\<not> MAX_LOAD_FACTOR < of_int (uniqueWordCount wc + 1) / of_int (capacity wc)"
    using lf_gt_max [OF cp(1), of "uniqueWordCount wc + 1"] by simp
  have e32: "int32 (uniqueWordCount wc + 1) = uniqueWordCount wc + 1"
    using wellFormed_unique_range(1) [OF Cons.prems(1)] le cp(2) by (rule below_max_range)
  from addWord_spec [OF ok, of w, unfolded e32] new nogrow obtain wc1 where
    a: "addWord h wc w = Some (1, wc1)" and cm: "countMap wc1 = (countMap wc)(w \<mapsto> 1)"
    and u: "uniqueWordCount wc1 = uniqueWordCount wc + 1"
    and c1: "capacity wc1 = capacity wc"
    by auto
  from wellFormed_addWord [OF Cons.prems(1) a] have wf1: "wellFormed h wc1" .
  have d: "distinct ws" "w \<notin> set ws" using Cons.prems(2) by simp_all
  have n1: "\<forall>k \<in> set ws. countMap wc1 k = None"
    using Cons.prems(3) d(2) unfolding cm by auto
  have b1: "4 * (uniqueWordCount wc1 + int (length ws)) \<le> 3 * capacity wc1"
    using Cons.prems(4) unfolding u c1 by simp
  from Cons.IH [OF wf1 d(1) n1 b1] obtain wc' where
    r: "run h wc1 (map Add ws) = Some wc'" and wf': "wellFormed h wc'"
    and c': "capacity wc' = capacity wc1"
    and u': "uniqueWordCount wc' = uniqueWordCount wc1 + int (length ws)"
    and cm': "\<forall>k. countMap wc' k = (if k \<in> set ws then Some 1 else countMap wc1 k)"
    by blast
  have "run h wc (map Add (w # ws)) = Some wc'" using a r by simp
  moreover have "uniqueWordCount wc' = uniqueWordCount wc + int (length (w # ws))"
    unfolding u' u by simp
  moreover have "\<forall>k. countMap wc' k = (if k \<in> set (w # ws) then Some 1 else countMap wc k)"
    using cm' unfolding cm by simp
  ultimately show ?case using wf' c' c1 by auto
qed

lemma run_adds_then_grow:
  assumes "wellFormed h wc" "distinct (ws @ [w])" "\<forall>k \<in> set (ws @ [w]). countMap wc k = None"
    and "4 * (uniqueWordCount wc + int (length ws)) \<le> 3 * capacity wc"
    and "3 * capacity wc < 4 * (uniqueWordCount wc + int (length ws) + 1)"
    and "capacity wc < MAX_CAPACITY"
  shows "\<exists>wc1 wc'. run h wc (map Add ws) = Some wc1 \<and> capacity wc1 = capacity wc \<and>
     uniqueWordCount wc1 = uniqueWordCount wc + int (length ws) \<and>
     run h wc (map Add ws @ [Add w]) = Some wc' \<and> wellFormed h wc' \<and>
     capacity wc' = getValidCapacity (capacity wc * 2) \<and>
     uniqueWordCount wc' = uniqueWordCount wc + int (length ws) + 1 \<and>
     (\<forall>k. countMap wc' k = (if k \<in> set (ws @ [w]) then Some 1 else countMap wc k))"
proof -
  have d: "distinct ws" "w \<notin> set ws" using assms(2) by simp_all
  have n: "\<forall>k \<in> set ws. countMap wc k = None" "countMap wc w = None" using assms(3) by simp_all
  from run_adds_below_max [OF assms(1) d(1) n(1) assms(4)] obtain wc1 where
    r1: "run h wc (map Add ws) = Some wc1" and wf1: "wellFormed h wc1"
    and c1: "capacity wc1 = capacity wc"
    and u1: "uniqueWordCount wc1 = uniqueWordCount wc + int (length ws)"
    and cm1: "\<forall>k. countMap wc1 k = (if k \<in> set ws then Some 1 else countMap wc k)"
    by blast
  from wf1 have ok1: "tableOk h (capacity wc1) (wordTable wc1)" by (simp add: wellFormed_def)
  then have "capacity wc1 \<in> set primes" by (simp add: tableOk_iff2)
  from primes_bounds [OF this] have cp: "0 < capacity wc1" "capacity wc1 \<le> 993815743"
    by simp_all
  have new: "countMap wc1 w = None" using cm1 d(2) n(2) by simp
  have grow: "MAX_LOAD_FACTOR < of_int (uniqueWordCount wc1 + 1) / of_int (capacity wc1)"
    using lf_gt_max [OF cp(1), of "uniqueWordCount wc1 + 1"] assms(5) unfolding u1 c1 by simp
  have e32: "int32 (uniqueWordCount wc1 + 1) = uniqueWordCount wc1 + 1"
    using assms(4,5) cp unfolding u1 c1 by (rule push_up_range)
  from addWord_spec [OF ok1, of w, unfolded e32] new grow assms(6) c1 obtain wc' where
    a: "addWord h wc1 w = Some (1, wc')" and cm: "countMap wc' = (countMap wc1)(w \<mapsto> 1)"
    and u: "uniqueWordCount wc' = uniqueWordCount wc1 + 1"
    and c': "capacity wc' = getValidCapacity (capacity wc * 2)"
    by auto
  from wellFormed_addWord [OF wf1 a] have wf': "wellFormed h wc'" .
  have "run h wc (map Add ws @ [Add w]) = Some wc'"
    unfolding run_append r1 using a by simp
  moreover have "\<forall>k. countMap wc' k = (if k \<in> set (ws @ [w]) then Some 1 else countMap wc k)"
    using cm1 unfolding cm by simp
  moreover have "uniqueWordCount wc' = uniqueWordCount wc + int (length ws) + 1"
    using u u1 by simp
  ultimately show ?thesis using r1 c1 u1 wf' c' by blast
qed

lemma div_mod_256_eq:
  fixes a b :: nat
  assumes "a div 256 = b div 256" "a mod 256 = b mod 256"
  shows "a = b"
proof -
  have "a = a div 256 * 256 + a mod 256" "b = b div 256 * 256 + b mod 256" by simp_all
  with assms show ?thesis by simp
qed

lemma key4_inj:
  assumes "i < 4294967296" "j < 4294967296" "key4 i = key4 j"
  shows "i = j"
proof -
  have e: "(char_of a :: char) = char_of b \<longleftrightarrow> a mod 256 = b mod 256" for a b :: nat
    by (simp add: char_of_eq_iff take_bit_eq_mod)
  from assms(3) have m: "i mod 256 = j mod 256" "i div 256 mod 256 = j div 256 mod 256"
    "i div 65536 mod 256 = j div 65536 mod 256" "i div 16777216 mod 256 = j div 16777216 mod 256"
    unfolding key4_def by (simp_all add: e)
  have d: "x div 65536 div 256 = x div 16777216" "x div 256 div 256 = x div 65536" for x :: nat
    by (simp_all add: div_mult2_eq [symmetric])
  have "i div 16777216 < 256" "j div 16777216 < 256" using assms(1,2) by simp_all
  with m(4) have "i div 16777216 = j div 16777216" by simp
  then have "i div 65536 div 256 = j div 65536 div 256" unfolding d .
  from div_mod_256_eq [OF this m(3)] have "i div 256 div 256 = j div 256 div 256" unfolding d .
  from div_mod_256_eq [OF this m(2)] have "i div 256 = j div 256" .
  from div_mod_256_eq [OF this m(1)] show ?thesis .
qed

lemma distinct_key4:
  assumes "n \<le> 4294967296"
  shows "distinct (map key4 [0..<n])"
proof -
  have "inj_on key4 (set [0..<n])"
    using assms by (intro inj_onI key4_inj) auto
  then show ?thesis by (simp add: distinct_map)
qed

lemma distinct_key4_snoc:
  assumes "n < 4294967296"
  shows "distinct (map key4 [0..<n] @ [key4 n])"
  using distinct_key4 [of "Suc n"] assms by simp

lemma run_key4_grow:
  assumes "n < 4294967296" "capacity (WordCounter_cap c0) = c"
    and "4 * int n \<le> 3 * c" "3 * c < 4 * (int n + 1)" "c < MAX_CAPACITY"
  shows "map_option capacity (run h (WordCounter_cap c0) (map Add (map key4 [0..<n]))) = Some c \<and>
     map_option uniqueWordCount (run h (WordCounter_cap c0) (map Add (map key4 [0..<n])))
       = Some (int n) \<and>
     map_option capacity
       (run h (WordCounter_cap c0) (map Add (map key4 [0..<n]) @ [Add (key4 n)]))
       = Some (getValidCapacity (c * 2)) \<and>
     map_option uniqueWordCount
       (run h (WordCounter_cap c0) (map Add (map key4 [0..<n]) @ [Add (key4 n)]))
       = Some (int n + 1)"
proof -
  let ?wc = "WordCounter_cap c0" and ?ws = "map key4 [0..<n]"
  have u0: "uniqueWordCount ?wc = 0" by (simp add: WordCounter_cap_def initialize_def)
  have e: "\<forall>k \<in> set (?ws @ [key4 n]). countMap ?wc k = None"
    by (simp add: WordCounter_cap_def countMap_initialize)
  have l: "int (length ?ws) = int n" by simp
  have b: "4 * (uniqueWordCount ?wc + int (length ?ws)) \<le> 3 * capacity ?wc"
    "3 * capacity ?wc < 4 * (uniqueWordCount ?wc + int (length ?ws) + 1)"
    "capacity ?wc < MAX_CAPACITY"
    unfolding u0 l assms(2) using assms(3-5) by simp_all
  have wf: "wellFormed h ?wc" by (rule wellFormed_cap)
  from run_adds_then_grow [OF wf distinct_key4_snoc [OF assms(1)] e b] obtain wc1 wc' where
    "run h ?wc (map Add ?ws) = Some wc1" "capacity wc1 = capacity ?wc"
    "uniqueWordCount wc1 = uniqueWordCount ?wc + int (length ?ws)"
    "run h ?wc (map Add ?ws @ [Add (key4 n)]) = Some wc'"
    "capacity wc' = getValidCapacity (capacity ?wc * 2)"
    "uniqueWordCount wc' = uniqueWordCount ?wc + int (length ?ws) + 1"
    by blast
  then show ?thesis unfolding u0 l assms(2) by simp
qed

lemma run_nine_distinct:
  assumes "distinct ws" "length ws = 9"
  shows "\<exists>wc9. run h WordCounter_default (map Add ws) = Some wc9 \<and> capacity wc9 = 23 \<and>
     (\<forall>k \<in> set ws. getWordCount h wc9 k = Some 1)"
proof -
  let ?wc = "WordCounter_default" and ?xs = "butlast ws" and ?x = "last ws"
  from assms(2) have ne: "ws \<noteq> []" by auto
  then have s: "?xs @ [?x] = ws" by simp
  have lx: "int (length ?xs) = 8" using assms(2) by simp
  have c0: "capacity ?wc = 11" "uniqueWordCount ?wc = 0"
    by (simp_all add: WordCounter_default_def initialize_def MIN_CAPACITY_def)
  have e: "\<forall>k \<in> set (?xs @ [?x]). countMap ?wc k = None"
    by (simp add: WordCounter_default_def countMap_initialize)
  have d: "distinct (?xs @ [?x])" unfolding s by (rule assms(1))
  have b: "4 * (uniqueWordCount ?wc + int (length ?xs)) \<le> 3 * capacity ?wc"
    "3 * capacity ?wc < 4 * (uniqueWordCount ?wc + int (length ?xs) + 1)"
    "capacity ?wc < MAX_CAPACITY"
    unfolding c0 lx by (simp_all add: MAX_CAPACITY_def)
  have g: "getValidCapacity (11 * 2) = 23" by code_simp
  have wf0: "wellFormed h ?wc" by (rule wellFormed_default)
  from run_adds_then_grow [OF wf0 d e b] obtain wc9 where
    r: "run h ?wc (map Add ?xs @ [Add ?x]) = Some wc9" and wf: "wellFormed h wc9"
    and c: "capacity wc9 = 23"
    and cm: "\<forall>k. countMap wc9 k = (if k \<in> set (?xs @ [?x]) then Some 1 else countMap ?wc k)"
    unfolding c0 g by blast
  have "map Add ?xs @ [Add ?x] = map Add (?xs @ [?x])" by simp
  then have r': "run h ?wc (map Add ws) = Some wc9" using r unfolding s by simp
  from wf have ok: "tableOk h (capacity wc9) (wordTable wc9)" by (simp add: wellFormed_def)
  have "\<forall>k \<in> set ws. getWordCount h wc9 k = Some 1"
    unfolding getWordCount_ok [OF ok] using cm unfolding s by simp
  with r' c show ?thesis by blast
qed

text \<open>
  Claim C6, as the code has it. In a well-formed table state, when \<^verbatim>\<open>addWord\<close> adds a new
  word, the load factor with the new entry (of the incremented 32-bit \<^verbatim>\<open>uniqueWordCount\<close>)
  exceeds \<^verbatim>\<open>MAX_LOAD_FACTOR\<close> and the capacity is
  below the maximum of the size sequence, the table grows to
  \<^verbatim>\<open>getValidCapacity (capacity * 2)\<close>: the smallest size of the sequence that is at least
  twice the capacity, or the maximum of the sequence when twice the capacity exceeds it.
  Every entry is rehashed into the bucket of its word under the new capacity, with its count
  unchanged. In particular, for any hash function, adding 9 distinct words to a
  default-constructed table (capacity 11) leaves capacity 23, and each of the 9 words has
  count 1.
\<close>

theorem grow_to_first_size_at_least_double:
  "(wellFormed h wc \<and> getWordNode h wc w = Some None \<and>
    MAX_LOAD_FACTOR < of_int (int32 (uniqueWordCount wc + 1)) / of_int (capacity wc) \<and>
    capacity wc < MAX_CAPACITY \<longrightarrow>
      (\<exists>r wc'. addWord h wc w = Some (r, wc') \<and>
         capacity wc' = getValidCapacity (capacity wc * 2) \<and>
         capacity wc' \<in> set primes \<and> capacity wc < capacity wc' \<and>
         (capacity wc * 2 \<le> MAX_CAPACITY \<longrightarrow>
            capacity wc * 2 \<le> capacity wc' \<and>
            (\<forall>p \<in> set primes. capacity wc * 2 \<le> p \<longrightarrow> capacity wc' \<le> p)) \<and>
         (MAX_CAPACITY < capacity wc * 2 \<longrightarrow> capacity wc' = MAX_CAPACITY) \<and>
         wellFormed h wc' \<and> countMap wc' = (countMap wc)(w \<mapsto> 1) \<and>
         getWordCount h wc' w = Some 1 \<and>
         (\<forall>key. key \<noteq> w \<longrightarrow> getWordCount h wc' key = getWordCount h wc key))) \<and>
   (distinct ws \<and> length ws = 9 \<longrightarrow>
      capacity WordCounter_default = 11 \<and>
      (\<exists>wc9. run h WordCounter_default (map Add ws) = Some wc9 \<and> capacity wc9 = 23 \<and>
         capacity WordCounter_default < capacity wc9 \<and>
         (\<forall>k \<in> set ws. getWordCount h wc9 k = Some 1)))"
proof (intro conjI impI)
  assume a: "wellFormed h wc \<and> getWordNode h wc w = Some None \<and>
    MAX_LOAD_FACTOR < of_int (int32 (uniqueWordCount wc + 1)) / of_int (capacity wc) \<and>
    capacity wc < MAX_CAPACITY"
  then have wf: "wellFormed h wc" and ok: "tableOk h (capacity wc) (wordTable wc)"
    by (simp_all add: wellFormed_def)
  then have c: "capacity wc \<in> set primes" by (simp add: tableOk_iff2)
  from a have new: "countMap wc w = None" using getWordNode_None_iff [OF ok] by simp
  from addWord_spec [OF ok, of w] new a obtain wc' where
    r: "addWord h wc w = Some (1, wc')"
    and c': "capacity wc' = getValidCapacity (capacity wc * 2)"
    and ok': "tableOk h (capacity wc') (wordTable wc')"
    and cm: "countMap wc' = (countMap wc)(w \<mapsto> 1)"
    by auto
  from wellFormed_addWord [OF wf r] have wf': "wellFormed h wc'" .
  have mem: "capacity wc' \<in> set primes" unfolding c' by (rule getValidCapacity_mem)
  have lt: "capacity wc < capacity wc'"
    unfolding c' using grow_table c a unfolding list_all_iff by blast
  have ge: "capacity wc * 2 \<le> capacity wc' \<and>
            (\<forall>p \<in> set primes. capacity wc * 2 \<le> p \<longrightarrow> capacity wc' \<le> p)"
    if "capacity wc * 2 \<le> MAX_CAPACITY"
    unfolding c' using getValidCapacity_ge [OF that] getValidCapacity_least by blast
  have mx: "capacity wc' = MAX_CAPACITY" if "MAX_CAPACITY < capacity wc * 2"
    unfolding c' using that by (rule getValidCapacity_max)
  have z: "getWordCount h wc' w = Some 1"
    unfolding getWordCount_ok [OF ok'] cm by simp
  have oth: "\<forall>key. key \<noteq> w \<longrightarrow> getWordCount h wc' key = getWordCount h wc key"
    using getWordCount_other [OF ok ok'] cm by simp
  from r c' mem lt ge mx wf' cm z oth
  show "\<exists>r wc'. addWord h wc w = Some (r, wc') \<and>
         capacity wc' = getValidCapacity (capacity wc * 2) \<and>
         capacity wc' \<in> set primes \<and> capacity wc < capacity wc' \<and>
         (capacity wc * 2 \<le> MAX_CAPACITY \<longrightarrow>
            capacity wc * 2 \<le> capacity wc' \<and>
            (\<forall>p \<in> set primes. capacity wc * 2 \<le> p \<longrightarrow> capacity wc' \<le> p)) \<and>
         (MAX_CAPACITY < capacity wc * 2 \<longrightarrow> capacity wc' = MAX_CAPACITY) \<and>
         wellFormed h wc' \<and> countMap wc' = (countMap wc)(w \<mapsto> 1) \<and>
         getWordCount h wc' w = Some 1 \<and>
         (\<forall>key. key \<noteq> w \<longrightarrow> getWordCount h wc' key = getWordCount h wc key)"
    by blast
next
  assume "distinct ws \<and> length ws = 9"
  show "capacity WordCounter_default = 11"
    by (simp add: WordCounter_default_def initialize_def MIN_CAPACITY_def)
next
  assume "distinct ws \<and> length ws = 9"
  then have "distinct ws" "length ws = 9" by simp_all
  from run_nine_distinct [OF this, of h]
  show "\<exists>wc9. run h WordCounter_default (map Add ws) = Some wc9 \<and> capacity wc9 = 23 \<and>
         capacity WordCounter_default < capacity wc9 \<and>
         (\<forall>k \<in> set ws. getWordCount h wc9 k = Some 1)"
    by (auto simp: WordCounter_default_def initialize_def MIN_CAPACITY_def)
qed

theorem grow_to_first_size_at_least_double_witness:
  "wellFormed sampleHash eightWords \<and> getWordNode sampleHash eightWords ''i'' = Some None \<and>
   MAX_LOAD_FACTOR
     < of_int (int32 (uniqueWordCount eightWords + 1)) / of_int (capacity eightWords) \<and>
   capacity eightWords < MAX_CAPACITY \<and>
   (\<exists>r wc'. addWord sampleHash eightWords ''i'' = Some (r, wc') \<and> capacity wc' = 23 \<and>
      getWordCount sampleHash wc' ''i'' = Some 1 \<and> getWordCount sampleHash wc' ''a'' = Some 1) \<and>
   distinct [''a'', ''b'', ''c'', ''d'', ''e'', ''f'', ''g'', ''h'', ''i''] \<and>
   (\<exists>wc9. run sampleHash WordCounter_default
            (map Add [''a'', ''b'', ''c'', ''d'', ''e'', ''f'', ''g'', ''h'', ''i'']) = Some wc9 \<and>
          capacity wc9 = 23 \<and> getWordCount sampleHash wc9 ''e'' = Some 1)"
proof -
  have e: "getWordNode sampleHash eightWords ''i'' = Some None"
    "getWordCount sampleHash eightWords ''a'' = Some 1"
    "getValidCapacity (capacity eightWords * 2) = 23"
    by code_simp+
  have l: "MAX_LOAD_FACTOR
      < of_int (int32 (uniqueWordCount eightWords + 1)) / of_int (capacity eightWords)"
    "capacity eightWords < MAX_CAPACITY"
    by (simp_all add: eightWords_def MAX_LOAD_FACTOR_def MAX_CAPACITY_def int32_id)
  have d: "distinct [''a'', ''b'', ''c'', ''d'', ''e'', ''f'', ''g'', ''h'', ''i'']" by simp
  from grow_to_first_size_at_least_double [of sampleHash eightWords "''i''"
      "[''a'', ''b'', ''c'', ''d'', ''e'', ''f'', ''g'', ''h'', ''i'']"]
    wellFormed_eightWords e l d
  have "(\<exists>r wc'. addWord sampleHash eightWords ''i'' = Some (r, wc') \<and> capacity wc' = 23 \<and>
      getWordCount sampleHash wc' ''i'' = Some 1 \<and> getWordCount sampleHash wc' ''a'' = Some 1)"
    "(\<exists>wc9. run sampleHash WordCounter_default
            (map Add [''a'', ''b'', ''c'', ''d'', ''e'', ''f'', ''g'', ''h'', ''i'']) = Some wc9 \<and>
          capacity wc9 = 23 \<and> getWordCount sampleHash wc9 ''e'' = Some 1)"
    by auto
  with wellFormed_eightWords e(1) l d show ?thesis by blast
qed

text \<open>
  The claim as the specification words it, growth to a size that is at least twice the
  current capacity whenever the capacity is below the maximum, fails at the top of the size
  sequence. Construct a table with requested capacity 500000000, which gives capacity
  575124829, and add the 431343621 distinct words \<open>key4 0\<close>, ..., \<open>key4 431343620\<close>. Adding one
  more new word makes the load factor exceed \<^verbatim>\<open>MAX_LOAD_FACTOR\<close>, and the table grows to
  993815743, the maximum, which is less than twice 575124829.
\<close>

theorem grow_at_least_double_counterexample:
  "map_option capacity
     (run sampleHash (WordCounter_cap 500000000) (map Add (map key4 [0..<431343621])))
     = Some 575124829 \<and>
   map_option uniqueWordCount
     (run sampleHash (WordCounter_cap 500000000) (map Add (map key4 [0..<431343621])))
     = Some 431343621 \<and>
   (575124829 :: int) < MAX_CAPACITY \<and>
   MAX_LOAD_FACTOR < 431343622 / 575124829 \<and>
   map_option capacity
     (run sampleHash (WordCounter_cap 500000000)
        (map Add (map key4 [0..<431343621]) @ [Add (key4 431343621)]))
     = Some 993815743 \<and>
   map_option uniqueWordCount
     (run sampleHash (WordCounter_cap 500000000)
        (map Add (map key4 [0..<431343621]) @ [Add (key4 431343621)]))
     = Some 431343622 \<and>
   \<not> (575124829 :: int) * 2 \<le> 993815743"
proof -
  have g: "getValidCapacity 500000000 = 575124829" by code_simp
  have c: "capacity (WordCounter_cap 500000000) = 575124829"
    by (simp add: WordCounter_cap_def initialize_def g)
  have m: "getValidCapacity (575124829 * 2) = 993815743"
    using getValidCapacity_max [of "575124829 * 2"] by (simp add: MAX_CAPACITY_def)
  have n: "(431343621 :: nat) < 4294967296" "4 * int 431343621 \<le> 3 * 575124829"
    "3 * 575124829 < 4 * (int 431343621 + 1)" "(575124829 :: int) < MAX_CAPACITY"
    by (simp_all add: MAX_CAPACITY_def)
  have l: "MAX_LOAD_FACTOR < 431343622 / 575124829" by (simp add: MAX_LOAD_FACTOR_def)
  have i: "int 431343621 = 431343621" "int 431343621 + 1 = 431343622" by simp_all
  from run_key4_grow [OF n(1) c n(2) n(3) n(4), of sampleHash] n(4) l
  show ?thesis unfolding m i by simp
qed

section \<open>The store refines the lists\<close>

subsection \<open>Paths\<close>

lemma pathTo_frame:
  "(\<forall>a \<in> set as. nodes s' a = nodes s a) \<Longrightarrow> pathTo s' p as q = pathTo s p as q"
  by (induction as arbitrary: p) (simp_all split: option.split)

lemma pathTo_next_frame:
  "(\<forall>a \<in> set as. map_option nextH (nodes s' a) = map_option nextH (nodes s a)) \<Longrightarrow>
     pathTo s' p as q = pathTo s p as q"
proof (induction as arbitrary: p)
  case Nil
  then show ?case by simp
next
  case (Cons a as)
  from Cons.prems have h: "map_option nextH (nodes s' a) = map_option nextH (nodes s a)"
    and t: "\<forall>a \<in> set as. map_option nextH (nodes s' a) = map_option nextH (nodes s a)"
    by simp_all
  show ?case
  proof (cases "nodes s a")
    case None
    with h have "nodes s' a = None" by simp
    with None show ?thesis by simp
  next
    case (Some n)
    with h obtain n' where n': "nodes s' a = Some n'" "nextH n' = nextH n" by auto
    with Some Cons.IH [OF t] show ?thesis by simp
  qed
qed

lemma pathTo_append:
  "pathTo s p (xs @ ys) q \<longleftrightarrow> (\<exists>m. pathTo s p xs m \<and> pathTo s m ys q)"
  by (induction xs arbitrary: p) (auto split: option.split)

lemma pathTo_live:
  "pathTo s p as q \<Longrightarrow> a \<in> set as \<Longrightarrow> \<exists>n. nodes s a = Some n"
  by (induction as arbitrary: p) (auto split: option.splits)

lemma absNode_Some: "nodes s a = Some n \<Longrightarrow> absNode s a = \<lparr>word = wordH n, wordCount = wordCountH n\<rparr>"
  by (simp add: absNode_def)

lemma absNode_frame: "nodes s' a = nodes s a \<Longrightarrow> absNode s' a = absNode s a"
  by (simp add: absNode_def)

lemma map_absNode_frame:
  "(\<forall>a \<in> set as. nodes s' a = nodes s a) \<Longrightarrow> map (absNode s') as = map (absNode s) as"
  by (simp add: absNode_def)

lemma absTable_frame:
  "(\<forall>a \<in> set (concat ass). nodes s' a = nodes s a) \<Longrightarrow> absTable s' ass = absTable s ass"
  unfolding absTable_def by (auto intro: absNode_frame)

lemma findNodeH_path:
  "pathTo s p as None \<Longrightarrow>
     findNodeH s w p = Some (map_option (nth as) (findNode w (map (absNode s) as)))"
proof (induction as arbitrary: p)
  case Nil
  then show ?case by (subst findNodeH.simps) simp
next
  case (Cons a as)
  then obtain n where n: "p = Some a" "nodes s a = Some n" "pathTo s (nextH n) as None"
    by (auto split: option.splits)
  show ?case
  proof (cases "wordH n = w")
    case True
    with n show ?thesis by (subst findNodeH.simps) (simp add: absNode_Some)
  next
    case False
    with n Cons.IH [OF n(3)] show ?thesis
      by (subst findNodeH.simps) (simp add: absNode_Some option.map_comp comp_def)
  qed
qed

subsection \<open>Tables\<close>

lemma tableRepD:
  assumes "tableRep s t ass"
  shows "\<exists>heads. arrays s t = Some heads \<and> length heads = length ass \<and>
           (\<forall>b < length ass. pathTo s (heads ! b) (ass ! b) None)"
  using assms unfolding tableRep_def by (auto split: option.splits)

lemma tableRepI:
  assumes "arrays s t = Some heads" "length heads = length ass"
    "\<forall>b < length ass. pathTo s (heads ! b) (ass ! b) None"
  shows "tableRep s t ass"
  using assms unfolding tableRep_def by simp

lemma tableRep_frame:
  assumes "tableRep s t ass" "arrays s' t = arrays s t"
    "\<forall>a \<in> set (concat ass). nodes s' a = nodes s a"
  shows "tableRep s' t ass"
proof -
  from tableRepD [OF assms(1)] obtain heads where h: "arrays s t = Some heads"
    "length heads = length ass" "\<forall>b < length ass. pathTo s (heads ! b) (ass ! b) None"
    by blast
  show ?thesis
  proof (rule tableRepI)
    show "arrays s' t = Some heads" using assms(2) h(1) by simp
    show "length heads = length ass" by (rule h(2))
    show "\<forall>b < length ass. pathTo s' (heads ! b) (ass ! b) None"
    proof (intro allI impI)
      fix b assume b: "b < length ass"
      then have "\<forall>a \<in> set (ass ! b). nodes s' a = nodes s a" using assms(3) by auto
      from pathTo_frame [OF this] h(3) b show "pathTo s' (heads ! b) (ass ! b) None" by simp
    qed
  qed
qed

lemma owns_frame:
  assumes "owns s obj t ass" "unchangedOutside s s' A t'"
    and "set (concat ass) \<inter> A = {}" "t \<noteq> t'"
  shows "owns s' obj t ass \<and> absTable s' ass = absTable s ass"
proof -
  from assms(1) have o: "wordTableH obj = Some t" "t < fresh s" "tableRep s t ass"
    "distinct (concat ass)" "\<forall>a \<in> set (concat ass). a < fresh s"
    by (simp_all add: owns_def)
  from assms(2) have u: "fresh s \<le> fresh s'"
    "\<And>a. a < fresh s \<Longrightarrow> a \<notin> A \<Longrightarrow> nodes s' a = nodes s a"
    "\<And>a. a < fresh s \<Longrightarrow> a \<noteq> t' \<Longrightarrow> arrays s' a = arrays s a"
    by (simp_all add: unchangedOutside_def)
  have n: "\<forall>a \<in> set (concat ass). nodes s' a = nodes s a"
    using o(5) assms(3) u(2) by blast
  have a: "arrays s' t = arrays s t" using o(2) assms(4) u(3) by blast
  from tableRep_frame [OF o(3) a n] have "tableRep s' t ass" .
  moreover have "\<forall>a \<in> set (concat ass). a < fresh s'" using o(5) u(1) by fastforce
  moreover have "t < fresh s'" using o(2) u(1) by simp
  ultimately show ?thesis using o(1,4) absTable_frame [OF n] by (simp add: owns_def)
qed

lemma readSlot_Some:
  "arrays s t = Some heads \<Longrightarrow> 0 \<le> b \<Longrightarrow> nat b < length heads \<Longrightarrow>
     readSlot s t b = Some (heads ! nat b)"
  by (simp add: readSlot_def)

lemma writeSlot_Some:
  "arrays s t = Some heads \<Longrightarrow> 0 \<le> b \<Longrightarrow> nat b < length heads \<Longrightarrow>
     writeSlot s t b v = Some (s\<lparr>arrays := (arrays s)(t \<mapsto> heads[nat b := v])\<rparr>)"
  by (simp add: writeSlot_def)

lemma absWordCounter_simps:
  "capacity (absWordCounter s obj ass) = capacityH obj"
  "totalWordCount (absWordCounter s obj ass) = totalWordCountH obj"
  "uniqueWordCount (absWordCounter s obj ass) = uniqueWordCountH obj"
  "wordTable (absWordCounter s obj ass) = absTable s ass"
  by (simp_all add: absWordCounter_def)

lemma absTable_nth: "b < length ass \<Longrightarrow> absTable s ass ! b = map (absNode s) (ass ! b)"
  by (simp add: absTable_def)

lemma length_absTable: "length (absTable s ass) = length ass"
  by (simp add: absTable_def)

lemma getWordNodeH_ok:
  assumes o: "owns s obj t ass" and c: "capacityH obj \<in> set primes"
    and l: "length ass = nat (capacityH obj)"
  shows "getWordNodeH h s obj w =
     Some (map_option (nth (ass ! nat (uint (h w) mod capacityH obj)))
        (findNode w (absTable s ass ! nat (uint (h w) mod capacityH obj))))"
proof -
  let ?b = "uint (h w) mod capacityH obj"
  from o have t: "wordTableH obj = Some t" and tr: "tableRep s t ass" by (simp_all add: owns_def)
  from tableRepD [OF tr] obtain heads where h: "arrays s t = Some heads"
    "length heads = length ass" "\<forall>b < length ass. pathTo s (heads ! b) (ass ! b) None"
    by blast
  have r: "0 \<le> ?b" "nat ?b < length ass" using bucket_range [OF c, of h w] l by simp_all
  from h(3) r(2) have p: "pathTo s (heads ! nat ?b) (ass ! nat ?b) None" by blast
  have rs: "readSlot s t ?b = Some (heads ! nat ?b)"
    using h(1) r h(2) by (intro readSlot_Some) simp_all
  show ?thesis
    using findNodeH_path [OF p, of w] r(2)
    by (simp add: getWordNodeH_def getBucket_primes [OF c] t rs absTable_nth)
qed

lemma getWordCountH_refines:
  assumes o: "owns s obj t ass" and ok: "tableOk h (capacityH obj) (absTable s ass)"
  shows "getWordCountH h s obj w = getWordCount h (absWordCounter s obj ass) w"
proof -
  let ?wc = "absWordCounter s obj ass"
  let ?b = "uint (h w) mod capacityH obj"
  from ok have c: "capacityH obj \<in> set primes" and l: "length ass = nat (capacityH obj)"
    by (simp_all add: tableOk_iff2 length_absTable)
  have ok': "tableOk h (capacity ?wc) (wordTable ?wc)" using ok by (simp add: absWordCounter_simps)
  have r: "0 \<le> ?b" "nat ?b < length ass" using bucket_range [OF c, of h w] l by simp_all
  from o have tr: "tableRep s t ass" by (simp add: owns_def)
  from tableRepD [OF tr] r(2) obtain heads where
    p: "pathTo s (heads ! nat ?b) (ass ! nat ?b) None" by blast
  have gv: "getWordNode h ?wc w =
      Some (map_option (Pair ?b) (findNode w (absTable s ass ! nat ?b)))"
    using getWordNode_ok [OF ok', of w] by (simp add: absWordCounter_simps)
  note gh = getWordNodeH_ok [OF o c l, of h w]
  show ?thesis
  proof (cases "findNode w (absTable s ass ! nat ?b)")
    case None
    then show ?thesis by (simp add: getWordCountH_def getWordCount_def gv gh)
  next
    case (Some i)
    from findNode_Some [OF Some] r(2) have i: "i < length (ass ! nat ?b)"
      by (simp add: absTable_nth)
    then have "ass ! nat ?b ! i \<in> set (ass ! nat ?b)" by simp
    from pathTo_live [OF p this] obtain n where n: "nodes s (ass ! nat ?b ! i) = Some n" by blast
    have v: "nodeAt (absTable s ass) (?b, i) = Some (absNode s (ass ! nat ?b ! i))"
      using r i by (subst nodeAt_Some) (simp_all add: length_absTable absTable_nth)
    show ?thesis
      using Some n v
      by (simp add: getWordCountH_def getWordCount_def gv gh absWordCounter_simps absNode_Some)
  qed
qed

subsection \<open>Putting a new node in front of a bucket\<close>

lemma set_concat_push:
  assumes "b < length xss"
  shows "set (concat (xss[b := a # xss ! b])) = insert a (set (concat xss))"
proof -
  have "set_mset (mset (concat (xss[b := a # xss ! b]))) = set_mset (add_mset a (mset (concat xss)))"
    by (simp only: mset_concat_update [OF assms])
  then show ?thesis by simp
qed

lemma distinct_concat_push:
  assumes "b < length xss" "distinct (concat xss)" "a \<notin> set (concat xss)"
  shows "distinct (concat (xss[b := a # xss ! b]))"
proof -
  have "mset (concat (xss[b := a # xss ! b])) = mset (a # concat xss)"
    by (simp add: mset_concat_update [OF assms(1)])
  from mset_eq_imp_distinct_iff [OF this] assms(2,3) show ?thesis by simp
qed

lemma push_node:
  assumes tr: "tableRep s t ass" and hd: "arrays s t = Some heads" and bl: "b < length ass"
    and fr: "\<forall>a \<in> set (concat ass). a < fresh s"
  shows "\<exists>s2. writeSlot (allocNode s w c (heads ! b)) t (int b) (Some (fresh s)) = Some s2 \<and>
     tableRep s2 t (ass[b := fresh s # ass ! b]) \<and>
     absTable s2 (ass[b := fresh s # ass ! b]) =
       (absTable s ass)[b := \<lparr>word = w, wordCount = c\<rparr> # absTable s ass ! b] \<and>
     fresh s2 = Suc (fresh s) \<and>
     (\<forall>a. a \<noteq> fresh s \<longrightarrow> nodes s2 a = nodes s a) \<and>
     (\<forall>t'. t' \<noteq> t \<longrightarrow> arrays s2 t' = arrays s t') \<and>
     arrays s2 t = Some (heads[b := Some (fresh s)]) \<and>
     nodes s2 (fresh s) = Some \<lparr>wordH = w, wordCountH = c, nextH = heads ! b\<rparr>"
proof -
  let ?a = "fresh s"
  let ?s1 = "allocNode s w c (heads ! b)"
  let ?s2 = "?s1\<lparr>arrays := (arrays ?s1)(t \<mapsto> heads[b := Some ?a])\<rparr>"
  let ?ass = "ass[b := ?a # ass ! b]"
  from tableRepD [OF tr] hd have hl: "length heads = length ass"
    and hp: "\<forall>b < length ass. pathTo s (heads ! b) (ass ! b) None"
    by auto
  have a1: "arrays ?s1 t = Some heads" using hd by (simp add: allocNode_def)
  have w: "writeSlot ?s1 t (int b) (Some ?a) = Some ?s2"
    using writeSlot_Some [OF a1, of "int b" "Some ?a"] bl hl by simp
  have n2: "nodes ?s2 = (nodes s)(?a \<mapsto> \<lparr>wordH = w, wordCountH = c, nextH = heads ! b\<rparr>)"
    by (simp add: allocNode_def)
  have old: "\<forall>a \<in> set (concat ass). nodes ?s2 a = nodes s a"
    using fr unfolding n2 by auto
  have oldb: "\<forall>a \<in> set (ass ! b'). nodes ?s2 a = nodes s a" if "b' < length ass" for b'
    using old that by auto
  have tr2: "tableRep ?s2 t ?ass"
  proof (rule tableRepI)
    show "arrays ?s2 t = Some (heads[b := Some ?a])" by simp
    show "length (heads[b := Some ?a]) = length ?ass" using hl by simp
    show "\<forall>b' < length ?ass. pathTo ?s2 (heads[b := Some ?a] ! b') (?ass ! b') None"
    proof (intro allI impI)
      fix b' assume b': "b' < length ?ass"
      show "pathTo ?s2 (heads[b := Some ?a] ! b') (?ass ! b') None"
      proof (cases "b' = b")
        case True
        have "pathTo ?s2 (heads ! b) (ass ! b) None"
          using pathTo_frame [OF oldb [OF bl]] hp bl by simp
        with True bl hl show ?thesis by (simp add: n2)
      next
        case False
        with b' have "pathTo ?s2 (heads ! b') (ass ! b') None"
          using pathTo_frame [OF oldb, of b'] hp by simp
        with False show ?thesis by simp
      qed
    qed
  qed
  have e1: "absTable ?s2 ass = absTable s ass" using absTable_frame [OF old] .
  have e2: "map (absNode ?s2) (ass ! b) = absTable s ass ! b"
    using map_absNode_frame [OF oldb [OF bl]] bl by (simp add: absTable_nth)
  have e3: "absNode ?s2 ?a = \<lparr>word = w, wordCount = c\<rparr>"
    by (simp add: absNode_def n2)
  have "absTable ?s2 ?ass = (absTable ?s2 ass)[b := map (absNode ?s2) (?a # ass ! b)]"
    unfolding absTable_def by (simp only: map_update)
  also have "\<dots> = (absTable s ass)[b := \<lparr>word = w, wordCount = c\<rparr> # absTable s ass ! b]"
    unfolding e1 list.map e2 e3 ..
  finally have at: "absTable ?s2 ?ass =
       (absTable s ass)[b := \<lparr>word = w, wordCount = c\<rparr> # absTable s ass ! b]" .
  have f: "fresh ?s2 = Suc ?a" by (simp add: allocNode_def)
  have no: "\<forall>a. a \<noteq> ?a \<longrightarrow> nodes ?s2 a = nodes s a" by (simp add: n2)
  have ar: "\<forall>t'. t' \<noteq> t \<longrightarrow> arrays ?s2 t' = arrays s t'" by (simp add: allocNode_def)
  have "arrays ?s2 t = Some (heads[b := Some ?a])" by simp
  moreover have "nodes ?s2 ?a = Some \<lparr>wordH = w, wordCountH = c, nextH = heads ! b\<rparr>"
    by (simp add: n2)
  ultimately show ?thesis using w tr2 at f no ar by blast
qed

subsection \<open>Rehashing\<close>

lemma grownFrom_refl: "grownFrom s s nt"
  by (simp add: grownFrom_def)

lemma grownFrom_trans: "grownFrom s s1 nt \<Longrightarrow> grownFrom s1 s2 nt \<Longrightarrow> grownFrom s s2 nt"
  unfolding grownFrom_def by (metis le_trans less_le_trans)

lemma grownFrom_path:
  assumes "grownFrom s s' nt" "\<forall>a \<in> set as. a < fresh s"
  shows "pathTo s' p as q = pathTo s p as q" "map (absNode s') as = map (absNode s) as"
proof -
  from assms have n: "\<forall>a \<in> set as. nodes s' a = nodes s a" by (simp add: grownFrom_def)
  show "pathTo s' p as q = pathTo s p as q" using pathTo_frame [OF n] .
  show "map (absNode s') as = map (absNode s) as" using map_absNode_frame [OF n] .
qed

lemma chainsOk_push:
  assumes ck: "chainsOk s t ass" and bl: "b < length ass"
  shows "\<exists>heads s2. arrays s t = Some heads \<and>
     writeSlot (allocNode s w c (heads ! b)) t (int b) (Some (fresh s)) = Some s2 \<and>
     chainsOk s2 t (ass[b := fresh s # ass ! b]) \<and>
     absTable s2 (ass[b := fresh s # ass ! b]) =
       (absTable s ass)[b := \<lparr>word = w, wordCount = c\<rparr> # absTable s ass ! b] \<and>
     fresh s2 = Suc (fresh s) \<and> grownFrom s s2 t \<and>
     arrays s2 t = Some (heads[b := Some (fresh s)]) \<and>
     nodes s2 (fresh s) = Some \<lparr>wordH = w, wordCountH = c, nextH = heads ! b\<rparr>"
proof -
  from ck have tr: "tableRep s t ass" and d: "distinct (concat ass)"
    and fr: "\<forall>a \<in> set (concat ass). a < fresh s"
    by (simp_all add: chainsOk_def)
  from tableRepD [OF tr] obtain heads where hd: "arrays s t = Some heads" by blast
  from push_node [OF tr hd bl fr, of w c] obtain s2 where
    p: "writeSlot (allocNode s w c (heads ! b)) t (int b) (Some (fresh s)) = Some s2"
    "tableRep s2 t (ass[b := fresh s # ass ! b])"
    "absTable s2 (ass[b := fresh s # ass ! b]) =
       (absTable s ass)[b := \<lparr>word = w, wordCount = c\<rparr> # absTable s ass ! b]"
    "fresh s2 = Suc (fresh s)"
    "\<forall>a. a \<noteq> fresh s \<longrightarrow> nodes s2 a = nodes s a"
    "\<forall>t'. t' \<noteq> t \<longrightarrow> arrays s2 t' = arrays s t'"
    "arrays s2 t = Some (heads[b := Some (fresh s)])"
    "nodes s2 (fresh s) = Some \<lparr>wordH = w, wordCountH = c, nextH = heads ! b\<rparr>"
    by blast
  have nf: "fresh s \<notin> set (concat ass)" using fr by auto
  have d2: "distinct (concat (ass[b := fresh s # ass ! b]))"
    using distinct_concat_push [OF bl d nf] .
  have f2: "\<forall>a \<in> set (concat (ass[b := fresh s # ass ! b])). a < fresh s2"
    unfolding set_concat_push [OF bl] p(4) using fr by (auto intro: less_SucI)
  have g: "grownFrom s s2 t" using p(4,5,6) by (simp add: grownFrom_def)
  from p(2) d2 f2 have "chainsOk s2 t (ass[b := fresh s # ass ! b])" by (simp add: chainsOk_def)
  with hd p(1,3,4,7,8) g show ?thesis by blast
qed

lemma rehashChainH_refines:
  assumes c: "newCap \<in> set primes"
  shows "pathTo s cur as None \<Longrightarrow> \<forall>a \<in> set as. a < fresh s \<Longrightarrow> chainsOk s nt nass \<Longrightarrow>
     length nass = nat newCap \<Longrightarrow>
     \<exists>s' nass'. rehashChainH h newCap nt cur s = Some s' \<and>
       rehashChain h newCap (map (absNode s) as) (absTable s nass) = Some (absTable s' nass') \<and>
       chainsOk s' nt nass' \<and> length nass' = nat newCap \<and> grownFrom s s' nt \<and>
       set (concat nass') \<subseteq> set (concat nass) \<union> {a. fresh s \<le> a}"
proof (induction as arbitrary: cur s nass)
  case Nil
  then have "cur = None" by simp
  then have "rehashChainH h newCap nt cur s = Some s" by (subst rehashChainH.simps) simp
  with Nil show ?case using grownFrom_refl by fastforce
next
  case (Cons a as)
  from Cons.prems(1) obtain n where n: "cur = Some a" "nodes s a = Some n"
    "pathTo s (nextH n) as None"
    by (auto split: option.splits)
  let ?b = "uint (h (wordH n)) mod newCap"
  have r: "0 \<le> ?b" "nat ?b < length nass"
    using bucket_range [OF c, of h "wordH n"] Cons.prems(4) by simp_all
  from chainsOk_push [OF Cons.prems(3) r(2), of "wordH n" "wordCountH n"] obtain heads s2 where
    hd: "arrays s nt = Some heads"
    and w: "writeSlot (allocNode s (wordH n) (wordCountH n) (heads ! nat ?b)) nt (int (nat ?b))
              (Some (fresh s)) = Some s2"
    and ck2: "chainsOk s2 nt (nass[nat ?b := fresh s # nass ! nat ?b])"
    and at: "absTable s2 (nass[nat ?b := fresh s # nass ! nat ?b]) =
       (absTable s nass)[nat ?b := \<lparr>word = wordH n, wordCount = wordCountH n\<rparr> #
           absTable s nass ! nat ?b]"
    and f2: "fresh s2 = Suc (fresh s)" and g: "grownFrom s s2 nt"
    by blast
  let ?nass2 = "nass[nat ?b := fresh s # nass ! nat ?b]"
  from tableRepD hd Cons.prems(3) have hl: "length heads = length nass"
    unfolding chainsOk_def by fastforce
  have rs: "readSlot s nt ?b = Some (heads ! nat ?b)"
    using hd r hl by (intro readSlot_Some) simp_all
  have ib: "int (nat ?b) = ?b" using r(1) by simp
  have w': "writeSlot (allocNode s (wordH n) (wordCountH n) (heads ! nat ?b)) nt ?b
              (Some (fresh s)) = Some s2"
    using w unfolding ib .
  have stepH: "rehashChainH h newCap nt cur s = rehashChainH h newCap nt (nextH n) s2"
    by (subst rehashChainH.simps) (simp add: n(1,2) getBucket_primes [OF c] rs w')
  have lt: "\<forall>x \<in> set as. x < fresh s" using Cons.prems(2) by simp
  have p2: "pathTo s2 (nextH n) as None" using grownFrom_path(1) [OF g lt] n(3) by simp
  have lt2: "\<forall>x \<in> set as. x < fresh s2" using lt f2 by auto
  have l2: "length ?nass2 = nat newCap" using Cons.prems(4) by simp
  from Cons.IH [OF p2 lt2 ck2 l2] obtain s' nass' where
    ih: "rehashChainH h newCap nt (nextH n) s2 = Some s'"
    "rehashChain h newCap (map (absNode s2) as) (absTable s2 ?nass2) = Some (absTable s' nass')"
    "chainsOk s' nt nass'" "length nass' = nat newCap" "grownFrom s2 s' nt"
    "set (concat nass') \<subseteq> set (concat ?nass2) \<union> {a. fresh s2 \<le> a}"
    by blast
  have an: "absNode s a = \<lparr>word = wordH n, wordCount = wordCountH n\<rparr>"
    using n(2) by (rule absNode_Some)
  have m2: "map (absNode s2) as = map (absNode s) as" using grownFrom_path(2) [OF g lt] .
  have stepV: "rehashChain h newCap (map (absNode s) (a # as)) (absTable s nass) =
        rehashChain h newCap (map (absNode s2) as) (absTable s2 ?nass2)"
    using r
    by (simp add: an getBucket_primes [OF c] bucketAt_Some bucketSet_Some length_absTable at m2)
  have sub: "set (concat nass') \<subseteq> set (concat nass) \<union> {a. fresh s \<le> a}"
    using ih(6) unfolding set_concat_push [OF r(2)] f2 by auto
  from ih(1,2,3,4) stepH stepV grownFrom_trans [OF g ih(5)] sub show ?case by auto
qed

lemma chainsOk_grown:
  assumes "chainsOk s t ass" "grownFrom s s' nt" "t \<noteq> nt"
  shows "chainsOk s' t ass" "absTable s' ass = absTable s ass"
proof -
  from assms(1) have tr: "tableRep s t ass" and d: "distinct (concat ass)"
    and fr: "\<forall>a \<in> set (concat ass). a < fresh s"
    by (simp_all add: chainsOk_def)
  from assms(2) have g: "fresh s \<le> fresh s'" "\<forall>a. a < fresh s \<longrightarrow> nodes s' a = nodes s a"
    "\<forall>t'. t' \<noteq> nt \<longrightarrow> arrays s' t' = arrays s t'"
    by (simp_all add: grownFrom_def)
  have n: "\<forall>a \<in> set (concat ass). nodes s' a = nodes s a" using fr g(2) by blast
  have a: "arrays s' t = arrays s t" using g(3) assms(3) by blast
  have "\<forall>a \<in> set (concat ass). a < fresh s'" using fr g(1) by fastforce
  with tableRep_frame [OF tr a n] d show "chainsOk s' t ass" by (simp add: chainsOk_def)
  show "absTable s' ass = absTable s ass" using absTable_frame [OF n] .
qed

lemma resizeLoopH_refines:
  "newCap \<in> set primes \<Longrightarrow> t \<noteq> nt \<Longrightarrow> chainsOk s t ass \<Longrightarrow> length ass = nat cap \<Longrightarrow>
   0 \<le> bucket \<Longrightarrow> chainsOk s nt nass \<Longrightarrow> length nass = nat newCap \<Longrightarrow>
     \<exists>s' nass'. resizeLoopH h t cap newCap nt bucket s = Some s' \<and>
       resizeLoop h (absTable s ass) cap newCap bucket (absTable s nass) =
         Some (absTable s' nass') \<and>
       chainsOk s' nt nass' \<and> length nass' = nat newCap \<and> grownFrom s s' nt \<and>
       set (concat nass') \<subseteq> set (concat nass) \<union> {a. fresh s \<le> a}"
proof (induction h t cap newCap nt bucket s arbitrary: nass rule: resizeLoopH.induct)
  case (1 h oldTable cap newCap newTable bucket s)
  note c = "1.prems"(1) and tn = "1.prems"(2) and ck = "1.prems"(3) and l = "1.prems"(4)
    and b0 = "1.prems"(5) and nk = "1.prems"(6) and nl = "1.prems"(7)
  show ?case
  proof (cases "bucket < cap")
    case False
    then have "resizeLoopH h oldTable cap newCap newTable bucket s = Some s"
      "resizeLoop h (absTable s ass) cap newCap bucket (absTable s nass) = Some (absTable s nass)"
      by (simp_all add: resizeLoopH.simps resizeLoop.simps)
    with nk nl grownFrom_refl [of s newTable] show ?thesis by fastforce
  next
    case True
    with l b0 have bl: "nat bucket < length ass" by simp
    from ck have tr: "tableRep s oldTable ass" and fr: "\<forall>a \<in> set (concat ass). a < fresh s"
      by (simp_all add: chainsOk_def)
    from tableRepD [OF tr] obtain heads where hd: "arrays s oldTable = Some heads"
      "length heads = length ass" "\<forall>b < length ass. pathTo s (heads ! b) (ass ! b) None"
      by blast
    have rs: "readSlot s oldTable bucket = Some (heads ! nat bucket)"
      using hd(1,2) b0 bl by (intro readSlot_Some) simp_all
    have p: "pathTo s (heads ! nat bucket) (ass ! nat bucket) None" using hd(3) bl by blast
    have lt: "\<forall>a \<in> set (ass ! nat bucket). a < fresh s" using fr bl by auto
    from rehashChainH_refines [OF c p lt nk nl, of h] obtain s1 nass1 where
      r: "rehashChainH h newCap newTable (heads ! nat bucket) s = Some s1"
      "rehashChain h newCap (map (absNode s) (ass ! nat bucket)) (absTable s nass) =
         Some (absTable s1 nass1)"
      "chainsOk s1 newTable nass1" "length nass1 = nat newCap" "grownFrom s s1 newTable"
      "set (concat nass1) \<subseteq> set (concat nass) \<union> {a. fresh s \<le> a}"
      by blast
    note ck1 = chainsOk_grown [OF ck r(5) tn]
    have b1: "0 \<le> bucket + 1" using b0 by simp
    from "1.IH" [OF True rs r(1) c tn ck1(1) l b1 r(3,4)] obtain s' nass' where
      ih: "resizeLoopH h oldTable cap newCap newTable (bucket + 1) s1 = Some s'"
      "resizeLoop h (absTable s1 ass) cap newCap (bucket + 1) (absTable s1 nass1) =
         Some (absTable s' nass')"
      "chainsOk s' newTable nass'" "length nass' = nat newCap" "grownFrom s1 s' newTable"
      "set (concat nass') \<subseteq> set (concat nass1) \<union> {a. fresh s1 \<le> a}"
      by blast
    have stepH: "resizeLoopH h oldTable cap newCap newTable bucket s = Some s'"
      using True by (subst resizeLoopH.simps) (simp add: rs r(1) ih(1))
    have ba: "bucketAt (absTable s ass) bucket = Some (map (absNode s) (ass ! nat bucket))"
      using b0 bl by (subst bucketAt_Some) (simp_all add: length_absTable absTable_nth)
    have stepV: "resizeLoop h (absTable s ass) cap newCap bucket (absTable s nass) =
        Some (absTable s' nass')"
      using True ih(2) unfolding ck1(2)
      by (subst resizeLoop.simps) (simp add: ba r(2))
    from r(5) have "fresh s \<le> fresh s1" by (simp add: grownFrom_def)
    then have "{a. fresh s1 \<le> a} \<subseteq> {a. fresh s \<le> a}" by auto
    with ih(6) r(6) have sub: "set (concat nass') \<subseteq> set (concat nass) \<union> {a. fresh s \<le> a}"
      by blast
    from stepH stepV ih(3,4) grownFrom_trans [OF r(5) ih(5)] sub show ?thesis by blast
  qed
qed

subsection \<open>Clearing\<close>

lemma distinct_concat_later:
  assumes "distinct (concat xss)" "i < j" "j < length xss"
  shows "set (xss ! i) \<inter> set (xss ! j) = {}"
proof -
  from assms have i: "i < length xss" by simp
  have "distinct (concat (take i xss) @ xss ! i @ concat (drop (Suc i) xss))"
    using assms(1) concat_nth_split [OF i] by simp
  then have d: "set (xss ! i) \<inter> set (concat (drop (Suc i) xss)) = {}" by auto
  have "xss ! j = drop (Suc i) xss ! (j - Suc i)" using assms(2,3) by simp
  moreover have "j - Suc i < length (drop (Suc i) xss)" using assms(2,3) by simp
  ultimately have "xss ! j \<in> set (drop (Suc i) xss)" by (metis nth_mem)
  then have "set (xss ! j) \<subseteq> set (concat (drop (Suc i) xss))" by auto
  with d show ?thesis by blast
qed

lemma distinct_concat_nth:
  assumes "distinct (concat xss)" "i < length xss"
  shows "distinct (xss ! i)"
proof -
  have "distinct (concat (take i xss) @ xss ! i @ concat (drop (Suc i) xss))"
    using assms(1) concat_nth_split [OF assms(2)] by simp
  then show ?thesis by simp
qed

lemma clearChainH_ok:
  "arrays s t = Some heads \<Longrightarrow> b < length heads \<Longrightarrow> pathTo s (heads ! b) as None \<Longrightarrow>
   distinct as \<Longrightarrow>
     \<exists>s'. clearChainH t (int b) s = Some s' \<and>
       arrays s' = (arrays s)(t \<mapsto> heads[b := None]) \<and>
       nodes s' = (\<lambda>a. if a \<in> set as then None else nodes s a) \<and> fresh s' = fresh s"
proof (induction as arbitrary: s heads)
  case Nil
  then have h: "heads ! b = None" by simp
  then have u: "heads[b := None] = heads" by (metis list_update_id)
  have "readSlot s t (int b) = Some None"
    using readSlot_Some [OF Nil.prems(1), of "int b"] Nil.prems(2) h by simp
  then have "clearChainH t (int b) s = Some s" by (subst clearChainH.simps) simp
  moreover have "(arrays s)(t \<mapsto> heads) = arrays s" using Nil.prems(1) by (rule map_upd_triv)
  ultimately show ?case unfolding u by simp
next
  case (Cons a as)
  from Cons.prems(3) obtain n where n: "heads ! b = Some a" "nodes s a = Some n"
    "pathTo s (nextH n) as None"
    by (auto split: option.splits)
  from Cons.prems(4) have d: "a \<notin> set as" "distinct as" by simp_all
  let ?s1 = "s\<lparr>arrays := (arrays s)(t \<mapsto> heads[b := nextH n])\<rparr>"
  let ?s2 = "?s1\<lparr>nodes := (nodes ?s1)(a := None)\<rparr>"
  have rs: "readSlot s t (int b) = Some (Some a)"
    using readSlot_Some [OF Cons.prems(1), of "int b"] Cons.prems(2) n(1) by simp
  have ws: "writeSlot s t (int b) (nextH n) = Some ?s1"
    using writeSlot_Some [OF Cons.prems(1), of "int b"] Cons.prems(2) by simp
  have dn: "deleteNode ?s1 a = Some ?s2" using n(2) by (simp add: deleteNode_def)
  have stepH: "clearChainH t (int b) s = clearChainH t (int b) ?s2"
    by (subst clearChainH.simps) (simp add: rs n(2) ws dn)
  have a2: "arrays ?s2 t = Some (heads[b := nextH n])" by simp
  have b2: "b < length (heads[b := nextH n])" using Cons.prems(2) by simp
  have "\<forall>x \<in> set as. nodes ?s2 x = nodes s x" using d(1) by auto
  from pathTo_frame [OF this] n(3) Cons.prems(2)
  have p2: "pathTo ?s2 (heads[b := nextH n] ! b) as None" by simp
  from Cons.IH [OF a2 b2 p2 d(2)] obtain s' where
    ih: "clearChainH t (int b) ?s2 = Some s'"
    "arrays s' = (arrays ?s2)(t \<mapsto> heads[b := nextH n, b := None])"
    "nodes s' = (\<lambda>x. if x \<in> set as then None else nodes ?s2 x)" "fresh s' = fresh ?s2"
    by blast
  have "arrays s' = (arrays s)(t \<mapsto> heads[b := None])" unfolding ih(2) by simp
  moreover have "nodes s' = (\<lambda>x. if x \<in> set (a # as) then None else nodes s x)"
    unfolding ih(3) by auto
  moreover have "clearChainH t (int b) s = Some s'" unfolding stepH by (rule ih(1))
  moreover have "fresh s' = fresh s" using ih(4) by simp
  ultimately show ?case by blast
qed

lemma clearLoopH_ok:
  "arrays s t = Some heads \<Longrightarrow> length heads = length ass \<Longrightarrow> length ass = nat cap \<Longrightarrow>
   0 \<le> bucket \<Longrightarrow> distinct (concat ass) \<Longrightarrow>
   \<forall>b. nat bucket \<le> b \<and> b < length ass \<longrightarrow> pathTo s (heads ! b) (ass ! b) None \<Longrightarrow>
     \<exists>s' heads'. clearLoopH t cap bucket s = Some s' \<and>
       arrays s' = (arrays s)(t \<mapsto> heads') \<and>
       nodes s' = (\<lambda>a. if a \<in> set (concat (drop (nat bucket) ass)) then None else nodes s a) \<and>
       fresh s' = fresh s"
proof (induction t cap bucket s arbitrary: heads rule: clearLoopH.induct)
  case (1 t cap bucket s)
  note hd = "1.prems"(1) and hl = "1.prems"(2) and l = "1.prems"(3) and b0 = "1.prems"(4)
    and d = "1.prems"(5) and ps = "1.prems"(6)
  show ?case
  proof (cases "bucket < cap")
    case False
    with l b0 have "drop (nat bucket) ass = []" by simp
    then have "nodes s = (\<lambda>a. if a \<in> set (concat (drop (nat bucket) ass)) then None
                             else nodes s a)"
      by simp
    moreover have "arrays s = (arrays s)(t \<mapsto> heads)" using hd map_upd_triv by metis
    moreover have "clearLoopH t cap bucket s = Some s" using False by (simp add: clearLoopH.simps)
    ultimately show ?thesis by blast
  next
    case True
    with l b0 have bl: "nat bucket < length ass" by simp
    then have bh: "nat bucket < length heads" using hl by simp
    from ps bl have p: "pathTo s (heads ! nat bucket) (ass ! nat bucket) None" by blast
    from clearChainH_ok [OF hd bh p distinct_concat_nth [OF d bl]] b0 obtain s1 where
      c1: "clearChainH t bucket s = Some s1"
      "arrays s1 = (arrays s)(t \<mapsto> heads[nat bucket := None])"
      "nodes s1 = (\<lambda>a. if a \<in> set (ass ! nat bucket) then None else nodes s a)"
      "fresh s1 = fresh s"
      by auto
    let ?heads1 = "heads[nat bucket := None]"
    have hd1: "arrays s1 t = Some ?heads1" unfolding c1(2) by simp
    have hl1: "length ?heads1 = length ass" using hl by simp
    have b1: "0 \<le> bucket + 1" using b0 by simp
    have ps1: "\<forall>b. nat (bucket + 1) \<le> b \<and> b < length ass \<longrightarrow>
        pathTo s1 (?heads1 ! b) (ass ! b) None"
    proof (intro allI impI)
      fix b assume b: "nat (bucket + 1) \<le> b \<and> b < length ass"
      then have lt: "nat bucket < b" using b0 by linarith
      from distinct_concat_later [OF d lt] b
      have "set (ass ! nat bucket) \<inter> set (ass ! b) = {}" by simp
      then have "\<forall>a \<in> set (ass ! b). nodes s1 a = nodes s a" unfolding c1(3) by auto
      from pathTo_frame [OF this] ps b lt show "pathTo s1 (?heads1 ! b) (ass ! b) None"
        by simp
    qed
    from "1.IH" [OF True c1(1) hd1 hl1 l b1 d ps1] obtain s' heads' where
      ih: "clearLoopH t cap (bucket + 1) s1 = Some s'"
      "arrays s' = (arrays s1)(t \<mapsto> heads')"
      "nodes s' = (\<lambda>a. if a \<in> set (concat (drop (nat (bucket + 1)) ass)) then None
                        else nodes s1 a)"
      "fresh s' = fresh s1"
      by blast
    have stepH: "clearLoopH t cap bucket s = Some s'"
      using True by (subst clearLoopH.simps) (simp add: c1(1) ih(1))
    have dr: "drop (nat bucket) ass = ass ! nat bucket # drop (nat (bucket + 1)) ass"
      using bl b0 by (simp add: Cons_nth_drop_Suc nat_add_distrib)
    have "nodes s' = (\<lambda>a. if a \<in> set (concat (drop (nat bucket) ass)) then None else nodes s a)"
      unfolding ih(3) c1(3) dr by auto
    moreover have "arrays s' = (arrays s)(t \<mapsto> heads')" unfolding ih(2) c1(2) by simp
    moreover have "fresh s' = fresh s" using ih(4) c1(4) by simp
    ultimately show ?thesis using stepH by blast
  qed
qed

lemma clearH_ok:
  assumes o: "owns s obj t ass" and l: "length ass = nat (capacityH obj)"
  shows "\<exists>s'. clearH s obj = Some (s', obj\<lparr>wordTableH := None\<rparr>) \<and>
     arrays s' = (arrays s)(t := None) \<and>
     nodes s' = (\<lambda>a. if a \<in> set (concat ass) then None else nodes s a) \<and>
     fresh s' = fresh s"
proof -
  from o have t: "wordTableH obj = Some t" and tr: "tableRep s t ass"
    and d: "distinct (concat ass)"
    by (simp_all add: owns_def)
  from tableRepD [OF tr] obtain heads where hd: "arrays s t = Some heads"
    "length heads = length ass" "\<forall>b < length ass. pathTo s (heads ! b) (ass ! b) None"
    by blast
  have ps: "\<forall>b. nat 0 \<le> b \<and> b < length ass \<longrightarrow> pathTo s (heads ! b) (ass ! b) None"
    using hd(3) by simp
  from clearLoopH_ok [OF hd(1,2) l _ d ps] obtain s1 heads' where
    c: "clearLoopH t (capacityH obj) 0 s = Some s1" "arrays s1 = (arrays s)(t \<mapsto> heads')"
    "nodes s1 = (\<lambda>a. if a \<in> set (concat ass) then None else nodes s a)" "fresh s1 = fresh s"
    by auto
  let ?s2 = "s1\<lparr>arrays := (arrays s1)(t := None)\<rparr>"
  have "deleteArray s1 t = Some ?s2" unfolding deleteArray_def c(2) by simp
  then have "clearH s obj = Some (?s2, obj\<lparr>wordTableH := None\<rparr>)"
    by (simp add: clearH_def t c(1))
  moreover have "arrays ?s2 = (arrays s)(t := None)" unfolding c(2) by simp
  moreover have "nodes ?s2 = (\<lambda>a. if a \<in> set (concat ass) then None else nodes s a)"
    using c(3) by simp
  moreover have "fresh ?s2 = fresh s" using c(4) by simp
  ultimately show ?thesis by blast
qed

subsection \<open>Resizing\<close>

lemma concat_replicate_Nil: "concat (replicate n []) = []"
  by (induction n) simp_all

lemma resizeH_refines:
  assumes o: "owns s obj t ass" and ok: "tableOk h (capacityH obj) (absTable s ass)"
  shows "\<exists>s' nass.
     resizeH h s obj n =
       Some (s', obj\<lparr>capacityH := getValidCapacity n, wordTableH := Some (fresh s)\<rparr>) \<and>
     resize h (absWordCounter s obj ass) n =
       Some (absWordCounter s'
          (obj\<lparr>capacityH := getValidCapacity n, wordTableH := Some (fresh s)\<rparr>) nass) \<and>
     owns s' (obj\<lparr>capacityH := getValidCapacity n, wordTableH := Some (fresh s)\<rparr>)
        (fresh s) nass \<and>
     unchangedOutside s s' (set (concat ass)) t \<and>
     footprintFrom s t ass (fresh s) nass"
proof -
  let ?c = "getValidCapacity n" and ?nt = "fresh s"
  let ?obj' = "obj\<lparr>capacityH := ?c, wordTableH := Some ?nt\<rparr>"
  let ?s1 = "allocArray s (nat ?c)"
  let ?n0 = "replicate (nat ?c) [] :: nat list list"
  from o have t: "wordTableH obj = Some t" and tl: "t < fresh s" and tr: "tableRep s t ass"
    and d: "distinct (concat ass)" and fr: "\<forall>a \<in> set (concat ass). a < fresh s"
    by (simp_all add: owns_def)
  from ok have l: "length ass = nat (capacityH obj)" by (simp add: tableOk_iff2 length_absTable)
  have c: "?c \<in> set primes" by (rule getValidCapacity_mem)
  have tn: "t \<noteq> ?nt" using tl by simp
  have g1: "grownFrom s ?s1 ?nt" by (simp add: grownFrom_def allocArray_def)
  have ck: "chainsOk s t ass" using tr d fr by (simp add: chainsOk_def)
  note ck1 = chainsOk_grown [OF ck g1 tn]
  have "tableRep ?s1 ?nt ?n0"
    by (rule tableRepI [of _ _ "replicate (nat ?c) None"]) (simp_all add: allocArray_def)
  then have nk: "chainsOk ?s1 ?nt ?n0" by (simp add: chainsOk_def concat_replicate_Nil)
  have nl: "length ?n0 = nat ?c" by simp
  from resizeLoopH_refines [OF c tn ck1(1) l _ nk nl, of 0 h] obtain s2 nass where
    r: "resizeLoopH h t (capacityH obj) ?c ?nt 0 ?s1 = Some s2"
    "resizeLoop h (absTable ?s1 ass) (capacityH obj) ?c 0 (absTable ?s1 ?n0) =
       Some (absTable s2 nass)"
    "chainsOk s2 ?nt nass" "length nass = nat ?c" "grownFrom ?s1 s2 ?nt"
    "set (concat nass) \<subseteq> set (concat ?n0) \<union> {a. fresh ?s1 \<le> a}"
    by auto
  have f1: "fresh ?s1 = Suc (fresh s)" by (simp add: allocArray_def)
  from r(6) have new: "\<forall>a \<in> set (concat nass). fresh s < a"
    unfolding concat_replicate_Nil f1 by auto
  note ck2 = chainsOk_grown [OF ck1(1) r(5) tn]
  have g2: "grownFrom s s2 ?nt" using grownFrom_trans [OF g1 r(5)] .
  then have f2: "fresh s \<le> fresh s2" by (simp add: grownFrom_def)
  have "fresh ?s1 \<le> fresh s2" using r(5) by (simp add: grownFrom_def)
  then have nt2: "?nt < fresh s2" unfolding f1 by simp
  have o2: "owns s2 obj t ass"
    using ck2(1) t tl f2 by (simp add: owns_def chainsOk_def)
  from clearH_ok [OF o2 l] obtain s3 where
    cl: "clearH s2 obj = Some (s3, obj\<lparr>wordTableH := None\<rparr>)"
    "arrays s3 = (arrays s2)(t := None)"
    "nodes s3 = (\<lambda>a. if a \<in> set (concat ass) then None else nodes s2 a)"
    "fresh s3 = fresh s2"
    by blast
  have rH: "resizeH h s obj n = Some (s3, ?obj')"
    by (simp add: resizeH_def Let_def t r(1) cl(1))
  have disj: "\<forall>a \<in> set (concat nass). a \<notin> set (concat ass)" using new fr by fastforce
  have n3: "\<forall>a \<in> set (concat nass). nodes s3 a = nodes s2 a" using disj unfolding cl(3) by simp
  have a3: "arrays s3 ?nt = arrays s2 ?nt" unfolding cl(2) using tn by simp
  from r(3) have tr2: "tableRep s2 ?nt nass" and d2: "distinct (concat nass)"
    and fr2: "\<forall>a \<in> set (concat nass). a < fresh s2"
    by (simp_all add: chainsOk_def)
  have o3: "owns s3 ?obj' ?nt nass"
    using tableRep_frame [OF tr2 a3 n3] d2 fr2 nt2 cl(4) by (simp add: owns_def)
  have at3: "absTable s3 nass = absTable s2 nass" using absTable_frame [OF n3] .
  have e0: "absTable ?s1 ?n0 = replicate (nat ?c) []" by (simp add: absTable_def)
  have lv: "length (wordTable (absWordCounter s obj ass)) = nat (capacity (absWordCounter s obj ass))"
    using l by (simp add: absWordCounter_simps length_absTable)
  have rV: "resize h (absWordCounter s obj ass) n = Some (absWordCounter s3 ?obj' nass)"
    using r(2) unfolding ck1(2) e0
    by (simp add: resize_def Let_def clear_ok [OF lv] absWordCounter_simps at3)
  have u: "unchangedOutside s s3 (set (concat ass)) t"
    unfolding unchangedOutside_def
  proof (intro conjI allI impI)
    show "fresh s \<le> fresh s3" using f2 cl(4) by simp
  next
    fix a assume a: "a < fresh s \<and> a \<notin> set (concat ass)"
    then have "nodes s3 a = nodes s2 a" unfolding cl(3) by simp
    also have "\<dots> = nodes s a" using g2 a by (simp add: grownFrom_def)
    finally show "nodes s3 a = nodes s a" .
  next
    fix a assume a: "a < fresh s \<and> a \<noteq> t"
    then have "arrays s3 a = arrays s2 a" unfolding cl(2) by simp
    also have "\<dots> = arrays s a" using g2 a by (simp add: grownFrom_def)
    finally show "arrays s3 a = arrays s a" .
  qed
  have fp: "footprintFrom s t ass ?nt nass"
    unfolding footprintFrom_def using new by (auto intro: less_imp_le)
  from rH rV o3 u fp show ?thesis by blast
qed

subsection \<open>Adding\<close>

lemma distinct_concat_other:
  assumes "distinct (concat xss)" "i < length xss" "j < length xss" "i \<noteq> j"
  shows "set (xss ! i) \<inter> set (xss ! j) = {}"
proof (cases "i < j")
  case True
  from distinct_concat_later [OF assms(1) True assms(3)] show ?thesis .
next
  case False
  with assms(4) have "j < i" by simp
  from distinct_concat_later [OF assms(1) this assms(2)] show ?thesis by blast
qed

lemma absTable_setCount:
  assumes d: "distinct (concat ass)" and bl: "b < length ass" and il: "i < length (ass ! b)"
    and n: "nodes s (ass ! b ! i) = Some n"
  shows "absTable (s\<lparr>nodes := (nodes s)(ass ! b ! i \<mapsto> n\<lparr>wordCountH := k\<rparr>)\<rparr>) ass =
     (absTable s ass)[b := (absTable s ass ! b)[i := (absTable s ass ! b ! i)\<lparr>wordCount := k\<rparr>]]"
proof -
  let ?a = "ass ! b ! i"
  let ?s1 = "s\<lparr>nodes := (nodes s)(?a \<mapsto> n\<lparr>wordCountH := k\<rparr>)\<rparr>"
  have other: "absNode ?s1 x = absNode s x" if "x \<noteq> ?a" for x
    using that by (simp add: absNode_def)
  have self: "absNode ?s1 ?a = (absNode s ?a)\<lparr>wordCount := k\<rparr>"
    using n by (simp add: absNode_def)
  have ain: "?a \<in> set (ass ! b)" using il by simp
  have row: "map (absNode ?s1) (ass ! b) = (map (absNode s) (ass ! b))[i := (absNode s ?a)\<lparr>wordCount := k\<rparr>]"
  proof (rule nth_equalityI)
    show "length (map (absNode ?s1) (ass ! b)) =
          length ((map (absNode s) (ass ! b))[i := (absNode s ?a)\<lparr>wordCount := k\<rparr>])"
      by simp
  next
    fix j assume "j < length (map (absNode ?s1) (ass ! b))"
    then have j: "j < length (ass ! b)" by simp
    show "map (absNode ?s1) (ass ! b) ! j =
          (map (absNode s) (ass ! b))[i := (absNode s ?a)\<lparr>wordCount := k\<rparr>] ! j"
    proof (cases "j = i")
      case True
      with il show ?thesis by (simp add: self)
    next
      case False
      have "distinct (ass ! b)" using distinct_concat_nth [OF d bl] .
      with False j il have "ass ! b ! j \<noteq> ?a" by (simp add: nth_eq_iff_index_eq)
      with False j show ?thesis by (simp add: other)
    qed
  qed
  show ?thesis
  proof (rule nth_equalityI)
    show "length (absTable ?s1 ass) =
      length ((absTable s ass)[b := (absTable s ass ! b)[i := (absTable s ass ! b ! i)\<lparr>wordCount := k\<rparr>]])"
      by (simp add: length_absTable)
  next
    fix b' assume "b' < length (absTable ?s1 ass)"
    then have b': "b' < length ass" by (simp add: length_absTable)
    show "absTable ?s1 ass ! b' =
      (absTable s ass)[b := (absTable s ass ! b)[i := (absTable s ass ! b ! i)\<lparr>wordCount := k\<rparr>]] ! b'"
    proof (cases "b' = b")
      case True
      with bl il row show ?thesis by (simp add: absTable_nth length_absTable)
    next
      case False
      from distinct_concat_other [OF d bl b'] False ain have "?a \<notin> set (ass ! b')" by blast
      then have "map (absNode ?s1) (ass ! b') = map (absNode s) (ass ! b')"
        by (intro map_absNode_frame) auto
      with False b' show ?thesis by (simp add: absTable_nth length_absTable)
    qed
  qed
qed

lemma owns_setCount:
  assumes o: "owns s obj t ass" and n: "nodes s a = Some n"
  shows "owns (s\<lparr>nodes := (nodes s)(a \<mapsto> n\<lparr>wordCountH := k\<rparr>)\<rparr>) obj' t ass
         \<longleftrightarrow> wordTableH obj' = Some t"
proof -
  let ?s1 = "s\<lparr>nodes := (nodes s)(a \<mapsto> n\<lparr>wordCountH := k\<rparr>)\<rparr>"
  from o have tl: "t < fresh s" and tr: "tableRep s t ass"
    and d: "distinct (concat ass)" and fr: "\<forall>a \<in> set (concat ass). a < fresh s"
    by (simp_all add: owns_def)
  from tableRepD [OF tr] obtain heads where hd: "arrays s t = Some heads"
    "length heads = length ass" "\<forall>b < length ass. pathTo s (heads ! b) (ass ! b) None"
    by blast
  have nx: "\<forall>x \<in> set as. map_option nextH (nodes ?s1 x) = map_option nextH (nodes s x)" for as
    using n by simp
  have "tableRep ?s1 t ass"
  proof (rule tableRepI)
    show "arrays ?s1 t = Some heads" using hd(1) by simp
    show "length heads = length ass" by (rule hd(2))
    show "\<forall>b < length ass. pathTo ?s1 (heads ! b) (ass ! b) None"
      using hd(3) pathTo_next_frame [OF nx] by simp
  qed
  with tl d fr show ?thesis by (simp add: owns_def)
qed

lemma unchangedOutside_grown:
  "grownFrom s s' t \<Longrightarrow> unchangedOutside s s' A t"
  by (simp add: grownFrom_def unchangedOutside_def)

lemma unchangedOutside_trans:
  assumes "unchangedOutside s s1 A t" "unchangedOutside s1 s2 B t"
    and "\<forall>a \<in> B. a \<in> A \<or> fresh s \<le> a"
  shows "unchangedOutside s s2 A t"
  unfolding unchangedOutside_def
proof (intro conjI allI impI)
  from assms(1,2) show "fresh s \<le> fresh s2" by (simp add: unchangedOutside_def)
next
  fix a assume a: "a < fresh s \<and> a \<notin> A"
  with assms(3) have "a \<notin> B" by auto
  moreover from a assms(1) have "a < fresh s1" by (simp add: unchangedOutside_def)
  ultimately have "nodes s2 a = nodes s1 a" using assms(2) by (simp add: unchangedOutside_def)
  with a assms(1) show "nodes s2 a = nodes s a" by (simp add: unchangedOutside_def)
next
  fix a assume a: "a < fresh s \<and> a \<noteq> t"
  moreover from a assms(1) have "a < fresh s1" by (simp add: unchangedOutside_def)
  ultimately have "arrays s2 a = arrays s1 a" using assms(2) by (simp add: unchangedOutside_def)
  with a assms(1) show "arrays s2 a = arrays s a" by (simp add: unchangedOutside_def)
qed

lemma footprintFrom_refl: "footprintFrom s t ass t ass"
  by (simp add: footprintFrom_def)

lemma footprintFrom_trans:
  assumes "footprintFrom s t ass t1 ass1" "footprintFrom s1 t1 ass1 t2 ass2"
    "fresh s \<le> fresh s1"
  shows "footprintFrom s t ass t2 ass2"
proof -
  from assms(3) have "{a. fresh s1 \<le> a} \<subseteq> {a. fresh s \<le> a}" by auto
  with assms(1,2) have "set (concat ass2) \<subseteq> set (concat ass) \<union> {a. fresh s \<le> a}"
    unfolding footprintFrom_def by blast
  moreover have "t2 = t \<or> fresh s \<le> t2"
    using assms unfolding footprintFrom_def by auto
  ultimately show ?thesis by (simp add: footprintFrom_def)
qed

lemma footprintFrom_sub:
  "set (concat ass') \<subseteq> set (concat ass) \<union> {a. fresh s \<le> a} \<Longrightarrow>
     footprintFrom s t ass t ass'"
  by (simp add: footprintFrom_def)

lemma addWordH_refines:
  assumes o: "owns s obj t ass" and wf: "wellFormed h (absWordCounter s obj ass)"
  shows "\<exists>r s' obj' t' ass'. addWordH h s obj w = Some (r, s', obj') \<and>
     addWord h (absWordCounter s obj ass) w = Some (r, absWordCounter s' obj' ass') \<and>
     owns s' obj' t' ass' \<and> unchangedOutside s s' (set (concat ass)) t \<and>
     footprintFrom s t ass t' ass'"
proof -
  let ?wc = "absWordCounter s obj ass"
  let ?tab = "absTable s ass"
  let ?ib = "uint (h w) mod capacityH obj"
  let ?b = "nat ?ib"
  from wf have ok: "tableOk h (capacity ?wc) (wordTable ?wc)" by (simp add: wellFormed_def)
  then have okH: "tableOk h (capacityH obj) ?tab" by (simp add: absWordCounter_simps)
  then have c: "capacityH obj \<in> set primes" and l: "length ass = nat (capacityH obj)"
    by (simp_all add: tableOk_iff2 length_absTable)
  from o have t: "wordTableH obj = Some t" and tl: "t < fresh s" and tr: "tableRep s t ass"
    and d: "distinct (concat ass)" and fr: "\<forall>a \<in> set (concat ass). a < fresh s"
    by (simp_all add: owns_def)
  have ck: "chainsOk s t ass" using tr d fr by (simp add: chainsOk_def)
  have r: "0 \<le> ?ib" "?b < length ass" using bucket_range [OF c, of h w] l by simp_all
  have ib: "int ?b = ?ib" using r(1) by simp
  from tableRepD [OF tr] obtain heads where hd: "arrays s t = Some heads"
    "length heads = length ass" "\<forall>b < length ass. pathTo s (heads ! b) (ass ! b) None"
    by blast
  have rs: "readSlot s t ?ib = Some (heads ! ?b)"
    using hd(1,2) r by (intro readSlot_Some) simp_all
  note gh = getWordNodeH_ok [OF o c l, of h w]
  have gv: "getWordNode h ?wc w = Some (map_option (Pair ?ib) (findNode w (?tab ! ?b)))"
    using getWordNode_ok [OF ok, of w] by (simp add: absWordCounter_simps)
  show ?thesis
  proof (cases "findNode w (?tab ! ?b)")
    case (Some i)
    let ?a = "ass ! ?b ! i"
    from findNode_Some [OF Some] r(2) have i: "i < length (ass ! ?b)" by (simp add: absTable_nth)
    then have "?a \<in> set (ass ! ?b)" by simp
    from pathTo_live [OF _ this] hd(3) r(2) obtain n where n: "nodes s ?a = Some n" by blast
    let ?k = "wordCountH n"
    let ?k1 = "int32 (?k + 1)"
    let ?s1 = "s\<lparr>nodes := (nodes s)(?a \<mapsto> n\<lparr>wordCountH := ?k1\<rparr>)\<rparr>"
    let ?obj' = "obj\<lparr>totalWordCountH := int32 (totalWordCountH obj + 1)\<rparr>"
    have aH: "addWordH h s obj w = Some (?k1, ?s1, ?obj')"
      using Some n by (simp add: addWordH_def gh setCount_def)
    have tn: "?tab ! ?b ! i = absNode s ?a" using r(2) i by (simp add: absTable_nth)
    have kv: "wordCount (?tab ! ?b ! i) = ?k" unfolding tn using n by (simp add: absNode_Some)
    have li: "i < length (?tab ! ?b)" using r(2) i by (simp add: absTable_nth)
    have lb: "?b < length ?tab" using r(2) by (simp add: length_absTable)
    have aV: "addWord h ?wc w = Some (?k1, ?wc\<lparr>wordTable :=
          ?tab[?b := (?tab ! ?b)[i := (?tab ! ?b ! i)\<lparr>wordCount := ?k1\<rparr>]],
          totalWordCount := int32 (totalWordCount ?wc + 1)\<rparr>)"
      using Some r(1) lb li kv
      by (simp add: addWord_def gv absWordCounter_simps nodeAt_Some nodeSetCount_Some)
    have e: "?wc\<lparr>wordTable :=
          ?tab[?b := (?tab ! ?b)[i := (?tab ! ?b ! i)\<lparr>wordCount := ?k1\<rparr>]],
          totalWordCount := int32 (totalWordCount ?wc + 1)\<rparr> = absWordCounter ?s1 ?obj' ass"
      by (simp add: absWordCounter_def absTable_setCount [OF d r(2) i n, of ?k1])
    have o1: "owns ?s1 ?obj' t ass" using owns_setCount [OF o n] t by simp
    have "ass ! ?b \<in> set ass" using r(2) by simp
    with \<open>?a \<in> set (ass ! ?b)\<close> have "?a \<in> set (concat ass)" by auto
    then have u: "unchangedOutside s ?s1 (set (concat ass)) t"
      by (auto simp: unchangedOutside_def)
    from aH aV e o1 u footprintFrom_refl [of s t ass] show ?thesis by metis
  next
    case None
    then have new: "countMap ?wc w = None"
      using countMap_findNode_None [OF ok, of w] by (simp add: absWordCounter_simps)
    let ?ass1 = "ass[?b := fresh s # ass ! ?b]"
    let ?obj1 = "obj\<lparr>uniqueWordCountH := int32 (uniqueWordCountH obj + 1)\<rparr>"
    from chainsOk_push [OF ck r(2), of w 1] hd(1) obtain s1 where
      w1: "writeSlot (allocNode s w 1 (heads ! ?b)) t (int ?b) (Some (fresh s)) = Some s1"
      and ck1: "chainsOk s1 t ?ass1"
      and at: "absTable s1 ?ass1 = ?tab[?b := \<lparr>word = w, wordCount = 1\<rparr> # ?tab ! ?b]"
      and f1: "fresh s1 = Suc (fresh s)" and g: "grownFrom s s1 t"
      and a1: "arrays s1 t = Some (heads[?b := Some (fresh s)])"
      and n1: "nodes s1 (fresh s) = Some \<lparr>wordH = w, wordCountH = 1, nextH = heads ! ?b\<rparr>"
      by auto
    have rs1: "readSlot s1 t ?ib = Some (Some (fresh s))"
      using readSlot_Some [OF a1, of ?ib] r hd(2) by simp
    let ?C = "getLoadFactorH ?obj1 > MAX_LOAD_FACTOR \<and> capacityH obj < MAX_CAPACITY"
    have aH: "addWordH h s obj w =
        (if ?C then resizeH h s1 ?obj1 (capacityH obj * 2) else Some (s1, ?obj1)) \<bind>
        (\<lambda>r. Some (1, fst r,
           (snd r)\<lparr>totalWordCountH := int32 (totalWordCountH (snd r) + 1)\<rparr>))"
      using None w1 [unfolded ib]
      by (simp add: addWordH_def gh getBucket_primes [OF c] t rs NEW_WORD_COUNT_def rs1 n1 Let_def)
    let ?wc1 = "?wc\<lparr>wordTable := ?tab[?b := \<lparr>word = w, wordCount = 1\<rparr> # ?tab ! ?b],
                     uniqueWordCount := int32 (uniqueWordCountH obj + 1)\<rparr>"
    have e1: "?wc1 = absWordCounter s1 ?obj1 ?ass1"
      by (simp add: absWordCounter_def at)
    have lf: "getLoadFactor (absWordCounter s1 ?obj1 ?ass1) = getLoadFactorH ?obj1"
      by (simp add: getLoadFactor_def getLoadFactorH_def absWordCounter_simps)
    note aV0 = addWord_new_unfold [OF ok new, unfolded absWordCounter_simps]
    have aV: "addWord h ?wc w =
        (if ?C then resize h (absWordCounter s1 ?obj1 ?ass1) (capacityH obj * 2)
         else Some (absWordCounter s1 ?obj1 ?ass1)) \<bind>
        (\<lambda>wc2. Some (1, wc2\<lparr>totalWordCount := int32 (totalWordCount wc2 + 1)\<rparr>))"
      using aV0 unfolding e1 lf .
    have o1: "owns s1 ?obj1 t ?ass1"
      using ck1 t tl f1 by (simp add: owns_def chainsOk_def)
    have u1: "unchangedOutside s s1 (set (concat ass)) t"
      using g by (rule unchangedOutside_grown)
    show ?thesis
    proof (cases ?C)
      case False
      let ?obj' = "?obj1\<lparr>totalWordCountH := int32 (totalWordCountH ?obj1 + 1)\<rparr>"
      have "addWordH h s obj w = Some (1, s1, ?obj')"
        using aH unfolding if_not_P [OF False] by simp
      moreover have "addWord h ?wc w = Some (1, absWordCounter s1 ?obj' ?ass1)"
        using aV unfolding if_not_P [OF False] by (simp add: absWordCounter_def)
      moreover have "owns s1 ?obj' t ?ass1" using o1 by (simp add: owns_def)
      moreover have "footprintFrom s t ass t ?ass1"
        by (rule footprintFrom_sub) (use set_concat_push [OF r(2)] in auto)
      ultimately show ?thesis using u1 by metis
    next
      case True
      have nw: "w \<notin> word ` set (concat ?tab)"
        using new by (simp add: countMap_eq_None absWordCounter_simps)
      from table_insert [OF okH nw, of 1] at
      have ok1: "tableOk h (capacityH ?obj1) (absTable s1 ?ass1)" by simp
      from resizeH_refines [OF o1 ok1, of "capacityH obj * 2"] obtain s2 nass where
        rz: "resizeH h s1 ?obj1 (capacityH obj * 2) =
          Some (s2, ?obj1\<lparr>capacityH := getValidCapacity (capacityH obj * 2),
                           wordTableH := Some (fresh s1)\<rparr>)"
        "resize h (absWordCounter s1 ?obj1 ?ass1) (capacityH obj * 2) =
          Some (absWordCounter s2 (?obj1\<lparr>capacityH := getValidCapacity (capacityH obj * 2),
                           wordTableH := Some (fresh s1)\<rparr>) nass)"
        "owns s2 (?obj1\<lparr>capacityH := getValidCapacity (capacityH obj * 2),
                           wordTableH := Some (fresh s1)\<rparr>) (fresh s1) nass"
        "unchangedOutside s1 s2 (set (concat ?ass1)) t"
        "footprintFrom s1 t ?ass1 (fresh s1) nass"
        by blast
      let ?obj2 = "?obj1\<lparr>capacityH := getValidCapacity (capacityH obj * 2),
                           wordTableH := Some (fresh s1)\<rparr>"
      let ?obj' = "?obj2\<lparr>totalWordCountH := int32 (totalWordCountH ?obj2 + 1)\<rparr>"
      have "addWordH h s obj w = Some (1, s2, ?obj')"
        using aH unfolding if_P [OF True] rz(1) by simp
      moreover have "addWord h ?wc w = Some (1, absWordCounter s2 ?obj' nass)"
        using aV unfolding if_P [OF True] rz(2) by (simp add: absWordCounter_def)
      moreover have "owns s2 ?obj' (fresh s1) nass" using rz(3) by (simp add: owns_def)
      moreover have "\<forall>a \<in> set (concat ?ass1). a \<in> set (concat ass) \<or> fresh s \<le> a"
        unfolding set_concat_push [OF r(2)] by auto
      from unchangedOutside_trans [OF u1 rz(4) this]
      have "unchangedOutside s s2 (set (concat ass)) t" .
      moreover have "footprintFrom s t ass t ?ass1"
        by (rule footprintFrom_sub) (use set_concat_push [OF r(2)] in auto)
      from footprintFrom_trans [OF this rz(5)] f1
      have "footprintFrom s t ass (fresh s1) nass" by simp
      ultimately show ?thesis by metis
    qed
  qed
qed

subsection \<open>Unlinking a node\<close>

lemma set_concat_update_sub:
  assumes "b < length ass" "set xs \<subseteq> set (ass ! b)"
  shows "set (concat (ass[b := xs])) \<subseteq> set (concat ass)"
proof -
  have "concat (ass[b := xs]) = concat (take b ass) @ xs @ concat (drop (Suc b) ass)"
    using concat_update [OF assms(1)] by simp
  moreover have "concat ass = concat (take b ass) @ ass ! b @ concat (drop (Suc b) ass)"
    using concat_nth_split [OF assms(1)] by simp
  ultimately show ?thesis using assms(2) by auto
qed

lemma distinct_concat_update_sub:
  assumes "distinct (concat ass)" "b < length ass" "distinct xs" "set xs \<subseteq> set (ass ! b)"
  shows "distinct (concat (ass[b := xs]))"
proof -
  have e: "concat (ass[b := xs]) = concat (take b ass) @ xs @ concat (drop (Suc b) ass)"
    using concat_update [OF assms(2)] by simp
  have "distinct (concat (take b ass) @ ass ! b @ concat (drop (Suc b) ass))"
    using assms(1) concat_nth_split [OF assms(2)] by simp
  then show ?thesis unfolding e using assms(3,4) by auto
qed

lemma owns_replace_chain:
  assumes o: "owns s obj t ass" and bl: "b < length ass"
    and hd: "arrays s t = Some heads"
    and ar: "arrays s1 = (arrays s)(t \<mapsto> heads[b := p])" and fr: "fresh s1 = fresh s"
    and nd: "\<forall>a. a \<notin> set (ass ! b) \<longrightarrow> nodes s1 a = nodes s a"
    and pt: "pathTo s1 p xs None" and dx: "distinct xs" and sx: "set xs \<subseteq> set (ass ! b)"
    and t1: "wordTableH obj1 = Some t"
  shows "owns s1 obj1 t (ass[b := xs]) \<and> unchangedOutside s s1 (set (concat ass)) t \<and>
         absTable s1 (ass[b := xs]) = (absTable s ass)[b := map (absNode s1) xs]"
proof -
  from o have tl: "t < fresh s" and tr: "tableRep s t ass"
    and d: "distinct (concat ass)" and fa: "\<forall>a \<in> set (concat ass). a < fresh s"
    by (simp_all add: owns_def)
  from tableRepD [OF tr] hd have hl: "length heads = length ass"
    and hp: "\<forall>b < length ass. pathTo s (heads ! b) (ass ! b) None"
    by auto
  have other: "\<forall>a \<in> set (ass ! c). nodes s1 a = nodes s a" if "c < length ass" "c \<noteq> b" for c
    using distinct_concat_other [OF d that(1) bl that(2)] nd by blast
  have tr1: "tableRep s1 t (ass[b := xs])"
  proof (rule tableRepI)
    show "arrays s1 t = Some (heads[b := p])" using ar by simp
    show "length (heads[b := p]) = length (ass[b := xs])" using hl by simp
    show "\<forall>c < length (ass[b := xs]). pathTo s1 (heads[b := p] ! c) (ass[b := xs] ! c) None"
    proof (intro allI impI)
      fix c assume c: "c < length (ass[b := xs])"
      show "pathTo s1 (heads[b := p] ! c) (ass[b := xs] ! c) None"
      proof (cases "c = b")
        case True
        then show ?thesis using pt bl hl by simp
      next
        case False
        from c have cl: "c < length ass" by simp
        from pathTo_frame [OF other [OF cl False]] hp cl False show ?thesis by simp
      qed
    qed
  qed
  have sub: "set (concat (ass[b := xs])) \<subseteq> set (concat ass)"
    by (rule set_concat_update_sub [OF bl sx])
  have o1: "owns s1 obj1 t (ass[b := xs])"
    unfolding owns_def using t1 tl fr tr1 distinct_concat_update_sub [OF d bl dx sx] sub fa
    by auto
  have "set (ass ! b) \<subseteq> set (concat ass)" using bl by (auto intro: nth_mem)
  then have u: "unchangedOutside s s1 (set (concat ass)) t"
    unfolding unchangedOutside_def using fr nd ar by auto
  have "absTable s1 (ass[b := xs]) = (absTable s ass)[b := map (absNode s1) xs]"
  proof (rule nth_equalityI)
    show "length (absTable s1 (ass[b := xs])) = length ((absTable s ass)[b := map (absNode s1) xs])"
      by (simp add: length_absTable)
    fix c assume "c < length (absTable s1 (ass[b := xs]))"
    then have cl: "c < length ass" by (simp add: length_absTable)
    show "absTable s1 (ass[b := xs]) ! c = (absTable s ass)[b := map (absNode s1) xs] ! c"
    proof (cases "c = b")
      case True
      then show ?thesis using bl by (simp add: absTable_nth length_absTable)
    next
      case False
      from map_absNode_frame [OF other [OF cl False]] cl False
      show ?thesis by (simp add: absTable_nth length_absTable)
    qed
  qed
  with o1 u show ?thesis by simp
qed

lemma unlinkLoopH_refines:
  assumes "pathTo s (Some prev) (prev # cs) None" "distinct (prev # cs)"
    "nodes s prev = Some pn"
  shows "case unlinkLoop w (map (absNode s) cs) of
           None \<Rightarrow> unlinkLoopH w (Some prev) (nextH pn) s = Some (None, s)
         | Some (c, rest') \<Rightarrow>
             \<exists>s' cs'. unlinkLoopH w (Some prev) (nextH pn) s = Some (Some c, s') \<and>
               pathTo s' (Some prev) (prev # cs') None \<and>
               map (absNode s') (prev # cs') = absNode s prev # rest' \<and>
               distinct (prev # cs') \<and> set cs' \<subseteq> set cs \<and>
               fresh s' = fresh s \<and> arrays s' = arrays s \<and>
               (\<forall>a. a \<notin> set (prev # cs) \<longrightarrow> nodes s' a = nodes s a)"
  using assms
proof (induction cs arbitrary: prev pn)
  case Nil
  then have "nextH pn = None" by simp
  then show ?case by (simp add: unlinkLoopH.simps)
next
  case (Cons ca cs)
  from Cons.prems have nx: "nextH pn = Some ca" by (simp split: option.splits)
  from Cons.prems nx have p2: "pathTo s (Some ca) (ca # cs) None" by simp
  then obtain cn where cn: "nodes s ca = Some cn" and p3: "pathTo s (nextH cn) cs None"
    by (auto split: option.splits)
  from Cons.prems have d: "prev \<noteq> ca" "prev \<notin> set cs" "ca \<notin> set cs" "distinct cs" by auto
  have ac: "absNode s ca = \<lparr>word = wordH cn, wordCount = wordCountH cn\<rparr>"
    using cn by (rule absNode_Some)
  show ?case
  proof (cases "wordH cn = w")
    case True
    let ?s1 = "s\<lparr>nodes := (nodes s)(prev \<mapsto> pn\<lparr>nextH := nextH cn\<rparr>)\<rparr>"
    let ?s2 = "?s1\<lparr>nodes := (nodes ?s1)(ca := None)\<rparr>"
    have u: "unlinkLoopH w (Some prev) (nextH pn) s = Some (Some (wordCountH cn), ?s2)"
      using True cn Cons.prems(3) d(1) nx
      by (simp add: unlinkLoopH.simps [of w "Some prev" "Some ca"] setNext_def deleteNode_def)
    have v: "unlinkLoop w (map (absNode s) (ca # cs)) = Some (wordCountH cn, map (absNode s) cs)"
      using True ac by simp
    have fr: "\<forall>a \<in> set cs. nodes ?s2 a = nodes s a" using d by auto
    have "pathTo ?s2 (nextH cn) cs None" using pathTo_frame [OF fr] p3 by simp
    then have p: "pathTo ?s2 (Some prev) (prev # cs) None" using d(1) by simp
    have "absNode ?s2 prev = absNode s prev"
      using d(1) Cons.prems(3) by (simp add: absNode_def)
    then have m: "map (absNode ?s2) (prev # cs) = absNode s prev # map (absNode s) cs"
      using map_absNode_frame [OF fr] by simp
    have "\<forall>a. a \<notin> set (prev # ca # cs) \<longrightarrow> nodes ?s2 a = nodes s a" by simp
    with u p m d show ?thesis unfolding v by (auto simp del: pathTo.simps)
  next
    case False
    have u: "unlinkLoopH w (Some prev) (nextH pn) s = unlinkLoopH w (Some ca) (nextH cn) s"
      using False cn Cons.prems(3) nx
      by (simp add: unlinkLoopH.simps [of w "Some prev" "Some ca"])
    have v: "unlinkLoop w (map (absNode s) (ca # cs)) =
        map_option (\<lambda>(c, rest'). (c, absNode s ca # rest')) (unlinkLoop w (map (absNode s) cs))"
      using False ac by simp
    have dd: "distinct (ca # cs)" using d by simp
    note IH = Cons.IH [OF p2 dd cn]
    show ?thesis
    proof (cases "unlinkLoop w (map (absNode s) cs)")
      case None
      with IH u v show ?thesis by simp
    next
      case (Some r)
      obtain c rest' where r: "r = (c, rest')" by (cases r)
      from IH Some r obtain s' cs' where
        i: "unlinkLoopH w (Some ca) (nextH cn) s = Some (Some c, s')"
        "pathTo s' (Some ca) (ca # cs') None"
        "map (absNode s') (ca # cs') = absNode s ca # rest'"
        "distinct (ca # cs')" "set cs' \<subseteq> set cs"
        "fresh s' = fresh s" "arrays s' = arrays s"
        "\<forall>a. a \<notin> set (ca # cs) \<longrightarrow> nodes s' a = nodes s a"
        by auto
      have np: "nodes s' prev = nodes s prev" using i(8) d by simp
      then have p: "pathTo s' (Some prev) (prev # ca # cs') None"
        using i(2) Cons.prems(3) nx by simp
      have "absNode s' prev = absNode s prev" using np by (rule absNode_frame)
      with i(3) have m: "map (absNode s') (prev # ca # cs') = absNode s prev # absNode s ca # rest'"
        by simp
      have dn: "distinct (prev # ca # cs')" using i(4,5) d by auto
      have sb: "set (ca # cs') \<subseteq> set (ca # cs)" using i(5) by auto
      have fo: "\<forall>a. a \<notin> set (prev # ca # cs) \<longrightarrow> nodes s' a = nodes s a" using i(8) by simp
      have "\<exists>s'' cs''. unlinkLoopH w (Some prev) (nextH pn) s = Some (Some c, s'') \<and>
               pathTo s'' (Some prev) (prev # cs'') None \<and>
               map (absNode s'') (prev # cs'') = absNode s prev # absNode s ca # rest' \<and>
               distinct (prev # cs'') \<and> set cs'' \<subseteq> set (ca # cs) \<and>
               fresh s'' = fresh s \<and> arrays s'' = arrays s \<and>
               (\<forall>a. a \<notin> set (prev # ca # cs) \<longrightarrow> nodes s'' a = nodes s a)"
      proof (intro exI conjI)
        show "unlinkLoopH w (Some prev) (nextH pn) s = Some (Some c, s')" using u i(1) by simp
        show "pathTo s' (Some prev) (prev # ca # cs') None" by (rule p)
        show "map (absNode s') (prev # ca # cs') = absNode s prev # absNode s ca # rest'"
          by (rule m)
        show "distinct (prev # ca # cs')" by (rule dn)
        show "set (ca # cs') \<subseteq> set (ca # cs)" by (rule sb)
        show "fresh s' = fresh s" by (rule i(6))
        show "arrays s' = arrays s" by (rule i(7))
        show "\<forall>a. a \<notin> set (prev # ca # cs) \<longrightarrow> nodes s' a = nodes s a" by (rule fo)
      qed
      then show ?thesis unfolding v Some r by simp
    qed
  qed
qed

lemma unchangedOutside_refl: "unchangedOutside s s A t"
  by (simp add: unchangedOutside_def)

lemma removeWordH_refines:
  assumes o: "owns s obj t ass" and wf: "wellFormed h (absWordCounter s obj ass)"
  shows "\<exists>s' obj' t' ass'. removeWordH h s obj w = Some (s', obj') \<and>
     removeWord h (absWordCounter s obj ass) w = Some (absWordCounter s' obj' ass') \<and>
     owns s' obj' t' ass' \<and> unchangedOutside s s' (set (concat ass)) t \<and>
     footprintFrom s t ass t' ass'"
proof -
  let ?wc = "absWordCounter s obj ass"
  let ?tab = "absTable s ass"
  let ?ib = "uint (h w) mod capacityH obj"
  let ?b = "nat ?ib"
  from wf have ok: "tableOk h (capacity ?wc) (wordTable ?wc)" by (simp add: wellFormed_def)
  then have okH: "tableOk h (capacityH obj) ?tab" by (simp add: absWordCounter_simps)
  then have c: "capacityH obj \<in> set primes" and l: "length ass = nat (capacityH obj)"
    by (simp_all add: tableOk_iff2 length_absTable)
  from o have t: "wordTableH obj = Some t" and tl: "t < fresh s" and tr: "tableRep s t ass"
    and d: "distinct (concat ass)" and fr: "\<forall>a \<in> set (concat ass). a < fresh s"
    by (simp_all add: owns_def)
  have r: "0 \<le> ?ib" "?b < length ass" using bucket_range [OF c, of h w] l by simp_all
  have lb: "?b < length ?tab" using r(2) by (simp add: length_absTable)
  from tableRepD [OF tr] obtain heads where hd: "arrays s t = Some heads"
    "length heads = length ass" "\<forall>b < length ass. pathTo s (heads ! b) (ass ! b) None"
    by blast
  have rs: "readSlot s t ?ib = Some (heads ! ?b)"
    using hd(1,2) r by (intro readSlot_Some) simp_all
  note gh = getWordNodeH_ok [OF o c l, of h w]
  have gv: "getWordNode h ?wc w = Some (map_option (Pair ?ib) (findNode w (?tab ! ?b)))"
    using getWordNode_ok [OF ok, of w] by (simp add: absWordCounter_simps)
  have gb: "getBucket h w (capacityH obj) = Some ?ib" by (rule getBucket_primes [OF c])
  have ba: "bucketAt ?tab ?ib = Some (?tab ! ?b)" using r(1) lb by (rule bucketAt_Some)
  have bs: "bucketSet ?tab ?ib ch = Some (?tab[?b := ch])" for ch
    using r(1) lb by (rule bucketSet_Some)
  show ?thesis
  proof (cases "findNode w (?tab ! ?b)")
    case None
    have "removeWordH h s obj w = Some (s, obj)" using None by (simp add: removeWordH_def gh)
    moreover have "removeWord h ?wc w = Some (absWordCounter s obj ass)"
      using None by (simp add: removeWord_def gv)
    moreover note o unchangedOutside_refl [of s "set (concat ass)" t]
      footprintFrom_refl [of s t ass]
    ultimately show ?thesis by blast
  next
    case (Some i)
    have tb: "?tab ! ?b = map (absNode s) (ass ! ?b)" using r(2) by (rule absTable_nth)
    from Some tb obtain ha cs where ch: "ass ! ?b = ha # cs" by (cases "ass ! ?b") auto
    from hd(3) r(2) ch have hp: "pathTo s (heads ! ?b) (ha # cs) None" by auto
    then have hh: "heads ! ?b = Some ha" by simp
    from hp obtain hn where hn: "nodes s ha = Some hn" and pc: "pathTo s (nextH hn) cs None"
      by (auto split: option.splits)
    have dch: "distinct (ha # cs)" using distinct_concat_nth [OF d r(2)] ch by simp
    have ah: "absNode s ha = \<lparr>word = wordH hn, wordCount = wordCountH hn\<rparr>"
      using hn by (rule absNode_Some)
    have tb2: "?tab ! ?b = absNode s ha # map (absNode s) cs" using tb ch by simp
    let ?C = "\<lambda>obj1. getLoadFactorH obj1 < MIN_LOAD_FACTOR \<and> capacityH obj > MIN_CAPACITY"
    have mid: "\<exists>s1 obj1 ass1 pre n post.
        removeWordH h s obj w =
          (if ?C obj1 then resizeH h s1 obj1 (capacityH obj div 2) else Some (s1, obj1)) \<and>
        removeWord h ?wc w =
          (if ?C obj1 then resize h (absWordCounter s1 obj1 ass1) (capacityH obj div 2)
           else Some (absWordCounter s1 obj1 ass1)) \<and>
        owns s1 obj1 t ass1 \<and> unchangedOutside s s1 (set (concat ass)) t \<and>
        ?tab ! ?b = pre @ n # post \<and> absTable s1 ass1 = ?tab[?b := pre @ post] \<and>
        capacityH obj1 = capacityH obj \<and> set (concat ass1) \<subseteq> set (concat ass)"
    proof (cases "wordH hn = w")
      case True
      let ?obj1 = "updateWordCountsPostRemovalH obj (wordCountH hn)"
      let ?s1 = "s\<lparr>arrays := (arrays s)(t \<mapsto> heads[?b := nextH hn])\<rparr>"
      let ?s2 = "?s1\<lparr>nodes := (nodes ?s1)(ha := None)\<rparr>"
      let ?ass1 = "ass[?b := cs]"
      have ws: "writeSlot s t ?ib (nextH hn) = Some ?s1"
        using hd(1) r(1) by (rule writeSlot_Some) (simp add: hd(2) r(2))
      have dn: "deleteNode ?s1 ha = Some ?s2" using hn by (simp add: deleteNode_def)
      have fc: "\<forall>a \<in> set cs. nodes ?s2 a = nodes s a" using dch by auto
      have pt: "pathTo ?s2 (nextH hn) cs None" using pathTo_frame [OF fc] pc by simp
      have mc: "map (absNode ?s2) cs = map (absNode s) cs" by (rule map_absNode_frame [OF fc])
      have t1: "wordTableH ?obj1 = Some t" using t by (simp add: updateWordCountsPostRemovalH_def)
      have orc: "owns ?s2 ?obj1 t ?ass1 \<and> unchangedOutside s ?s2 (set (concat ass)) t \<and>
          absTable ?s2 ?ass1 = ?tab[?b := map (absNode ?s2) cs]"
      proof (rule owns_replace_chain [OF o r(2) hd(1) _ _ _ pt _ _ t1])
        show "arrays ?s2 = (arrays s)(t \<mapsto> heads[?b := nextH hn])" by simp
        show "fresh ?s2 = fresh s" by simp
        show "\<forall>a. a \<notin> set (ass ! ?b) \<longrightarrow> nodes ?s2 a = nodes s a" using ch by simp
        show "distinct cs" using dch by simp
        show "set cs \<subseteq> set (ass ! ?b)" using ch by auto
      qed
      note o1 = orc [THEN conjunct1] and u1 = orc [THEN conjunct2, THEN conjunct1]
      have at: "absTable ?s2 ?ass1 = ?tab[?b := map (absNode s) cs]"
        using orc [THEN conjunct2, THEN conjunct2] unfolding mc .
      have eH: "removeWordH h s obj w =
          (if ?C ?obj1 then resizeH h ?s2 ?obj1 (capacityH obj div 2) else Some (?s2, ?obj1))"
        using Some True hn ws dn
        by (simp add: removeWordH_def gh gb t rs hh updateWordCountsPostRemovalH_def
            del: fun_upd_apply)
      have e1: "(updateWordCountsPostRemoval ?wc (wordCountH hn))\<lparr>wordTable := ?tab[?b := map (absNode s) cs]\<rparr>
          = absWordCounter ?s2 ?obj1 ?ass1"
        unfolding absWordCounter_def at
        by (simp add: updateWordCountsPostRemoval_def updateWordCountsPostRemovalH_def)
      have lf: "getLoadFactor (absWordCounter ?s2 ?obj1 ?ass1) = getLoadFactorH ?obj1"
        by (simp add: getLoadFactor_def getLoadFactorH_def absWordCounter_simps)
      have c1: "capacity (absWordCounter ?s2 ?obj1 ?ass1) = capacityH obj"
        by (simp add: absWordCounter_simps updateWordCountsPostRemovalH_def)
      have eV0: "removeWord h ?wc w =
          Some ((updateWordCountsPostRemoval ?wc (wordCountH hn))\<lparr>wordTable := ?tab[?b := map (absNode s) cs]\<rparr>)
          \<bind> (\<lambda>wc1. if getLoadFactor wc1 < MIN_LOAD_FACTOR \<and> capacity wc1 > MIN_CAPACITY
                 then resize h wc1 (capacity wc1 div 2) else Some wc1)"
        using Some True
        by (simp add: removeWord_def gv absWordCounter_simps gb ba tb2 ah Let_def bs
            updateWordCountsPostRemoval_def)
      have eV: "removeWord h ?wc w =
          (if ?C ?obj1 then resize h (absWordCounter ?s2 ?obj1 ?ass1) (capacityH obj div 2)
           else Some (absWordCounter ?s2 ?obj1 ?ass1))"
        unfolding eV0 e1 Option.bind.simps lf c1 by simp
      have dc: "?tab ! ?b = [] @ absNode s ha # map (absNode s) cs" using tb2 by simp
      have at2: "absTable ?s2 ?ass1 = ?tab[?b := [] @ map (absNode s) cs]" using at by simp
      have cc: "capacityH ?obj1 = capacityH obj" by (simp add: updateWordCountsPostRemovalH_def)
      have sb: "set (concat ?ass1) \<subseteq> set (concat ass)"
        by (rule set_concat_update_sub [OF r(2)]) (simp add: ch subset_insertI)
      show ?thesis
        by (intro exI conjI, rule eH, rule eV, rule o1, rule u1, rule dc, rule at2, rule cc, rule sb)
    next
      case False
      from Some False ah tb2 have fnn: "findNode w (map (absNode s) cs) \<noteq> None" by auto
      then obtain j where fj: "findNode w (map (absNode s) cs) = Some j" by auto
      from fnn have "w \<in> word ` set (map (absNode s) cs)" by (simp add: findNode_None)
      from unlinkLoop_Some [OF this] obtain pre n post where
        sp: "map (absNode s) cs = pre @ n # post" and wn: "word n = w"
        and ul: "unlinkLoop w (map (absNode s) cs) = Some (wordCount n, pre @ post)"
        by blast
      have hp2: "pathTo s (Some ha) (ha # cs) None" using hp hh by simp
      from unlinkLoopH_refines [OF hp2 dch hn, of w] ul obtain s' cs' where
        u: "unlinkLoopH w (Some ha) (nextH hn) s = Some (Some (wordCount n), s')"
        "pathTo s' (Some ha) (ha # cs') None"
        "map (absNode s') (ha # cs') = absNode s ha # pre @ post"
        "distinct (ha # cs')" "set cs' \<subseteq> set cs"
        "fresh s' = fresh s" "arrays s' = arrays s"
        "\<forall>a. a \<notin> set (ha # cs) \<longrightarrow> nodes s' a = nodes s a"
        by auto
      let ?obj1 = "updateWordCountsPostRemovalH obj (wordCount n)"
      let ?ass1 = "ass[?b := ha # cs']"
      have t1: "wordTableH ?obj1 = Some t" using t by (simp add: updateWordCountsPostRemovalH_def)
      have hu: "heads[?b := Some ha] = heads" using hh by (metis list_update_id)
      have orc: "owns s' ?obj1 t ?ass1 \<and> unchangedOutside s s' (set (concat ass)) t \<and>
          absTable s' ?ass1 = ?tab[?b := map (absNode s') (ha # cs')]"
      proof (rule owns_replace_chain [OF o r(2) hd(1) _ _ _ u(2) u(4) _ t1])
        show "arrays s' = (arrays s)(t \<mapsto> heads[?b := Some ha])"
          unfolding hu u(7) using hd(1) by (simp add: map_upd_triv)
        show "fresh s' = fresh s" by (rule u(6))
        show "\<forall>a. a \<notin> set (ass ! ?b) \<longrightarrow> nodes s' a = nodes s a" using ch u(8) by simp
        show "set (ha # cs') \<subseteq> set (ass ! ?b)" using ch u(5) by auto
      qed
      note o1 = orc [THEN conjunct1] and u1 = orc [THEN conjunct2, THEN conjunct1]
      have at: "absTable s' ?ass1 = ?tab[?b := absNode s ha # pre @ post]"
        using orc [THEN conjunct2, THEN conjunct2] unfolding u(3) .
      have eH: "removeWordH h s obj w =
          (if ?C ?obj1 then resizeH h s' ?obj1 (capacityH obj div 2) else Some (s', ?obj1))"
        using Some False hn u(1)
        by (simp add: removeWordH_def gh gb t rs hh updateWordCountsPostRemovalH_def)
      have e1: "(updateWordCountsPostRemoval ?wc (wordCount n))\<lparr>wordTable := ?tab[?b := absNode s ha # pre @ post]\<rparr>
          = absWordCounter s' ?obj1 ?ass1"
        unfolding absWordCounter_def at
        by (simp add: updateWordCountsPostRemoval_def updateWordCountsPostRemovalH_def)
      have lf: "getLoadFactor (absWordCounter s' ?obj1 ?ass1) = getLoadFactorH ?obj1"
        by (simp add: getLoadFactor_def getLoadFactorH_def absWordCounter_simps)
      have c1: "capacity (absWordCounter s' ?obj1 ?ass1) = capacityH obj"
        by (simp add: absWordCounter_simps updateWordCountsPostRemovalH_def)
      have eV0: "removeWord h ?wc w =
          Some ((updateWordCountsPostRemoval ?wc (wordCount n))\<lparr>wordTable := ?tab[?b := absNode s ha # pre @ post]\<rparr>)
          \<bind> (\<lambda>wc1. if getLoadFactor wc1 < MIN_LOAD_FACTOR \<and> capacity wc1 > MIN_CAPACITY
                 then resize h wc1 (capacity wc1 div 2) else Some wc1)"
        using False
        by (simp add: ul fj removeWord_def gv absWordCounter_simps gb ba tb2 ah Let_def bs
            updateWordCountsPostRemoval_def)
      have eV: "removeWord h ?wc w =
          (if ?C ?obj1 then resize h (absWordCounter s' ?obj1 ?ass1) (capacityH obj div 2)
           else Some (absWordCounter s' ?obj1 ?ass1))"
        unfolding eV0 e1 Option.bind.simps lf c1 by simp
      have dc: "?tab ! ?b = (absNode s ha # pre) @ n # post" using tb2 sp by simp
      have at2: "absTable s' ?ass1 = ?tab[?b := (absNode s ha # pre) @ post]" using at by simp
      have cc: "capacityH ?obj1 = capacityH obj" by (simp add: updateWordCountsPostRemovalH_def)
      have sb: "set (concat ?ass1) \<subseteq> set (concat ass)"
        by (rule set_concat_update_sub [OF r(2)]) (use ch u(5) in auto)
      show ?thesis
        by (intro exI conjI, rule eH, rule eV, rule o1, rule u1, rule dc, rule at2, rule cc, rule sb)
    qed
    then obtain s1 obj1 ass1 pre n post where
      eH: "removeWordH h s obj w =
          (if ?C obj1 then resizeH h s1 obj1 (capacityH obj div 2) else Some (s1, obj1))"
      and eV: "removeWord h ?wc w =
          (if ?C obj1 then resize h (absWordCounter s1 obj1 ass1) (capacityH obj div 2)
           else Some (absWordCounter s1 obj1 ass1))"
      and o1: "owns s1 obj1 t ass1" and u1: "unchangedOutside s s1 (set (concat ass)) t"
      and dc: "?tab ! ?b = pre @ n # post" and at: "absTable s1 ass1 = ?tab[?b := pre @ post]"
      and cc: "capacityH obj1 = capacityH obj" and sb: "set (concat ass1) \<subseteq> set (concat ass)"
      by blast
    show ?thesis
    proof (cases "?C obj1")
      case False
      from eH eV have "removeWordH h s obj w = Some (s1, obj1)"
        "removeWord h ?wc w = Some (absWordCounter s1 obj1 ass1)"
        unfolding if_not_P [OF False] by simp_all
      moreover have "footprintFrom s t ass t ass1"
        by (rule footprintFrom_sub) (use sb in blast)
      ultimately show ?thesis using o1 u1 by blast
    next
      case True
      from table_delete [OF okH lb dc] at cc
      have ok1: "tableOk h (capacityH obj1) (absTable s1 ass1)" by simp
      let ?obj2 = "obj1\<lparr>capacityH := getValidCapacity (capacityH obj div 2),
                         wordTableH := Some (fresh s1)\<rparr>"
      from resizeH_refines [OF o1 ok1, of "capacityH obj div 2"] obtain s2 nass where
        rz: "resizeH h s1 obj1 (capacityH obj div 2) = Some (s2, ?obj2)"
        "resize h (absWordCounter s1 obj1 ass1) (capacityH obj div 2) =
          Some (absWordCounter s2 ?obj2 nass)"
        "owns s2 ?obj2 (fresh s1) nass"
        "unchangedOutside s1 s2 (set (concat ass1)) t"
        "footprintFrom s1 t ass1 (fresh s1) nass"
        by blast
      from eH eV have "removeWordH h s obj w = Some (s2, ?obj2)"
        "removeWord h ?wc w = Some (absWordCounter s2 ?obj2 nass)"
        unfolding if_P [OF True] rz(1,2) by simp_all
      moreover have "\<forall>a \<in> set (concat ass1). a \<in> set (concat ass) \<or> fresh s \<le> a"
        using sb by auto
      from unchangedOutside_trans [OF u1 rz(4) this]
      have "unchangedOutside s s2 (set (concat ass)) t" .
      moreover have "footprintFrom s t ass t ass1"
        by (rule footprintFrom_sub) (use sb in blast)
      from footprintFrom_trans [OF this rz(5)] u1
      have "footprintFrom s t ass (fresh s1) nass" by (simp add: unchangedOutside_def)
      ultimately show ?thesis using rz(3) by blast
    qed
  qed
qed

subsection \<open>Copying\<close>

lemma pathTo_set_last:
  assumes "pathTo s p dn None" "dn \<noteq> []" "distinct dn" "nodes s (last dn) = Some lnd"
  shows "pathTo (s\<lparr>nodes := (nodes s)(last dn \<mapsto> lnd\<lparr>nextH := q\<rparr>)\<rparr>) p dn q"
  using assms
proof (induction dn arbitrary: p)
  case Nil
  then show ?case by simp
next
  case (Cons a dn)
  from Cons.prems(1) obtain n where n: "p = Some a" "nodes s a = Some n" "pathTo s (nextH n) dn None"
    by (auto split: option.splits)
  show ?case
  proof (cases "dn = []")
    case True
    with Cons.prems n show ?thesis by simp
  next
    case False
    with Cons.prems(3) have ne: "last dn \<noteq> a" by auto
    let ?s' = "s\<lparr>nodes := (nodes s)(last dn \<mapsto> lnd\<lparr>nextH := q\<rparr>)\<rparr>"
    from False Cons.prems(4) have ll: "nodes s (last dn) = Some lnd" by simp
    from Cons.prems(3) have dd: "distinct dn" by simp
    have IH': "pathTo ?s' (nextH n) dn q" by (rule Cons.IH [OF n(3) False dd ll])
    have na: "nodes ?s' a = Some n" using n(2) ne by simp
    have "pathTo ?s' p (a # dn) q"
      unfolding pathTo.simps na using n(1) IH' by simp
    then show ?thesis unfolding last_ConsR [OF False] .
  qed
qed

lemma copyBucketLoopH_ok:
  assumes "pathTo s cur src None" "pathTo s an dn None"
    "tp = (if dn = [] then None else Some (last dn))"
    "distinct dn" "\<forall>a \<in> set dn. a < fresh s" "\<forall>a \<in> set src. a < fresh s"
    "set dn \<inter> set src = {}"
  shows "\<exists>hd' s'. copyBucketLoopH an tp cur s = Some (hd', s') \<and>
     pathTo s' hd' (dn @ [fresh s..<fresh s + length src]) None \<and>
     fresh s' = fresh s + length src \<and>
     map (absNode s') (dn @ [fresh s..<fresh s + length src]) =
       map (absNode s) dn @ map (absNode s) src \<and>
     arrays s' = arrays s \<and>
     (\<forall>a. a < fresh s \<and> a \<notin> set dn \<longrightarrow> nodes s' a = nodes s a)"
  using assms
proof (induction src arbitrary: s cur an dn tp)
  case Nil
  then have "cur = None" by simp
  with Nil show ?case by (simp add: copyBucketLoopH.simps)
next
  case (Cons a src)
  from Cons.prems(1) obtain cn where cu: "cur = Some a" and cn: "nodes s a = Some cn"
    and p: "pathTo s (nextH cn) src None"
    by (auto split: option.splits)
  let ?f = "fresh s"
  let ?s1 = "allocNode s (wordH cn) (wordCountH cn) None"
  have f1: "fresh ?s1 = Suc ?f" by (simp add: allocNode_def)
  have nf: "nodes ?s1 ?f = Some \<lparr>wordH = wordH cn, wordCountH = wordCountH cn, nextH = None\<rparr>"
    by (simp add: allocNode_def)
  have old1: "nodes ?s1 x = nodes s x" if "x \<noteq> ?f" for x
    using that by (simp add: allocNode_def)
  have ar1: "arrays ?s1 = arrays s" by (simp add: allocNode_def)
  have aa: "absNode s a = \<lparr>word = wordH cn, wordCount = wordCountH cn\<rparr>"
    using cn by (rule absNode_Some)
  have sf: "?f \<notin> set src" "?f \<noteq> a" "?f \<notin> set dn" using Cons.prems(5,6) by auto
  have sfs: "x \<noteq> ?f" if "x \<in> set src" for x using that sf(1) by auto
  have sfd: "x \<noteq> ?f" if "x \<in> set dn" for x using that sf(3) by auto
  have up: "[?f..<?f + length (a # src)] = ?f # [Suc ?f..<Suc ?f + length src]"
    by (subst upt_rec) simp
  show ?case
  proof (cases "dn = []")
    case True
    with Cons.prems(3) have tp: "tp = None" by simp
    have st: "copyBucketLoopH an tp cur s =
        copyBucketLoopH (Some ?f) (Some ?f) (nextH cn) ?s1"
      using cu cn tp by (simp add: copyBucketLoopH.simps [of an None "Some a"])
    have fs: "\<forall>x \<in> set src. nodes ?s1 x = nodes s x" using old1 [OF sfs] by simp
    have p1: "pathTo ?s1 (nextH cn) src None" using pathTo_frame [OF fs] p by simp
    have d1: "pathTo ?s1 (Some ?f) [?f] None" using nf by simp
    have "\<exists>hd' s'. copyBucketLoopH (Some ?f) (Some ?f) (nextH cn) ?s1 = Some (hd', s') \<and>
       pathTo s' hd' ([?f] @ [fresh ?s1..<fresh ?s1 + length src]) None \<and>
       fresh s' = fresh ?s1 + length src \<and>
       map (absNode s') ([?f] @ [fresh ?s1..<fresh ?s1 + length src]) =
         map (absNode ?s1) [?f] @ map (absNode ?s1) src \<and>
       arrays s' = arrays ?s1 \<and>
       (\<forall>a. a < fresh ?s1 \<and> a \<notin> set [?f] \<longrightarrow> nodes s' a = nodes ?s1 a)"
    proof (rule Cons.IH [OF p1 d1])
      show "Some ?f = (if [?f] = [] then None else Some (last [?f]))" by simp
      show "distinct [?f]" by simp
      show "\<forall>a \<in> set [?f]. a < fresh ?s1" using f1 by simp
      show "\<forall>a \<in> set src. a < fresh ?s1" using f1 Cons.prems(6) by auto
      show "set [?f] \<inter> set src = {}" using sf(1) by simp
    qed
    then obtain hd' s' where
      i: "copyBucketLoopH (Some ?f) (Some ?f) (nextH cn) ?s1 = Some (hd', s')"
      "pathTo s' hd' ([?f] @ [fresh ?s1..<fresh ?s1 + length src]) None"
      "fresh s' = fresh ?s1 + length src"
      "map (absNode s') ([?f] @ [fresh ?s1..<fresh ?s1 + length src]) =
         map (absNode ?s1) [?f] @ map (absNode ?s1) src"
      "arrays s' = arrays ?s1"
      "\<forall>a. a < fresh ?s1 \<and> a \<notin> set [?f] \<longrightarrow> nodes s' a = nodes ?s1 a"
      by blast
    have m1: "map (absNode ?s1) [?f] @ map (absNode ?s1) src =
        map (absNode s) dn @ map (absNode s) (a # src)"
      using True aa nf map_absNode_frame [OF fs] by (simp add: absNode_Some)
    have fo: "\<forall>x. x < ?f \<and> x \<notin> set dn \<longrightarrow> nodes s' x = nodes s x"
    proof (intro allI impI)
      fix x assume x: "x < ?f \<and> x \<notin> set dn"
      then have "x \<noteq> ?f" by simp
      then have "nodes ?s1 x = nodes s x" by (rule old1)
      moreover have "nodes s' x = nodes ?s1 x" using i(6) x f1 by simp
      ultimately show "nodes s' x = nodes s x" by simp
    qed
    show ?thesis
    proof (intro exI conjI)
      show "copyBucketLoopH an tp cur s = Some (hd', s')" using st i(1) by simp
      show "pathTo s' hd' (dn @ [?f..<?f + length (a # src)]) None"
        unfolding up using i(2) True f1 by simp
      show "fresh s' = ?f + length (a # src)" using i(3) f1 by simp
      show "map (absNode s') (dn @ [?f..<?f + length (a # src)]) =
          map (absNode s) dn @ map (absNode s) (a # src)"
        unfolding up m1 [symmetric] using i(4) True f1 by simp
      show "arrays s' = arrays s" using i(5) ar1 by simp
      show "\<forall>a. a < ?f \<and> a \<notin> set dn \<longrightarrow> nodes s' a = nodes s a" by (rule fo)
    qed
  next
    case False
    let ?ta = "last dn"
    from False Cons.prems(3) have tp: "tp = Some ?ta" by simp
    from False have tin: "?ta \<in> set dn" by simp
    from pathTo_live [OF Cons.prems(2) tin] obtain lnd where lnd: "nodes s ?ta = Some lnd" by blast
    have tf: "?ta \<noteq> ?f" using tin by (rule sfd)
    have lnd1: "nodes ?s1 ?ta = Some lnd" using lnd old1 [OF tf] by simp
    let ?s2 = "?s1\<lparr>nodes := (nodes ?s1)(?ta \<mapsto> lnd\<lparr>nextH := Some ?f\<rparr>)\<rparr>"
    have sn: "setNext ?s1 ?ta (Some ?f) = Some ?s2" using lnd1 by (simp add: setNext_def)
    have st: "copyBucketLoopH an tp cur s = copyBucketLoopH an (Some ?f) (nextH cn) ?s2"
      using cu cn tp sn by (simp add: copyBucketLoopH.simps [of an "Some ?ta" "Some a"])
    have f2: "fresh ?s2 = Suc ?f" using f1 by simp
    have ts: "?ta \<notin> set src" "?ta \<noteq> a" using tin Cons.prems(7) by auto
    have tsr: "x \<noteq> ?ta" if "x \<in> set src" for x using that ts(1) by auto
    have fs: "\<forall>x \<in> set src. nodes ?s2 x = nodes s x" using old1 [OF sfs] tsr by simp
    have p2: "pathTo ?s2 (nextH cn) src None" using pathTo_frame [OF fs] p by simp
    have fd: "\<forall>x \<in> set dn. nodes ?s1 x = nodes s x" using old1 [OF sfd] by simp
    have pd1: "pathTo ?s1 an dn None" using pathTo_frame [OF fd] Cons.prems(2) by simp
    have pd2: "pathTo ?s2 an dn (Some ?f)"
      by (rule pathTo_set_last [OF pd1 False Cons.prems(4) lnd1])
    have nf2: "nodes ?s2 ?f = Some \<lparr>wordH = wordH cn, wordCountH = wordCountH cn, nextH = None\<rparr>"
      using nf tf by simp
    then have "pathTo ?s2 (Some ?f) [?f] None" by simp
    with pd2 have d2: "pathTo ?s2 an (dn @ [?f]) None" unfolding pathTo_append by blast
    have "\<exists>hd' s'. copyBucketLoopH an (Some ?f) (nextH cn) ?s2 = Some (hd', s') \<and>
       pathTo s' hd' ((dn @ [?f]) @ [fresh ?s2..<fresh ?s2 + length src]) None \<and>
       fresh s' = fresh ?s2 + length src \<and>
       map (absNode s') ((dn @ [?f]) @ [fresh ?s2..<fresh ?s2 + length src]) =
         map (absNode ?s2) (dn @ [?f]) @ map (absNode ?s2) src \<and>
       arrays s' = arrays ?s2 \<and>
       (\<forall>a. a < fresh ?s2 \<and> a \<notin> set (dn @ [?f]) \<longrightarrow> nodes s' a = nodes ?s2 a)"
    proof (rule Cons.IH [OF p2 d2])
      show "Some ?f = (if dn @ [?f] = [] then None else Some (last (dn @ [?f])))" by simp
      show "distinct (dn @ [?f])" using Cons.prems(4) sf(3) by simp
      show "\<forall>a \<in> set (dn @ [?f]). a < fresh ?s2" using f2 Cons.prems(5) by auto
      show "\<forall>a \<in> set src. a < fresh ?s2" using f2 Cons.prems(6) by auto
      show "set (dn @ [?f]) \<inter> set src = {}" using sf(1) Cons.prems(7) by auto
    qed
    then obtain hd' s' where
      i: "copyBucketLoopH an (Some ?f) (nextH cn) ?s2 = Some (hd', s')"
      "pathTo s' hd' ((dn @ [?f]) @ [fresh ?s2..<fresh ?s2 + length src]) None"
      "fresh s' = fresh ?s2 + length src"
      "map (absNode s') ((dn @ [?f]) @ [fresh ?s2..<fresh ?s2 + length src]) =
         map (absNode ?s2) (dn @ [?f]) @ map (absNode ?s2) src"
      "arrays s' = arrays ?s2"
      "\<forall>a. a < fresh ?s2 \<and> a \<notin> set (dn @ [?f]) \<longrightarrow> nodes s' a = nodes ?s2 a"
      by blast
    have ad: "absNode ?s2 x = absNode s x" if "x \<in> set dn" for x
    proof (cases "x = ?ta")
      case True
      then show ?thesis using lnd by (simp add: absNode_def)
    next
      case False
      with old1 [OF sfd [OF that]] have "nodes ?s2 x = nodes s x" by simp
      then show ?thesis by (rule absNode_frame)
    qed
    then have md: "map (absNode ?s2) dn = map (absNode s) dn" by simp
    have m1: "map (absNode ?s2) (dn @ [?f]) @ map (absNode ?s2) src =
        map (absNode s) dn @ map (absNode s) (a # src)"
      using md aa nf2 map_absNode_frame [OF fs] by (simp add: absNode_Some)
    have fo: "\<forall>x. x < ?f \<and> x \<notin> set dn \<longrightarrow> nodes s' x = nodes s x"
    proof (intro allI impI)
      fix x assume x: "x < ?f \<and> x \<notin> set dn"
      then have xn: "x \<noteq> ?ta" "x \<noteq> ?f" using tin by auto
      have "nodes ?s2 x = nodes s x" using old1 [OF xn(2)] xn(1) by simp
      moreover have "nodes s' x = nodes ?s2 x" using i(6) x f2 by simp
      ultimately show "nodes s' x = nodes s x" by simp
    qed
    show ?thesis
    proof (intro exI conjI)
      show "copyBucketLoopH an tp cur s = Some (hd', s')" using st i(1) by simp
      show "pathTo s' hd' (dn @ [?f..<?f + length (a # src)]) None"
        unfolding up using i(2) f2 by simp
      show "fresh s' = ?f + length (a # src)" using i(3) f2 by simp
      show "map (absNode s') (dn @ [?f..<?f + length (a # src)]) =
          map (absNode s) dn @ map (absNode s) (a # src)"
        unfolding up m1 [symmetric] using i(4) f2 by simp
      show "arrays s' = arrays s" using i(5) ar1 by simp
      show "\<forall>a. a < ?f \<and> a \<notin> set dn \<longrightarrow> nodes s' a = nodes s a" by (rule fo)
    qed
  qed
qed

lemma copyBucketH_ok:
  assumes "pathTo s p src None" "\<forall>a \<in> set src. a < fresh s"
  shows "\<exists>hd' s'. copyBucketH s p = Some (hd', s') \<and>
     pathTo s' hd' [fresh s..<fresh s + length src] None \<and>
     fresh s' = fresh s + length src \<and>
     map (absNode s') [fresh s..<fresh s + length src] = map (absNode s) src \<and>
     arrays s' = arrays s \<and> grownFrom s s' nt"
proof -
  have "pathTo s None [] None" by simp
  from copyBucketLoopH_ok [OF assms(1) this, of None] assms(2)
  obtain hd' s' where r: "copyBucketLoopH None None p s = Some (hd', s')"
     "pathTo s' hd' [fresh s..<fresh s + length src] None"
     "fresh s' = fresh s + length src"
     "map (absNode s') [fresh s..<fresh s + length src] = map (absNode s) src"
     "arrays s' = arrays s"
     "\<forall>a. a < fresh s \<longrightarrow> nodes s' a = nodes s a"
    by auto
  have "grownFrom s s' nt" using r(3,5,6) by (simp add: grownFrom_def)
  with r show ?thesis unfolding copyBucketH_def by blast
qed

lemma set_concat_update:
  assumes "b < length xss"
  shows "set (concat (xss[b := xs])) \<subseteq> set xs \<union> set (concat xss)"
proof -
  have "concat (xss[b := xs]) = concat (take b xss) @ xs @ concat (drop (Suc b) xss)"
    using concat_update [OF assms] by simp
  moreover have "concat xss = concat (take b xss) @ xss ! b @ concat (drop (Suc b) xss)"
    using concat_nth_split [OF assms] by simp
  ultimately show ?thesis by auto
qed

lemma chain_below:
  assumes "\<forall>a \<in> set (concat xss). a < f" "c < length xss" "a \<in> set (xss ! c)"
  shows "a < f"
proof -
  from assms(2) have "xss ! c \<in> set xss" by simp
  with assms(3) have "a \<in> set (concat xss)" by auto
  with assms(1) show ?thesis by blast
qed

lemma fill_bucket:
  assumes ck: "chainsOk s nt nass" and bl: "b < length nass" and em: "nass ! b = []"
    and g: "grownFrom s s1 nt" and a1: "arrays s1 = arrays s"
    and pt: "pathTo s1 p new None" and dn: "distinct new"
    and fn: "\<forall>a \<in> set new. fresh s \<le> a \<and> a < fresh s1"
  shows "\<exists>s2. writeSlot s1 nt (int b) p = Some s2 \<and> chainsOk s2 nt (nass[b := new]) \<and>
     nodes s2 = nodes s1 \<and> fresh s2 = fresh s1 \<and>
     (\<forall>t'. t' \<noteq> nt \<longrightarrow> arrays s2 t' = arrays s1 t')"
proof -
  from ck have tr: "tableRep s nt nass" and d: "distinct (concat nass)"
    and fr: "\<forall>a \<in> set (concat nass). a < fresh s"
    by (simp_all add: chainsOk_def)
  from tableRepD [OF tr] obtain heads where hd: "arrays s nt = Some heads"
    "length heads = length nass" "\<forall>b < length nass. pathTo s (heads ! b) (nass ! b) None"
    by blast
  from g have g': "fresh s \<le> fresh s1" "\<forall>a. a < fresh s \<longrightarrow> nodes s1 a = nodes s a"
    by (simp_all add: grownFrom_def)
  let ?s2 = "s1\<lparr>arrays := (arrays s1)(nt \<mapsto> heads[b := p])\<rparr>"
  have hd1: "arrays s1 nt = Some heads" using hd(1) a1 by simp
  have ws: "writeSlot s1 nt (int b) p = Some ?s2"
    using writeSlot_Some [OF hd1, of "int b" p] bl hd(2) by simp
  have tr2: "tableRep ?s2 nt (nass[b := new])"
  proof (rule tableRepI)
    show "arrays ?s2 nt = Some (heads[b := p])" by simp
    show "length (heads[b := p]) = length (nass[b := new])" using hd(2) by simp
    show "\<forall>c < length (nass[b := new]).
        pathTo ?s2 (heads[b := p] ! c) (nass[b := new] ! c) None"
    proof (intro allI impI)
      fix c assume c: "c < length (nass[b := new])"
      then have cl: "c < length nass" by simp
      show "pathTo ?s2 (heads[b := p] ! c) (nass[b := new] ! c) None"
      proof (cases "c = b")
        case True
        have "pathTo ?s2 p new None = pathTo s1 p new None" by (rule pathTo_frame) simp
        with pt True bl hd(2) show ?thesis by simp
      next
        case False
        have "\<forall>a \<in> set (nass ! c). a < fresh s" using fr cl by auto
        then have "\<forall>a \<in> set (nass ! c). nodes ?s2 a = nodes s a" using g'(2) by simp
        from pathTo_frame [OF this] hd(3) cl False show ?thesis by simp
      qed
    qed
  qed
  have e1: "concat (nass[b := new]) = concat (take b nass) @ new @ concat (drop (Suc b) nass)"
    using concat_update [OF bl] by simp
  have e0: "concat nass = concat (take b nass) @ concat (drop (Suc b) nass)"
    using concat_nth_split [OF bl] em by simp
  have disj: "set new \<inter> set (concat nass) = {}" using fn fr by fastforce
  have d2: "distinct (concat (nass[b := new]))"
    using d dn disj unfolding e1 e0 by auto
  have f2: "\<forall>a \<in> set (concat (nass[b := new])). a < fresh ?s2"
  proof
    fix a assume "a \<in> set (concat (nass[b := new]))"
    with set_concat_update [OF bl, of new] have "a \<in> set new \<or> a \<in> set (concat nass)"
      by blast
    then show "a < fresh ?s2"
    proof
      assume "a \<in> set new"
      with fn show ?thesis by simp
    next
      assume "a \<in> set (concat nass)"
      with fr have "a < fresh s" by blast
      with g'(1) show ?thesis by simp
    qed
  qed
  have "chainsOk ?s2 nt (nass[b := new])" using tr2 d2 f2 by (simp add: chainsOk_def)
  with ws show ?thesis by simp
qed

lemma copyLoopH_ok:
  "t \<noteq> nt \<Longrightarrow> chainsOk s t ass \<Longrightarrow> length ass = nat cap \<Longrightarrow> 0 \<le> bucket \<Longrightarrow>
   chainsOk s nt nass \<Longrightarrow> length nass = nat cap \<Longrightarrow>
   (\<forall>b. nat bucket \<le> b \<and> b < nat cap \<longrightarrow> nass ! b = []) \<Longrightarrow>
     \<exists>s' nass'. copyLoopH t cap nt bucket s = Some s' \<and>
       chainsOk s' nt nass' \<and> length nass' = nat cap \<and> grownFrom s s' nt \<and>
       set (concat nass') \<subseteq> set (concat nass) \<union> {a. fresh s \<le> a} \<and>
       (\<forall>b < nat cap. map (absNode s') (nass' ! b) =
          (if b < nat bucket then map (absNode s) (nass ! b) else map (absNode s) (ass ! b)))"
proof (induction t cap nt bucket s arbitrary: nass rule: copyLoopH.induct)
  case (1 otherTable cap newTable bucket s)
  note tn = "1.prems"(1) and ck = "1.prems"(2) and l = "1.prems"(3) and b0 = "1.prems"(4)
    and nk = "1.prems"(5) and nl = "1.prems"(6) and em = "1.prems"(7)
  show ?case
  proof (cases "bucket < cap")
    case False
    then have "copyLoopH otherTable cap newTable bucket s = Some s"
      by (simp add: copyLoopH.simps)
    moreover have "\<forall>b < nat cap. map (absNode s) (nass ! b) =
          (if b < nat bucket then map (absNode s) (nass ! b) else map (absNode s) (ass ! b))"
    proof (intro allI impI)
      fix b assume "b < nat cap"
      with False b0 have "b < nat bucket" by simp
      then show "map (absNode s) (nass ! b) =
          (if b < nat bucket then map (absNode s) (nass ! b) else map (absNode s) (ass ! b))"
        by simp
    qed
    moreover have "set (concat nass) \<subseteq> set (concat nass) \<union> {a. fresh s \<le> a}" by simp
    ultimately show ?thesis using nk nl grownFrom_refl [of s newTable] by blast
  next
    case True
    let ?b = "nat bucket"
    from True l b0 have bl: "?b < length ass" by simp
    from True nl b0 have nbl: "?b < length nass" by simp
    have ib: "int ?b = bucket" using b0 by simp
    from ck have tr: "tableRep s otherTable ass" and fr: "\<forall>a \<in> set (concat ass). a < fresh s"
      by (simp_all add: chainsOk_def)
    from nk have nfr: "\<forall>a \<in> set (concat nass). a < fresh s" by (simp add: chainsOk_def)
    from tableRepD [OF tr] obtain heads where hd: "arrays s otherTable = Some heads"
      "length heads = length ass" "\<forall>b < length ass. pathTo s (heads ! b) (ass ! b) None"
      by blast
    have rs: "readSlot s otherTable bucket = Some (heads ! ?b)"
      using hd(1,2) b0 bl by (intro readSlot_Some) simp_all
    have p: "pathTo s (heads ! ?b) (ass ! ?b) None" using hd(3) bl by blast
    have lt: "\<forall>a \<in> set (ass ! ?b). a < fresh s" using fr bl by auto
    let ?new = "[fresh s..<fresh s + length (ass ! ?b)]"
    from copyBucketH_ok [OF p lt, of newTable] obtain hd' s1 where
      cb: "copyBucketH s (heads ! ?b) = Some (hd', s1)"
      "pathTo s1 hd' ?new None" "fresh s1 = fresh s + length (ass ! ?b)"
      "map (absNode s1) ?new = map (absNode s) (ass ! ?b)"
      "arrays s1 = arrays s" "grownFrom s s1 newTable"
      by blast
    have em0: "nass ! ?b = []" using em True b0 by simp
    have fn: "\<forall>a \<in> set ?new. fresh s \<le> a \<and> a < fresh s1" unfolding cb(3) by simp
    from fill_bucket [OF nk nbl em0 cb(6,5,2) _ fn] obtain s2 where
      w: "writeSlot s1 newTable (int ?b) hd' = Some s2"
      and nk2: "chainsOk s2 newTable (nass[?b := ?new])"
      and n2: "nodes s2 = nodes s1" and f2: "fresh s2 = fresh s1"
      and a2: "\<forall>t'. t' \<noteq> newTable \<longrightarrow> arrays s2 t' = arrays s1 t'"
      by auto
    have g12: "grownFrom s1 s2 newTable" using n2 f2 a2 by (simp add: grownFrom_def)
    have g2: "grownFrom s s2 newTable" using grownFrom_trans [OF cb(6) g12] .
    note ck2 = chainsOk_grown [OF ck g2 tn]
    have b1: "0 \<le> bucket + 1" using b0 by simp
    have nl2: "length (nass[?b := ?new]) = nat cap" using nl by simp
    have em2: "\<forall>b. nat (bucket + 1) \<le> b \<and> b < nat cap \<longrightarrow> nass[?b := ?new] ! b = []"
      using em b0 by auto
    have w2: "writeSlot s1 newTable bucket hd' = Some s2" using w unfolding ib .
    then have w': "writeSlot (snd (hd', s1)) newTable bucket (fst (hd', s1)) = Some s2"
      by simp
    from "1.IH" [OF True rs cb(1) w' tn ck2(1) l b1 nk2 nl2 em2] obtain s' nass' where
      ih: "copyLoopH otherTable cap newTable (bucket + 1) s2 = Some s'"
      "chainsOk s' newTable nass'" "length nass' = nat cap" "grownFrom s2 s' newTable"
      "set (concat nass') \<subseteq> set (concat (nass[?b := ?new])) \<union> {a. fresh s2 \<le> a}"
      "\<forall>b < nat cap. map (absNode s') (nass' ! b) =
          (if b < nat (bucket + 1) then map (absNode s2) (nass[?b := ?new] ! b)
           else map (absNode s2) (ass ! b))"
      by blast
    have stepH: "copyLoopH otherTable cap newTable bucket s = Some s'"
      using True by (subst copyLoopH.simps) (simp add: rs cb(1) w2 ih(1))
    from g2 have fs: "fresh s \<le> fresh s2" by (simp add: grownFrom_def)
    have "set ?new \<subseteq> {a. fresh s \<le> a}" by auto
    with set_concat_update [OF nbl, of ?new]
    have "set (concat (nass[?b := ?new])) \<subseteq> set (concat nass) \<union> {a. fresh s \<le> a}"
      by blast
    moreover have "{a. fresh s2 \<le> a} \<subseteq> {a. fresh s \<le> a}" using fs by auto
    ultimately have sub: "set (concat nass') \<subseteq> set (concat nass) \<union> {a. fresh s \<le> a}"
      using ih(5) by blast
    have nd2: "\<forall>a. a < fresh s \<longrightarrow> nodes s2 a = nodes s a"
      using g2 by (simp add: grownFrom_def)
    have pw: "\<forall>c < nat cap. map (absNode s') (nass' ! c) =
          (if c < ?b then map (absNode s) (nass ! c) else map (absNode s) (ass ! c))"
    proof (intro allI impI)
      fix c assume c: "c < nat cap"
      consider "c < ?b" | "c = ?b" | "?b < c" by linarith
      then show "map (absNode s') (nass' ! c) =
          (if c < ?b then map (absNode s) (nass ! c) else map (absNode s) (ass ! c))"
      proof cases
        case 1
        then have "c < nat (bucket + 1)" using b0 by simp
        with ih(6) c 1 have "map (absNode s') (nass' ! c) = map (absNode s2) (nass ! c)"
          by simp
        moreover have "\<forall>a \<in> set (nass ! c). nodes s2 a = nodes s a"
          using chain_below [OF nfr, of c] c nl nd2 by simp
        ultimately show ?thesis using 1 map_absNode_frame by simp
      next
        case 2
        then have "c < nat (bucket + 1)" using b0 by simp
        with ih(6) c 2 nbl have "map (absNode s') (nass' ! c) = map (absNode s2) ?new"
          by simp
        moreover have "map (absNode s2) ?new = map (absNode s1) ?new"
          by (rule map_absNode_frame) (simp add: n2)
        ultimately show ?thesis using cb(4) 2 by simp
      next
        case 3
        then have "\<not> c < nat (bucket + 1)" using b0 by simp
        with ih(6) c have "map (absNode s') (nass' ! c) = map (absNode s2) (ass ! c)"
          by simp
        moreover have "\<forall>a \<in> set (ass ! c). nodes s2 a = nodes s a"
          using chain_below [OF fr, of c] c l nd2 by simp
        ultimately show ?thesis using 3 map_absNode_frame by simp
      qed
    qed
    from stepH ih(2,3) grownFrom_trans [OF g2 ih(4)] sub pw show ?thesis by blast
  qed
qed

subsection \<open>Copy construction and assignment\<close>

lemma owns_chainsOk: "owns s obj t ass \<Longrightarrow> chainsOk s t ass"
  by (simp add: owns_def chainsOk_def)

lemma chainsOk_empty:
  "chainsOk (allocArray s n) (fresh s) (replicate n [])"
proof -
  have "tableRep (allocArray s n) (fresh s) (replicate n [])"
    by (rule tableRepI [of _ _ "replicate n None"]) (simp_all add: allocArray_def)
  then show ?thesis by (simp add: chainsOk_def concat_replicate_Nil)
qed

lemma owns_initializeH:
  "owns (fst (initializeH s c)) (snd (initializeH s c)) (fresh s) (replicate (nat c) [])"
  using chainsOk_empty [of s "nat c"]
  by (simp add: initializeH_def owns_def chainsOk_def allocArray_def)

lemma abs_initializeH:
  "absWordCounter (fst (initializeH s c)) (snd (initializeH s c)) (replicate (nat c) []) =
     initialize c"
  by (simp add: initializeH_def absWordCounter_def absTable_def initialize_def)

lemma copyH_refines:
  assumes o: "owns s other t ass" and l: "length ass = nat (capacityH other)"
  defines "cpy \<equiv> \<lparr>capacityH = capacityH other, totalWordCountH = totalWordCountH other,
      uniqueWordCountH = uniqueWordCountH other, wordTableH = Some (fresh s)\<rparr>"
  shows "\<exists>s' nass. copyH s other = Some (s', cpy) \<and> owns s' cpy (fresh s) nass \<and>
     absTable s' nass = absTable s ass \<and> grownFrom s s' (fresh s) \<and>
     (\<forall>a \<in> set (concat nass). fresh s \<le> a)"
proof -
  let ?len = "nat (capacityH other)" and ?nt = "fresh s"
  let ?sa = "allocArray s ?len"
  let ?emp = "replicate ?len [] :: nat list list"
  from o have t: "wordTableH other = Some t" and tl: "t < fresh s" by (simp_all add: owns_def)
  have tn: "t \<noteq> ?nt" using tl by simp
  have g0: "grownFrom s ?sa ?nt" by (simp add: grownFrom_def allocArray_def)
  note ck0 = chainsOk_grown [OF owns_chainsOk [OF o] g0 tn]
  have nk: "chainsOk ?sa ?nt ?emp" by (rule chainsOk_empty)
  have nl: "length ?emp = ?len" by simp
  have em: "\<forall>b. nat 0 \<le> b \<and> b < ?len \<longrightarrow> ?emp ! b = []" by simp
  from copyLoopH_ok [OF tn ck0(1) l _ nk nl em] obtain s' nass where
    r: "copyLoopH t (capacityH other) ?nt 0 ?sa = Some s'"
    "chainsOk s' ?nt nass" "length nass = ?len" "grownFrom ?sa s' ?nt"
    "set (concat nass) \<subseteq> set (concat ?emp) \<union> {a. fresh ?sa \<le> a}"
    "\<forall>b < ?len. map (absNode s') (nass ! b) =
       (if b < nat 0 then map (absNode ?sa) (?emp ! b) else map (absNode ?sa) (ass ! b))"
    by auto
  have cH: "copyH s other = Some (s', cpy)"
    by (simp add: copyH_def t r(1) cpy_def)
  have f0: "fresh ?sa = Suc (fresh s)" by (simp add: allocArray_def)
  from r(4) have "fresh ?sa \<le> fresh s'" by (simp add: grownFrom_def)
  then have ntl: "?nt < fresh s'" unfolding f0 by simp
  have ow: "owns s' cpy ?nt nass"
    using r(2) ntl by (simp add: owns_def chainsOk_def cpy_def)
  have at: "absTable s' nass = absTable s ass"
  proof (rule nth_equalityI)
    show "length (absTable s' nass) = length (absTable s ass)"
      using r(3) l by (simp add: length_absTable)
    fix b assume "b < length (absTable s' nass)"
    then have b: "b < ?len" using r(3) by (simp add: length_absTable)
    with r(6) have "map (absNode s') (nass ! b) = map (absNode ?sa) (ass ! b)" by simp
    moreover have "absNode ?sa = absNode s" by (simp add: absNode_def allocArray_def fun_eq_iff)
    ultimately show "absTable s' nass ! b = absTable s ass ! b"
      using b r(3) l by (simp add: absTable_nth)
  qed
  have g: "grownFrom s s' ?nt" using grownFrom_trans [OF g0 r(4)] .
  have new: "\<forall>a \<in> set (concat nass). fresh s \<le> a"
    using r(5) unfolding concat_replicate_Nil f0 by auto
  from cH ow at g new show ?thesis by blast
qed

lemma copyH_keeps:
  assumes o: "owns s obj t ass" and g: "grownFrom s s' nt" and tn: "t \<noteq> nt"
  shows "owns s' obj t ass" "absTable s' ass = absTable s ass"
proof -
  note ck = chainsOk_grown [OF owns_chainsOk [OF o] g tn]
  from o have "wordTableH obj = Some t" "t < fresh s" by (simp_all add: owns_def)
  moreover from g have "fresh s \<le> fresh s'" by (simp add: grownFrom_def)
  ultimately show "owns s' obj t ass" using ck(1) by (simp add: owns_def chainsOk_def)
  show "absTable s' ass = absTable s ass" by (rule ck(2))
qed

text \<open>After \<^verbatim>\<open>clear\<close> of one object, another object with a disjoint footprint still owns
  its array and nodes.\<close>

lemma clearH_keeps:
  assumes o: "owns s this tt tass" and l: "length tass = nat (capacityH this)"
    and o2: "owns s other t ass" and tn: "t \<noteq> tt"
    and dj: "set (concat ass) \<inter> set (concat tass) = {}"
  shows "\<exists>s1. clearH s this = Some (s1, this\<lparr>wordTableH := None\<rparr>) \<and> fresh s1 = fresh s \<and>
     owns s1 other t ass \<and> absTable s1 ass = absTable s ass"
proof -
  from clearH_ok [OF o l] obtain s1 where
    c: "clearH s this = Some (s1, this\<lparr>wordTableH := None\<rparr>)"
    "arrays s1 = (arrays s)(tt := None)"
    "nodes s1 = (\<lambda>a. if a \<in> set (concat tass) then None else nodes s a)"
    "fresh s1 = fresh s"
    by blast
  have u: "unchangedOutside s s1 (set (concat tass)) tt"
    unfolding unchangedOutside_def c(2,3,4) by simp
  from owns_frame [OF o2 u dj tn] c(1,4) show ?thesis by blast
qed

subsection \<open>Two objects in one store\<close>

lemma sameAs_abs:
  assumes "owns s obj t ass" "wellFormed h (absWordCounter s obj ass)"
  shows "sameAs h s obj (absWordCounter s obj ass)"
proof -
  from assms(2) have "tableOk h (capacityH obj) (absTable s ass)"
    by (simp add: wellFormed_def absWordCounter_simps)
  from getWordCountH_refines [OF assms(1) this] show ?thesis
    by (simp add: sameAs_def absWordCounter_simps)
qed

lemma stepH_refines:
  assumes o: "owns s obj t ass" and wf: "wellFormed h (absWordCounter s obj ass)"
  shows "\<exists>s' obj' t' ass'. stepH h (s, obj) c = Some (s', obj') \<and>
     step h (absWordCounter s obj ass) c = Some (absWordCounter s' obj' ass') \<and>
     owns s' obj' t' ass' \<and> wellFormed h (absWordCounter s' obj' ass') \<and>
     unchangedOutside s s' (set (concat ass)) t \<and> footprintFrom s t ass t' ass'"
proof (cases c)
  case (Add w)
  from addWordH_refines [OF o wf, of w] obtain r s' obj' t' ass' where
    a: "addWordH h s obj w = Some (r, s', obj')"
    "addWord h (absWordCounter s obj ass) w = Some (r, absWordCounter s' obj' ass')"
    "owns s' obj' t' ass'" "unchangedOutside s s' (set (concat ass)) t"
    "footprintFrom s t ass t' ass'"
    by blast
  from wellFormed_addWord [OF wf a(2)] have "wellFormed h (absWordCounter s' obj' ass')" .
  moreover have "stepH h (s, obj) c = Some (s', obj')" using Add a(1) by simp
  moreover have "step h (absWordCounter s obj ass) c = Some (absWordCounter s' obj' ass')"
    using Add a(2) by simp
  ultimately show ?thesis using a(3,4,5) by blast
next
  case (Remove w)
  from removeWordH_refines [OF o wf, of w] obtain s' obj' t' ass' where
    a: "removeWordH h s obj w = Some (s', obj')"
    "removeWord h (absWordCounter s obj ass) w = Some (absWordCounter s' obj' ass')"
    "owns s' obj' t' ass'" "unchangedOutside s s' (set (concat ass)) t"
    "footprintFrom s t ass t' ass'"
    by blast
  from wellFormed_removeWord [OF wf a(2)] have "wellFormed h (absWordCounter s' obj' ass')" .
  moreover have "stepH h (s, obj) c = Some (s', obj')" using Remove a(1) by simp
  moreover have "step h (absWordCounter s obj ass) c = Some (absWordCounter s' obj' ass')"
    using Remove a(2) by simp
  ultimately show ?thesis using a(3,4,5) by blast
qed

lemma runH_refines:
  assumes "owns s obj t ass" "wellFormed h (absWordCounter s obj ass)"
  shows "\<exists>s' obj' t' ass'. runH h (s, obj) cs = Some (s', obj') \<and>
     run h (absWordCounter s obj ass) cs = Some (absWordCounter s' obj' ass') \<and>
     owns s' obj' t' ass' \<and> wellFormed h (absWordCounter s' obj' ass')"
  using assms
proof (induction cs arbitrary: s obj t ass)
  case Nil
  then show ?case by auto
next
  case (Cons c cs)
  from stepH_refines [OF Cons.prems, of c] obtain s1 obj1 t1 ass1 where
    st: "stepH h (s, obj) c = Some (s1, obj1)"
    "step h (absWordCounter s obj ass) c = Some (absWordCounter s1 obj1 ass1)"
    "owns s1 obj1 t1 ass1" "wellFormed h (absWordCounter s1 obj1 ass1)"
    by blast
  from Cons.IH [OF st(3,4)] obtain s' obj' t' ass' where
    ih: "runH h (s1, obj1) cs = Some (s', obj')"
    "run h (absWordCounter s1 obj1 ass1) cs = Some (absWordCounter s' obj' ass')"
    "owns s' obj' t' ass'" "wellFormed h (absWordCounter s' obj' ass')"
    by blast
  have "runH h (s, obj) (c # cs) = Some (s', obj')" using st(1) ih(1) by simp
  moreover have "run h (absWordCounter s obj ass) (c # cs) = Some (absWordCounter s' obj' ass')"
    using st(2) ih(2) by simp
  ultimately show ?case using ih(3,4) by blast
qed

lemma apart_after:
  assumes ob: "owns s b tb assb" and fp: "footprintFrom s ta assa ta' assa'"
    and ne: "ta \<noteq> tb" and dj: "set (concat assa) \<inter> set (concat assb) = {}"
  shows "ta' \<noteq> tb" "set (concat assa') \<inter> set (concat assb) = {}"
proof -
  from ob have tl: "tb < fresh s" and fr: "\<forall>a \<in> set (concat assb). a < fresh s"
    by (simp_all add: owns_def)
  from fp have f: "ta' = ta \<or> fresh s \<le> ta'"
    "set (concat assa') \<subseteq> set (concat assa) \<union> {a. fresh s \<le> a}"
    by (simp_all add: footprintFrom_def)
  from f(1) ne tl show "ta' \<noteq> tb" by auto
  show "set (concat assa') \<inter> set (concat assb) = {}"
  proof (rule ccontr)
    assume "set (concat assa') \<inter> set (concat assb) \<noteq> {}"
    then obtain x where x: "x \<in> set (concat assa')" "x \<in> set (concat assb)" by blast
    from x(2) fr have "x < fresh s" by blast
    with x(1) f(2) have "x \<in> set (concat assa)" by auto
    with x(2) dj show False by blast
  qed
qed

lemma stepH_two:
  assumes o: "owns s a ta assa" and wf: "wellFormed h (absWordCounter s a assa)"
    and ob: "owns s b tb assb" and ne: "ta \<noteq> tb"
    and dj: "set (concat assa) \<inter> set (concat assb) = {}"
  shows "\<exists>s' a' ta' assa'. stepH h (s, a) c = Some (s', a') \<and>
     step h (absWordCounter s a assa) c = Some (absWordCounter s' a' assa') \<and>
     owns s' a' ta' assa' \<and> wellFormed h (absWordCounter s' a' assa') \<and>
     owns s' b tb assb \<and> absWordCounter s' b assb = absWordCounter s b assb \<and>
     ta' \<noteq> tb \<and> set (concat assa') \<inter> set (concat assb) = {}"
proof -
  from stepH_refines [OF o wf, of c] obtain s' a' ta' assa' where
    st: "stepH h (s, a) c = Some (s', a')"
    "step h (absWordCounter s a assa) c = Some (absWordCounter s' a' assa')"
    "owns s' a' ta' assa'" "wellFormed h (absWordCounter s' a' assa')"
    "unchangedOutside s s' (set (concat assa)) ta" "footprintFrom s ta assa ta' assa'"
    by blast
  have dj': "set (concat assb) \<inter> set (concat assa) = {}" using dj by blast
  have ne': "tb \<noteq> ta" using ne by simp
  from owns_frame [OF ob st(5) dj' ne']
  have k: "owns s' b tb assb" "absTable s' assb = absTable s assb" by simp_all
  from k(2) have e: "absWordCounter s' b assb = absWordCounter s b assb"
    by (simp add: absWordCounter_def)
  note ap = apart_after [OF ob st(6) ne dj]
  from st(1,2,3,4) k(1) e ap show ?thesis by blast
qed

lemma callsOf_simps:
  "callsOf x [] = []"
  "callsOf x ((y, c) # ics) = (if y = x then c # callsOf x ics else callsOf x ics)"
  by (simp_all add: callsOf_def)

lemma runBoth_refines:
  assumes "owns s a ta assa" "wellFormed h (absWordCounter s a assa)"
    "owns s b tb assb" "wellFormed h (absWordCounter s b assb)"
    "ta \<noteq> tb" "set (concat assa) \<inter> set (concat assb) = {}"
  shows "\<exists>s' a' b' wa wb. runBoth h (s, a, b) ics = Some (s', a', b') \<and>
     run h (absWordCounter s a assa) (callsOf True ics) = Some wa \<and>
     run h (absWordCounter s b assb) (callsOf False ics) = Some wb \<and>
     sameAs h s' a' wa \<and> sameAs h s' b' wb"
  using assms
proof (induction ics arbitrary: s a b ta assa tb assb)
  case Nil
  from sameAs_abs [OF Nil(1,2)] sameAs_abs [OF Nil(3,4)] show ?case
    by (simp add: callsOf_simps)
next
  case (Cons ic ics)
  obtain first c where ic: "ic = (first, c)" by (cases ic)
  show ?case
  proof (cases first)
    case True
    from stepH_two [OF Cons.prems(1,2,3,5,6), of c] obtain s1 a1 ta1 assa1 where
      st: "stepH h (s, a) c = Some (s1, a1)"
      "step h (absWordCounter s a assa) c = Some (absWordCounter s1 a1 assa1)"
      "owns s1 a1 ta1 assa1" "wellFormed h (absWordCounter s1 a1 assa1)"
      "owns s1 b tb assb" "absWordCounter s1 b assb = absWordCounter s b assb"
      "ta1 \<noteq> tb" "set (concat assa1) \<inter> set (concat assb) = {}"
      by blast
    have wfb: "wellFormed h (absWordCounter s1 b assb)" unfolding st(6) by (rule Cons.prems(4))
    from Cons.IH [OF st(3,4,5) wfb st(7,8)] obtain s' a' b' wa wb where
      ih: "runBoth h (s1, a1, b) ics = Some (s', a', b')"
      "run h (absWordCounter s1 a1 assa1) (callsOf True ics) = Some wa"
      "run h (absWordCounter s1 b assb) (callsOf False ics) = Some wb"
      "sameAs h s' a' wa" "sameAs h s' b' wb"
      by blast
    have "runBoth h (s, a, b) (ic # ics) = Some (s', a', b')"
      using ic True st(1) ih(1) by simp
    moreover have "run h (absWordCounter s a assa) (callsOf True (ic # ics)) = Some wa"
      using ic True st(2) ih(2) by (simp add: callsOf_simps)
    moreover have "run h (absWordCounter s b assb) (callsOf False (ic # ics)) = Some wb"
      using ic True ih(3) unfolding st(6) by (simp add: callsOf_simps)
    ultimately show ?thesis using ih(4,5) by blast
  next
    case False
    have ne: "tb \<noteq> ta" using Cons.prems(5) by simp
    have dj: "set (concat assb) \<inter> set (concat assa) = {}" using Cons.prems(6) by blast
    from stepH_two [OF Cons.prems(3,4,1) ne dj, of c] obtain s1 b1 tb1 assb1 where
      st: "stepH h (s, b) c = Some (s1, b1)"
      "step h (absWordCounter s b assb) c = Some (absWordCounter s1 b1 assb1)"
      "owns s1 b1 tb1 assb1" "wellFormed h (absWordCounter s1 b1 assb1)"
      "owns s1 a ta assa" "absWordCounter s1 a assa = absWordCounter s a assa"
      "tb1 \<noteq> ta" "set (concat assb1) \<inter> set (concat assa) = {}"
      by blast
    have wfa: "wellFormed h (absWordCounter s1 a assa)" unfolding st(6) by (rule Cons.prems(2))
    have ne1: "ta \<noteq> tb1" using st(7) by simp
    have dj1: "set (concat assa) \<inter> set (concat assb1) = {}" using st(8) by blast
    from Cons.IH [OF st(5) wfa st(3,4) ne1 dj1] obtain s' a' b' wa wb where
      ih: "runBoth h (s1, a, b1) ics = Some (s', a', b')"
      "run h (absWordCounter s1 a assa) (callsOf True ics) = Some wa"
      "run h (absWordCounter s1 b1 assb1) (callsOf False ics) = Some wb"
      "sameAs h s' a' wa" "sameAs h s' b' wb"
      by blast
    have "runBoth h (s, a, b) (ic # ics) = Some (s', a', b')"
      using ic False st(1) ih(1) by simp
    moreover have "run h (absWordCounter s a assa) (callsOf True (ic # ics)) = Some wa"
      using ic False ih(2) unfolding st(6) by (simp add: callsOf_simps)
    moreover have "run h (absWordCounter s b assb) (callsOf False (ic # ics)) = Some wb"
      using ic False st(2) ih(3) by (simp add: callsOf_simps)
    ultimately show ?thesis using ih(4,5) by blast
  qed
qed

lemma runH_other:
  assumes "owns s a ta assa" "wellFormed h (absWordCounter s a assa)"
    "owns s b tb assb" "wellFormed h (absWordCounter s b assb)"
    "ta \<noteq> tb" "set (concat assa) \<inter> set (concat assb) = {}"
  shows "\<exists>s' a'. runH h (s, a) cs = Some (s', a') \<and>
     sameAs h s' b (absWordCounter s b assb)"
  using assms
proof (induction cs arbitrary: s a ta assa)
  case Nil
  from sameAs_abs [OF Nil(3,4)] show ?case by simp
next
  case (Cons c cs)
  from stepH_two [OF Cons.prems(1,2,3,5,6), of c] obtain s1 a1 ta1 assa1 where
    st: "stepH h (s, a) c = Some (s1, a1)"
    "owns s1 a1 ta1 assa1" "wellFormed h (absWordCounter s1 a1 assa1)"
    "owns s1 b tb assb" "absWordCounter s1 b assb = absWordCounter s b assb"
    "ta1 \<noteq> tb" "set (concat assa1) \<inter> set (concat assb) = {}"
    by blast
  have wfb: "wellFormed h (absWordCounter s1 b assb)" unfolding st(5) by (rule Cons.prems(4))
  from Cons.IH [OF st(2,3,4) wfb st(6,7)] obtain s' a' where
    ih: "runH h (s1, a1) cs = Some (s', a')" "sameAs h s' b (absWordCounter s1 b assb)"
    by blast
  have "runH h (s, a) (c # cs) = Some (s', a')" using st(1) ih(1) by simp
  with ih(2) show ?case unfolding st(5) by blast
qed

lemma independentCopyI:
  assumes o: "owns s1 orig t ass" and oc: "owns s1 cpy t' ass'" and ne: "t' \<noteq> t"
    and dj: "set (concat ass') \<inter> set (concat ass) = {}"
    and eo: "absWordCounter s1 orig ass = wc0" and ec: "absWordCounter s1 cpy ass' = wc0"
    and wf: "wellFormed h wc0"
  shows "independentCopy h wc0 orig t ass s1 cpy"
proof -
  have wfo: "wellFormed h (absWordCounter s1 orig ass)" unfolding eo by (rule wf)
  have wfc: "wellFormed h (absWordCounter s1 cpy ass')" unfolding ec by (rule wf)
  have so: "sameAs h s1 orig wc0" using sameAs_abs [OF o wfo] unfolding eo .
  have sc: "sameAs h s1 cpy wc0" using sameAs_abs [OF oc wfc] unfolding ec .
  have t1: "absTable s1 ass = wordTable wc0" using eo by (auto simp: absWordCounter_def)
  have t2: "absTable s1 ass' = wordTable wc0" using ec by (auto simp: absWordCounter_def)
  have ne': "t \<noteq> t'" using ne by simp
  have dj': "set (concat ass) \<inter> set (concat ass') = {}" using dj by blast
  have fp: "\<exists>t' ass'. owns s1 orig t ass \<and> owns s1 cpy t' ass' \<and> t' \<noteq> t \<and>
        set (concat ass') \<inter> set (concat ass) = {} \<and>
        absTable s1 ass' = absTable s1 ass \<and> absTable s1 ass = wordTable wc0"
    using o oc ne dj t1 t2 by auto
  have mc: "\<exists>s2 cpy2. runH h (s1, cpy) cs = Some (s2, cpy2) \<and> sameAs h s2 orig wc0" for cs
    using runH_other [OF oc wfc o wfo ne dj, of cs] unfolding eo .
  have mo: "\<exists>s2 orig2. runH h (s1, orig) cs = Some (s2, orig2) \<and> sameAs h s2 cpy wc0" for cs
    using runH_other [OF o wfo oc wfc ne' dj', of cs] unfolding ec .
  have il: "\<exists>s2 orig2 cpy2 wo wc.
        runBoth h (s1, orig, cpy) ics = Some (s2, orig2, cpy2) \<and>
        run h wc0 (callsOf True ics) = Some wo \<and> run h wc0 (callsOf False ics) = Some wc \<and>
        sameAs h s2 orig2 wo \<and> sameAs h s2 cpy2 wc" for ics
    using runBoth_refines [OF o wfo oc wfc ne' dj', of ics] unfolding eo ec .
  show ?thesis unfolding independentCopy_def using so sc fp mc mo il by blast
qed

lemma copyH_independent:
  assumes o: "owns s orig t ass" and wf: "wellFormed h (absWordCounter s orig ass)"
  shows "\<exists>s1 cpy. copyH s orig = Some (s1, cpy) \<and>
     independentCopy h (absWordCounter s orig ass) orig t ass s1 cpy"
proof -
  let ?cpy = "\<lparr>capacityH = capacityH orig, totalWordCountH = totalWordCountH orig,
      uniqueWordCountH = uniqueWordCountH orig, wordTableH = Some (fresh s)\<rparr>"
  from wf have l: "length ass = nat (capacityH orig)"
    by (simp add: wellFormed_def tableOk_iff2 absWordCounter_simps length_absTable)
  from copyH_refines [OF o l] obtain s1 nass where
    c: "copyH s orig = Some (s1, ?cpy)" "owns s1 ?cpy (fresh s) nass"
    "absTable s1 nass = absTable s ass" "grownFrom s s1 (fresh s)"
    "\<forall>a \<in> set (concat nass). fresh s \<le> a"
    by blast
  from o have tl: "t < fresh s" and fr: "\<forall>a \<in> set (concat ass). a < fresh s"
    by (simp_all add: owns_def)
  have tn: "t \<noteq> fresh s" using tl by simp
  note k = copyH_keeps [OF o c(4) tn]
  have ne: "fresh s \<noteq> t" using tl by simp
  have dj: "set (concat nass) \<inter> set (concat ass) = {}" using c(5) fr by fastforce
  have eo: "absWordCounter s1 orig ass = absWordCounter s orig ass"
    using k(2) by (simp add: absWordCounter_def)
  have ec: "absWordCounter s1 ?cpy nass = absWordCounter s orig ass"
    using c(3) by (simp add: absWordCounter_def)
  from independentCopyI [OF k(1) c(2) ne dj eo ec wf] c(1) show ?thesis by blast
qed

lemma assignH_independent:
  assumes o: "owns s orig t ass" and wf: "wellFormed h (absWordCounter s orig ass)"
    and ot: "owns s this tt tass" and lt: "length tass = nat (capacityH this)"
    and ne: "tt \<noteq> t" and dj: "set (concat tass) \<inter> set (concat ass) = {}"
    and ad: "a1 \<noteq> a2"
  shows "\<exists>s1 cpy. assignH s (a1, this) (a2, orig) = Some (s1, cpy) \<and>
     independentCopy h (absWordCounter s orig ass) orig t ass s1 cpy"
proof -
  have ne': "t \<noteq> tt" using ne by simp
  have dj': "set (concat ass) \<inter> set (concat tass) = {}" using dj by blast
  from clearH_keeps [OF ot lt o ne' dj'] obtain s0 where
    c: "clearH s this = Some (s0, this\<lparr>wordTableH := None\<rparr>)" "fresh s0 = fresh s"
    "owns s0 orig t ass" "absTable s0 ass = absTable s ass"
    by blast
  have e0: "absWordCounter s0 orig ass = absWordCounter s orig ass"
    using c(4) by (simp add: absWordCounter_def)
  have wf0: "wellFormed h (absWordCounter s0 orig ass)" unfolding e0 by (rule wf)
  from copyH_independent [OF c(3) wf0] obtain s1 cpy where
    "copyH s0 orig = Some (s1, cpy)"
    "independentCopy h (absWordCounter s0 orig ass) orig t ass s1 cpy"
    by blast
  moreover from this(1) have "assignH s (a1, this) (a2, orig) = Some (s1, cpy)"
    using ad c(1) by (simp add: assignH_def)
  ultimately show ?thesis unfolding e0 by blast
qed

subsection \<open>Copies are deep and independent\<close>

lemma sameAs_both:
  assumes "sameAs h s1 cpy wc0" "sameAs h s orig wc0"
  shows "capacityH cpy = capacityH orig \<and> uniqueWordCountH cpy = uniqueWordCountH orig \<and>
     totalWordCountH cpy = totalWordCountH orig \<and>
     (\<forall>key. getWordCountH h s1 cpy key = getWordCountH h s orig key)"
  using assms by (simp add: sameAs_def)

text \<open>
  Claim C8. Take any object that owns its bucket array and chain nodes in the store and
  stands for a well-formed table. Copy construction returns, in a store where the original
  is as before, a new object with the same capacity, \<^verbatim>\<open>uniqueWordCount\<close> and
  \<^verbatim>\<open>totalWordCount\<close> and the same \<^verbatim>\<open>getWordCount\<close> for every key. The copy owns a new array
  and new nodes, none shared with the original, holding in every bucket the same words and
  counts in the same order. Any \<^verbatim>\<open>addWord\<close> and \<^verbatim>\<open>removeWord\<close> calls on the copy return and
  leave the capacity, both counters and every lookup result of the original as they were,
  and the other way round; after any interleaving of such calls on the two, each is what the
  table becomes under its own calls alone. Assignment to another object, which owns storage
  of its own, releases that storage and yields the same; assignment of an object to itself
  changes nothing.
\<close>

theorem copy_is_deep_and_independent:
  assumes "owns s orig t ass" and "wellFormed h (absWordCounter s orig ass)"
  shows
    "(\<exists>s1 cpy. copyH s orig = Some (s1, cpy) \<and>
        capacityH cpy = capacityH orig \<and> uniqueWordCountH cpy = uniqueWordCountH orig \<and>
        totalWordCountH cpy = totalWordCountH orig \<and>
        (\<forall>key. getWordCountH h s1 cpy key = getWordCountH h s orig key) \<and>
        independentCopy h (absWordCounter s orig ass) orig t ass s1 cpy) \<and>
     (owns s this tt tass \<and> length tass = nat (capacityH this) \<and> tt \<noteq> t \<and>
      set (concat tass) \<inter> set (concat ass) = {} \<and> a1 \<noteq> a2 \<longrightarrow>
        (\<exists>s1 cpy. assignH s (a1, this) (a2, orig) = Some (s1, cpy) \<and>
           capacityH cpy = capacityH orig \<and> uniqueWordCountH cpy = uniqueWordCountH orig \<and>
           totalWordCountH cpy = totalWordCountH orig \<and>
           (\<forall>key. getWordCountH h s1 cpy key = getWordCountH h s orig key) \<and>
           independentCopy h (absWordCounter s orig ass) orig t ass s1 cpy)) \<and>
     assignH s (a1, orig) (a1, orig) = Some (s, orig)"
proof (intro conjI impI)
  note so = sameAs_abs [OF assms]
  from copyH_independent [OF assms] obtain s1 cpy where
    c: "copyH s orig = Some (s1, cpy)"
    "independentCopy h (absWordCounter s orig ass) orig t ass s1 cpy"
    by blast
  from c(2) have "sameAs h s1 cpy (absWordCounter s orig ass)"
    by (simp add: independentCopy_def)
  from sameAs_both [OF this so] c
  show "\<exists>s1 cpy. copyH s orig = Some (s1, cpy) \<and>
        capacityH cpy = capacityH orig \<and> uniqueWordCountH cpy = uniqueWordCountH orig \<and>
        totalWordCountH cpy = totalWordCountH orig \<and>
        (\<forall>key. getWordCountH h s1 cpy key = getWordCountH h s orig key) \<and>
        independentCopy h (absWordCounter s orig ass) orig t ass s1 cpy"
    by blast
next
  note so = sameAs_abs [OF assms]
  assume a: "owns s this tt tass \<and> length tass = nat (capacityH this) \<and> tt \<noteq> t \<and>
      set (concat tass) \<inter> set (concat ass) = {} \<and> a1 \<noteq> a2"
  then have ot: "owns s this tt tass" and lt: "length tass = nat (capacityH this)"
    and ne: "tt \<noteq> t" and dj: "set (concat tass) \<inter> set (concat ass) = {}"
    and ad: "a1 \<noteq> a2"
    by simp_all
  from assignH_independent [OF assms ot lt ne dj ad] obtain s1 cpy where
    c: "assignH s (a1, this) (a2, orig) = Some (s1, cpy)"
    "independentCopy h (absWordCounter s orig ass) orig t ass s1 cpy"
    by blast
  from c(2) have "sameAs h s1 cpy (absWordCounter s orig ass)"
    by (simp add: independentCopy_def)
  from sameAs_both [OF this so] c
  show "\<exists>s1 cpy. assignH s (a1, this) (a2, orig) = Some (s1, cpy) \<and>
           capacityH cpy = capacityH orig \<and> uniqueWordCountH cpy = uniqueWordCountH orig \<and>
           totalWordCountH cpy = totalWordCountH orig \<and>
           (\<forall>key. getWordCountH h s1 cpy key = getWordCountH h s orig key) \<and>
           independentCopy h (absWordCounter s orig ass) orig t ass s1 cpy"
    by blast
next
  show "assignH s (a1, orig) (a1, orig) = Some (s, orig)" by (simp add: assignH_def)
qed

theorem copy_is_deep_and_independent_witness:
  "\<exists>s orig t ass s' this.
     runH sampleHash (initializeH emptyHeap 11) [Add ''cat'', Add ''dog'', Add ''cat'']
       = Some (s, orig) \<and>
     initializeH s 13 = (s', this) \<and>
     owns s' orig t ass \<and> wellFormed sampleHash (absWordCounter s' orig ass) \<and>
     owns s' this (fresh s) (replicate 13 []) \<and>
     length (replicate 13 [] :: nat list list) = nat (capacityH this) \<and> fresh s \<noteq> t \<and>
     set (concat (replicate 13 [])) \<inter> set (concat ass) = {} \<and> (0 :: nat) \<noteq> 1 \<and>
     (\<exists>s1 cpy. copyH s' orig = Some (s1, cpy) \<and>
        getWordCountH sampleHash s1 cpy ''cat'' = Some 2 \<and>
        (\<exists>s2 orig2 cpy2.
           runBoth sampleHash (s1, orig, cpy) [(False, Remove ''cat''), (True, Add ''dog'')]
             = Some (s2, orig2, cpy2) \<and>
           getWordCountH sampleHash s2 orig2 ''cat'' = Some 2 \<and>
           getWordCountH sampleHash s2 cpy2 ''cat'' = Some 0 \<and>
           getWordCountH sampleHash s2 orig2 ''dog'' = Some 2 \<and>
           getWordCountH sampleHash s2 cpy2 ''dog'' = Some 1)) \<and>
     (\<exists>s1 cpy. assignH s' (0, this) (1, orig) = Some (s1, cpy) \<and>
        getWordCountH sampleHash s1 cpy ''dog'' = Some 1)"
proof -
  let ?i = "initializeH emptyHeap 11"
  let ?cs = "[Add ''cat'', Add ''dog'', Add ''cat'']"
  have o0: "owns (fst ?i) (snd ?i) (fresh emptyHeap) (replicate (nat 11) [])"
    by (rule owns_initializeH)
  have a0: "absWordCounter (fst ?i) (snd ?i) (replicate (nat 11) []) = WordCounter_default"
    unfolding abs_initializeH by (simp add: WordCounter_default_def MIN_CAPACITY_def)
  have wf0: "wellFormed sampleHash (absWordCounter (fst ?i) (snd ?i) (replicate (nat 11) []))"
    unfolding a0 by (rule wellFormed_default)
  from runH_refines [OF o0 wf0, of ?cs] obtain s orig t ass where
    r: "runH sampleHash (fst ?i, snd ?i) ?cs = Some (s, orig)"
    "run sampleHash (absWordCounter (fst ?i) (snd ?i) (replicate (nat 11) [])) ?cs =
       Some (absWordCounter s orig ass)"
    "owns s orig t ass"
    by blast
  from r(1) have r1: "runH sampleHash ?i ?cs = Some (s, orig)" by simp
  from r(2) have ab: "absWordCounter s orig ass = catDogCat"
    unfolding a0 run_catDogCat by simp
  let ?j = "initializeH s 13"
  let ?s' = "fst ?j" and ?tgt = "snd ?j"
  have ot: "owns ?s' ?tgt (fresh s) (replicate 13 [])"
    using owns_initializeH [of s 13] by simp
  have g: "grownFrom s ?s' (fresh s)" by (simp add: initializeH_def grownFrom_def allocArray_def)
  from r(3) have tl: "t < fresh s" by (simp add: owns_def)
  then have tn: "t \<noteq> fresh s" and nt: "fresh s \<noteq> t" by simp_all
  note k = copyH_keeps [OF r(3) g tn]
  have ab': "absWordCounter ?s' orig ass = catDogCat"
    using k(2) ab by (simp add: absWordCounter_def)
  have wf': "wellFormed sampleHash (absWordCounter ?s' orig ass)"
    unfolding ab' by (rule wellFormed_catDogCat)
  have lt: "length (replicate 13 [] :: nat list list) = nat (capacityH ?tgt)"
    by (simp add: initializeH_def)
  have dj: "set (concat (replicate 13 [])) \<inter> set (concat ass) = {}"
    by (simp add: concat_replicate_Nil)
  have ad: "(0 :: nat) \<noteq> 1" by simp
  note th = copy_is_deep_and_independent [OF k(1) wf', of ?tgt "fresh s" "replicate 13 []" 0 1,
      unfolded ab']
  have e: "getWordCount sampleHash catDogCat ''cat'' = Some 2"
    "getWordCount sampleHash catDogCat ''dog'' = Some 1"
    "run sampleHash catDogCat [Add ''dog''] \<bind> (\<lambda>w. getWordCount sampleHash w ''cat'') = Some 2"
    "run sampleHash catDogCat [Add ''dog''] \<bind> (\<lambda>w. getWordCount sampleHash w ''dog'') = Some 2"
    "run sampleHash catDogCat [Remove ''cat''] \<bind> (\<lambda>w. getWordCount sampleHash w ''cat'') = Some 0"
    "run sampleHash catDogCat [Remove ''cat''] \<bind> (\<lambda>w. getWordCount sampleHash w ''dog'') = Some 1"
    by code_simp+
  from sameAs_abs [OF k(1) wf'] have so: "sameAs sampleHash ?s' orig catDogCat" unfolding ab' .
  from th obtain s1 cpy where
    c: "copyH ?s' orig = Some (s1, cpy)"
    "\<forall>key. getWordCountH sampleHash s1 cpy key = getWordCountH sampleHash ?s' orig key"
    "independentCopy sampleHash catDogCat orig t ass s1 cpy"
    by blast
  have l1: "getWordCountH sampleHash s1 cpy ''cat'' = Some 2"
    using c(2) so e(1) by (simp add: sameAs_def)
  let ?ics = "[(False, Remove ''cat''), (True, Add ''dog'')]"
  from c(3) obtain s2 orig2 cpy2 wo wc where
    b: "runBoth sampleHash (s1, orig, cpy) ?ics = Some (s2, orig2, cpy2)"
    "run sampleHash catDogCat (callsOf True ?ics) = Some wo"
    "run sampleHash catDogCat (callsOf False ?ics) = Some wc"
    "sameAs sampleHash s2 orig2 wo" "sameAs sampleHash s2 cpy2 wc"
    unfolding independentCopy_def by blast
  have ro: "run sampleHash catDogCat [Add ''dog''] = Some wo"
    using b(2) by (simp add: callsOf_simps)
  have rc: "run sampleHash catDogCat [Remove ''cat''] = Some wc"
    using b(3) by (simp add: callsOf_simps)
  have lo: "getWordCount sampleHash wo ''cat'' = Some 2"
    "getWordCount sampleHash wo ''dog'' = Some 2"
    using e(3,4) unfolding ro by simp_all
  have lc: "getWordCount sampleHash wc ''cat'' = Some 0"
    "getWordCount sampleHash wc ''dog'' = Some 1"
    using e(5,6) unfolding rc by simp_all
  have l2: "getWordCountH sampleHash s2 orig2 ''cat'' = Some 2"
    "getWordCountH sampleHash s2 cpy2 ''cat'' = Some 0"
    "getWordCountH sampleHash s2 orig2 ''dog'' = Some 2"
    "getWordCountH sampleHash s2 cpy2 ''dog'' = Some 1"
    using b(4,5) lo lc by (simp_all add: sameAs_def)
  from th ot lt nt dj ad obtain s3 cpy3 where
    as: "assignH ?s' (0, ?tgt) (1, orig) = Some (s3, cpy3)"
    "\<forall>key. getWordCountH sampleHash s3 cpy3 key = getWordCountH sampleHash ?s' orig key"
    by blast
  have l3: "getWordCountH sampleHash s3 cpy3 ''dog'' = Some 1"
    using as(2) so e(2) by (simp add: sameAs_def)
  have j: "initializeH s 13 = (?s', ?tgt)" by simp
  from r1 j k(1) wf' ot lt nt dj ad c(1) l1 b(1) l2 as(1) l3 show ?thesis by blast
qed

end
